(* ===== verification/Prelude.thy ===== *)
theory Prelude
  imports Main "HOL-Library.Word" "HOL-Library.Monad_Syntax"
    "HOL-Library.Signed_Division"
begin

unbundle bit_operations_syntax

section \<open>Shared types, C integers, buffers and loops\<close>

text \<open>
  The vocabulary the component theories share.

  \<^item> Addresses and pointers. An object returned by \<open>malloc\<close> is named by an address; a
    C pointer is an optional address, NULL being \<open>None\<close>.
  \<^item> Undefined behaviour. A function whose C original may have undefined behaviour (a
    dereference of NULL or of a freed object, an access outside a buffer, a read of an
    uninitialised scalar, a signed overflow), abort on a failed \<open>assert\<close>, or not
    return, has a result of type option, where \<open>None\<close> stands for exactly
    these outcomes. The error codes the functions report to their callers are ordinary
    values inside \<open>Some\<close>.
  \<^item> Bytes. A byte of malloc'd memory is a cell: \<open>None\<close> until something is
    stored there (its value is indeterminate), \<open>Some b\<close> afterwards.
\<close>

type_synonym addr = nat
type_synonym ptr = "addr option"
type_synonym byte = "8 word"
type_synonym cell = "byte option"

named_theorems ub_simps \<open>how the option monad and the memory primitives compute\<close>
named_theorems link_simps \<open>pointer lists under updates of the store\<close>

subsection \<open>C integers\<close>

text \<open>
  \<open>int\<close> has 32 bits, \<open>size_t\<close>, \<open>ssize_t\<close> and \<open>long\<close> have 64. Where a
  conversion or an overflow matters, it is written out.
\<close>

definition int_max :: int where "int_max = 2147483647"

definition int_min :: int where "int_min = -2147483648"

definition in_int :: "int \<Rightarrow> bool" where
  "in_int i \<longleftrightarrow> int_min \<le> i \<and> i \<le> int_max"

text \<open>Signed arithmetic that overflows is undefined: \<open>None\<close>.\<close>

definition c_int :: "int \<Rightarrow> int option" where
  "c_int i = (if in_int i then Some i else None)"

text \<open>The conversions \<open>(int)n\<close> and \<open>(ssize_t)n\<close> of a \<open>size_t\<close>.\<close>

definition cast_int :: "nat \<Rightarrow> int" where
  "cast_int n = (let m = n mod 2 ^ 32 in if m < 2 ^ 31 then int m else int m - 2 ^ 32)"

definition cast_ssize :: "nat \<Rightarrow> int" where
  "cast_ssize n = (let m = n mod 2 ^ 64 in if m < 2 ^ 63 then int m else int m - 2 ^ 64)"

text \<open>Addition of two \<open>size_t\<close>, which wraps around.\<close>

definition size_add :: "nat \<Rightarrow> nat \<Rightarrow> nat" where
  "size_add a b = (a + b) mod 2 ^ 64"

lemma c_int_Some [simp]: "in_int i \<Longrightarrow> c_int i = Some i"
  by (simp add: c_int_def)

lemma c_int_eq_Some: "c_int i = Some j \<longleftrightarrow> in_int i \<and> j = i"
  by (auto simp: c_int_def)

lemma in_intI [intro]: "- 2147483648 \<le> i \<Longrightarrow> i \<le> 2147483647 \<Longrightarrow> in_int i"
  by (simp add: in_int_def int_min_def int_max_def)

lemma cast_int_small [simp]: "n < 2 ^ 31 \<Longrightarrow> cast_int n = int n"
  by (simp add: cast_int_def)

lemma cast_ssize_small [simp]: "n < 2 ^ 63 \<Longrightarrow> cast_ssize n = int n"
  by (simp add: cast_ssize_def)

lemma size_add_small [simp]: "a + b < 2 ^ 64 \<Longrightarrow> size_add a b = a + b"
  by (simp add: size_add_def)

subsection \<open>Buffers\<close>

text \<open>\<open>memcpy\<close> out of a buffer and into a buffer, with the bounds it relies on.\<close>

definition mem_read :: "'a list \<Rightarrow> nat \<Rightarrow> nat \<Rightarrow> 'a list option" where
  "mem_read xs i n = (if i + n \<le> length xs then Some (take n (drop i xs)) else None)"

definition overwrite :: "'a list \<Rightarrow> nat \<Rightarrow> 'a list \<Rightarrow> 'a list" where
  "overwrite xs i ys = take i xs @ ys @ drop (i + length ys) xs"

definition mem_write :: "'a list \<Rightarrow> nat \<Rightarrow> 'a list \<Rightarrow> 'a list option" where
  "mem_write xs i ys =
     (if i + length ys \<le> length xs then Some (overwrite xs i ys) else None)"

lemma length_overwrite [simp]:
  "i + length ys \<le> length xs \<Longrightarrow> length (overwrite xs i ys) = length xs"
  by (simp add: overwrite_def)

lemma mem_read_Some [simp]:
  "i + n \<le> length xs \<Longrightarrow> mem_read xs i n = Some (take n (drop i xs))"
  by (simp add: mem_read_def)

lemma mem_write_Some [simp]:
  "i + length ys \<le> length xs \<Longrightarrow> mem_write xs i ys = Some (overwrite xs i ys)"
  by (simp add: mem_write_def)

lemma overwrite_Nil [simp]: "overwrite xs i [] = xs"
  by (simp add: overwrite_def)

lemma overwrite_at_end: "i = length xs \<Longrightarrow> overwrite xs i ys = xs @ ys"
  by (simp add: overwrite_def)

lemma overwrite_append_left:
  "i + length ys \<le> length xs \<Longrightarrow> overwrite (xs @ zs) i ys = overwrite xs i ys @ zs"
  by (simp add: overwrite_def)

lemma overwrite_append_right:
  "length xs \<le> i \<Longrightarrow> overwrite (xs @ zs) i ys = xs @ overwrite zs (i - length xs) ys"
  by (simp add: overwrite_def Nat.add_diff_assoc2)

lemma take_drop_append [simp]: "take n xs @ drop n xs @ zs = xs @ zs"
  by (simp flip: append_assoc)

lemma take_overwrite: "i \<le> length xs \<Longrightarrow> take i (overwrite xs i ys) = take i xs"
  by (simp add: overwrite_def)

lemma take_overwrite_max:
  assumes "i \<le> n" and "n \<le> length xs"
  shows "take (max n (i + length ys)) (overwrite xs i ys) = overwrite (take n xs) i ys"
proof -
  have "take (max n (i + length ys)) (overwrite xs i ys) =
      take i xs @ ys @ take (max n (i + length ys) - i - length ys) (drop (i + length ys) xs)"
    using assms by (simp add: overwrite_def)
  also have "max n (i + length ys) - i - length ys = n - (i + length ys)" by simp
  finally show ?thesis using assms by (simp add: overwrite_def drop_take)
qed

lemma overwrite_twice:
  "i \<le> length xs \<Longrightarrow> overwrite (overwrite xs i ys) (i + length ys) zs = overwrite xs i (ys @ zs)"
  by (simp add: overwrite_def ac_simps)

subsection \<open>Loops over an index list\<close>

text \<open>
  \<open>for_each is f s\<close> runs \<open>f i\<close> for every \<open>i\<close> of \<open>is\<close> in order, the state
  threaded through: the shape of a C \<open>for\<close> loop without \<open>break\<close>.
\<close>

primrec for_each :: "'i list \<Rightarrow> ('i \<Rightarrow> 's \<Rightarrow> 's option) \<Rightarrow> 's \<Rightarrow> 's option" where
  "for_each [] f s = Some s"
| "for_each (i # is) f s = do { s \<leftarrow> f i s; for_each is f s }"

lemma for_each_append:
  "for_each (is @ js) f s = do { s \<leftarrow> for_each is f s; for_each js f s }"
  by (induction "is" arbitrary: s) (simp_all add: Option.bind_assoc)

lemma for_each_invariant:
  assumes "\<And>i s. i \<in> set is \<Longrightarrow> P s \<Longrightarrow> \<exists>s'. f i s = Some s' \<and> P s'" and "P s"
  shows "\<exists>s'. for_each is f s = Some s' \<and> P s'"
  using assms
proof (induction "is" arbitrary: s)
  case (Cons i "is")
  then obtain s' where "f i s = Some s'" "P s'" by fastforce
  with Cons show ?case by simp
qed simp

subsection \<open>Option monad\<close>

declare Option.bind_lunit [ub_simps] Option.bind.bind_lzero [ub_simps]

lemma bind_Some_eq [ub_simps]: "x = Some a \<Longrightarrow> x \<bind> f = f a"
  by simp

lemma bind_eq_SomeE:
  assumes "x \<bind> f = Some r"
  obtains a where "x = Some a" and "f a = Some r"
  using assms by (cases x) auto

subsection \<open>Reachable states\<close>

text \<open>
  The states a system can reach, given its initial states and its steps, and the
  interface under which an invariant holds in all of them.
\<close>

inductive reach :: "('s \<Rightarrow> bool) \<Rightarrow> ('s \<Rightarrow> 's \<Rightarrow> bool) \<Rightarrow> 's \<Rightarrow> bool"
  for init :: "'s \<Rightarrow> bool" and stp :: "'s \<Rightarrow> 's \<Rightarrow> bool" where
  reach_init: "init s \<Longrightarrow> reach init stp s"
| reach_step: "reach init stp s \<Longrightarrow> stp s t \<Longrightarrow> reach init stp t"

locale invariant_system =
  fixes init :: "'s \<Rightarrow> bool"
    and stp :: "'s \<Rightarrow> 's \<Rightarrow> bool"
    and inv :: "'s \<Rightarrow> bool"
  assumes inv_init: "init s \<Longrightarrow> inv s"
    and inv_step: "inv s \<Longrightarrow> stp s t \<Longrightarrow> inv t"
begin

lemma reach_inv: "reach init stp s \<Longrightarrow> inv s"
  by (induction rule: reach.induct) (auto intro: inv_init inv_step)

lemma steps_inv: "inv s \<Longrightarrow> stp\<^sup>*\<^sup>* s t \<Longrightarrow> inv t"
  by (rotate_tac, induction rule: rtranclp_induct) (auto intro: inv_step)

end

end
