(* ===== verification/Links.thy ===== *)
theory Links
  imports Prelude
begin

section \<open>Linked lists in a store\<close>

text \<open>
  The program keeps its files, the blocks of a file, the coroutines and the tracked
  allocations in linked lists of heap nodes. A store maps the address of a live node to
  its fields; \<open>dll nx pv h b p as q\<close> says that following the next field from \<open>p\<close>
  visits exactly the nodes \<open>as\<close> and ends at \<open>q\<close>, every node being live and its prev
  field pointing at the node before it (at \<open>b\<close> for the first one). \<open>sll\<close> is the
  same for lists without a prev field.

  The interface of a node type is a locale (\<open>slinks\<close> for a next field, \<open>dlinks\<close> with a
  prev field besides): how the fields read back after they are assigned. Every change the
  program makes to a list (prepend, append, unlink, cut the tail) is proved once there,
  and each node type of the program interprets it.
\<close>

fun sll :: "('n \<Rightarrow> ptr) \<Rightarrow> (addr \<rightharpoonup> 'n) \<Rightarrow> ptr \<Rightarrow> addr list \<Rightarrow> ptr \<Rightarrow> bool" where
  "sll nx h p [] q \<longleftrightarrow> p = q"
| "sll nx h p (a # as) q \<longleftrightarrow>
     p = Some a \<and> (case h a of None \<Rightarrow> False | Some n \<Rightarrow> sll nx h (nx n) as q)"

fun dll :: "('n \<Rightarrow> ptr) \<Rightarrow> ('n \<Rightarrow> ptr) \<Rightarrow> (addr \<rightharpoonup> 'n) \<Rightarrow> ptr \<Rightarrow> ptr \<Rightarrow> addr list \<Rightarrow> ptr \<Rightarrow> bool"
where
  "dll nx pv h b p [] q \<longleftrightarrow> p = q"
| "dll nx pv h b p (a # as) q \<longleftrightarrow>
     p = Some a \<and>
     (case h a of None \<Rightarrow> False
      | Some n \<Rightarrow> pv n = b \<and> dll nx pv h (Some a) (nx n) as q)"

text \<open>The pointer to the first node, and to the last, of a list that may be empty.\<close>

definition first_ptr :: "addr list \<Rightarrow> ptr \<Rightarrow> ptr" where
  "first_ptr as q = (case as of [] \<Rightarrow> q | a # _ \<Rightarrow> Some a)"

definition last_ptr :: "ptr \<Rightarrow> addr list \<Rightarrow> ptr" where
  "last_ptr b as = (if as = [] then b else Some (last as))"

lemma first_ptr_simps [simp]:
  "first_ptr [] q = q" "first_ptr (a # as) q = Some a"
  by (simp_all add: first_ptr_def)

lemma last_ptr_simps [simp]:
  "last_ptr b [] = b" "last_ptr b (as @ [a]) = Some a"
  "last_ptr b (a # as) = last_ptr (Some a) as"
  by (simp_all add: last_ptr_def)

lemma last_ptr_append: "last_ptr b (xs @ ys) = last_ptr (last_ptr b xs) ys"
  by (simp add: last_ptr_def)

lemma first_ptr_append: "first_ptr (xs @ ys) q = first_ptr xs (first_ptr ys q)"
  by (cases xs) simp_all

lemma first_ptr_None [simp]: "first_ptr as None = None \<longleftrightarrow> as = []"
  by (cases as) simp_all

lemma last_ptr_None [simp]: "last_ptr None as = None \<longleftrightarrow> as = []"
  by (simp add: last_ptr_def)

lemma last_ptr_SomeD: "last_ptr None as = Some a \<Longrightarrow> as \<noteq> [] \<and> a = last as"
  by (auto simp: last_ptr_def split: if_splits)

lemma first_ptr_SomeD: "first_ptr as None = Some a \<Longrightarrow> as \<noteq> [] \<and> a = hd as"
  by (cases as) auto

subsection \<open>Segments\<close>

lemma sll_first: "sll nx h p as q \<Longrightarrow> p = first_ptr as q"
  by (cases as) auto

lemma sll_append:
  "sll nx h p (xs @ ys) q \<longleftrightarrow> sll nx h p xs (first_ptr ys q) \<and> sll nx h (first_ptr ys q) ys q"
  by (induction xs arbitrary: p) (auto split: option.splits dest: sll_first)

lemma sll_live: "sll nx h p as q \<Longrightarrow> a \<in> set as \<Longrightarrow> \<exists>n. h a = Some n"
  by (induction as arbitrary: p) (auto split: option.splits)

lemma sll_cong:
  assumes "\<And>a. a \<in> set as \<Longrightarrow> map_option nx (h a) = map_option nx (h' a)"
  shows "sll nx h p as q \<longleftrightarrow> sll nx h' p as q"
  using assms
proof (induction as arbitrary: p)
  case (Cons a as)
  then have "map_option nx (h a) = map_option nx (h' a)" by simp
  with Cons show ?case by (cases "h a"; cases "h' a") simp_all
qed simp

lemma sll_unique: "sll nx h p xs None \<Longrightarrow> sll nx h p ys None \<Longrightarrow> xs = ys"
proof (induction xs arbitrary: p ys)
  case Nil
  then show ?case by (cases ys) auto
next
  case (Cons x xs)
  then show ?case by (cases ys) (auto split: option.splits)
qed

lemma dll_first: "dll nx pv h b p as q \<Longrightarrow> p = first_ptr as q"
  by (cases as) auto

lemma dll_sll: "dll nx pv h b p as q \<Longrightarrow> sll nx h p as q"
  by (induction as arbitrary: b p) (auto split: option.splits)

lemma dll_append:
  "dll nx pv h b p (xs @ ys) q \<longleftrightarrow>
     dll nx pv h b p xs (first_ptr ys q) \<and>
     dll nx pv h (last_ptr b xs) (first_ptr ys q) ys q"
  by (induction xs arbitrary: b p) (auto split: option.splits dest: dll_first)

lemma dll_live: "dll nx pv h b p as q \<Longrightarrow> a \<in> set as \<Longrightarrow> \<exists>n. h a = Some n"
  by (blast dest: dll_sll sll_live)

lemma dll_cong:
  assumes "\<And>a. a \<in> set as \<Longrightarrow>
    map_option (\<lambda>n. (nx n, pv n)) (h a) = map_option (\<lambda>n. (nx n, pv n)) (h' a)"
  shows "dll nx pv h b p as q \<longleftrightarrow> dll nx pv h' b p as q"
  using assms
proof (induction as arbitrary: b p)
  case (Cons a as)
  then have "map_option (\<lambda>n. (nx n, pv n)) (h a) = map_option (\<lambda>n. (nx n, pv n)) (h' a)"
    by simp
  with Cons show ?case by (cases "h a"; cases "h' a") simp_all
qed simp

lemma dll_upd_other [link_simps]:
  "a \<notin> set as \<Longrightarrow> dll nx pv (h(a := x)) b p as q \<longleftrightarrow> dll nx pv h b p as q"
  by (rule dll_cong) auto

lemma sll_upd_other [link_simps]:
  "a \<notin> set as \<Longrightarrow> sll nx (h(a := x)) p as q \<longleftrightarrow> sll nx h p as q"
  by (rule sll_cong) auto

text \<open>Changing fields of a node other than its links keeps the list.\<close>

lemma dll_upd_data:
  "h a = Some n \<Longrightarrow> nx n' = nx n \<Longrightarrow> pv n' = pv n \<Longrightarrow>
   dll nx pv (h(a \<mapsto> n')) b p as q \<longleftrightarrow> dll nx pv h b p as q"
  by (rule dll_cong) auto

lemma sll_upd_data:
  "h a = Some n \<Longrightarrow> nx n' = nx n \<Longrightarrow> sll nx (h(a \<mapsto> n')) p as q \<longleftrightarrow> sll nx h p as q"
  by (rule sll_cong) auto

lemma dll_unique: "dll nx pv h b p xs None \<Longrightarrow> dll nx pv h c p ys None \<Longrightarrow> xs = ys"
  by (blast dest: dll_sll intro: sll_unique)

text \<open>A list that ends in NULL visits no node twice.\<close>

lemma sll_distinct: "sll nx h p as None \<Longrightarrow> distinct as"
proof (induction as arbitrary: p)
  case (Cons a as)
  then obtain n where n: "h a = Some n" "sll nx h (nx n) as None" "p = Some a"
    by (auto split: option.splits)
  have "a \<notin> set as"
  proof
    assume "a \<in> set as"
    then obtain xs ys where as: "as = xs @ a # ys" by (auto simp: in_set_conv_decomp)
    with n have "sll nx h (Some a) (a # ys) None" by (simp add: sll_append)
    moreover from n have "sll nx h (Some a) (a # as) None" by simp
    ultimately have "a # ys = a # as" by (rule sll_unique)
    with as show False by simp
  qed
  with Cons.IH n show ?case by auto
qed simp

lemma dll_distinct: "dll nx pv h b p as None \<Longrightarrow> distinct as"
  by (blast dest: dll_sll sll_distinct)

lemma dll_node:
  assumes "dll nx pv h b p (xs @ a # ys) q"
  obtains n where "h a = Some n" "pv n = last_ptr b xs" "nx n = first_ptr ys q"
proof -
  from assms have "dll nx pv h (last_ptr b xs) (Some a) (a # ys) q"
    by (simp add: dll_append)
  with that show thesis by (auto split: option.splits dest: dll_first)
qed

subsection \<open>Walking a list\<close>

text \<open>\<open>walk\<close> collects the nodes from a pointer on: the executable reading of \<open>sll\<close>.\<close>

partial_function (option) walk :: "('n \<Rightarrow> ptr) \<Rightarrow> (addr \<rightharpoonup> 'n) \<Rightarrow> ptr \<Rightarrow> addr list option" where
  [code]: "walk nx h p =
     (case p of None \<Rightarrow> Some []
      | Some a \<Rightarrow> do { n \<leftarrow> h a; as \<leftarrow> walk nx h (nx n); Some (a # as) })"

lemma walk_sll: "sll nx h p as None \<Longrightarrow> walk nx h p = Some as"
proof (induction as arbitrary: p)
  case Nil
  then show ?case by (simp add: walk.simps)
next
  case (Cons a as)
  then obtain n where "h a = Some n" "sll nx h (nx n) as None" "p = Some a"
    by (auto split: option.splits)
  with Cons.IH show ?case by (simp add: walk.simps [of nx h "Some a"])
qed

lemma walk_dll: "dll nx pv h b p as None \<Longrightarrow> walk nx h p = Some as"
  by (blast dest: dll_sll walk_sll)

subsection \<open>Node types\<close>

locale slinks =
  fixes nx :: "'n \<Rightarrow> ptr" and set_nx :: "ptr \<Rightarrow> 'n \<Rightarrow> 'n"
  assumes nx_set_nx [simp]: "nx (set_nx p n) = p"
begin

lemma sll_push: "sll nx h p as q \<Longrightarrow> a \<notin> set as \<Longrightarrow> nx n = p \<Longrightarrow> sll nx (h(a \<mapsto> n)) (Some a) (a # as) q"
  by (simp add: link_simps)

lemma sll_unlink:
  assumes "sll nx h p (xs @ c # a # ys) q" and "distinct (xs @ c # a # ys)"
    and "h a = Some n" and "h c = Some m"
  shows "sll nx (h(c \<mapsto> set_nx (nx n) m)) p (xs @ c # ys) q"
proof -
  from assms(1,3) have "sll nx h p xs (Some c)" "sll nx h (nx n) ys q"
    by (auto simp: sll_append split: option.splits)
  with assms(2) show ?thesis by (auto simp: sll_append link_simps)
qed

end

locale dlinks = slinks nx set_nx
  for nx :: "'n \<Rightarrow> ptr" and set_nx :: "ptr \<Rightarrow> 'n \<Rightarrow> 'n" +
  fixes pv :: "'n \<Rightarrow> ptr" and set_pv :: "ptr \<Rightarrow> 'n \<Rightarrow> 'n"
  assumes pv_set_pv [simp]: "pv (set_pv p n) = p"
    and nx_set_pv [simp]: "nx (set_pv p n) = nx n"
    and pv_set_nx [simp]: "pv (set_nx p n) = pv n"
begin

text \<open>Assigning the next field of the last node redirects the end of the list.\<close>

lemma dll_set_next:
  assumes "dll nx pv h b p (xs @ [a]) q" and "a \<notin> set xs" and "h a = Some n"
  shows "dll nx pv (h(a \<mapsto> set_nx r n)) b p (xs @ [a]) r"
  using assms by (auto simp: dll_append link_simps)

text \<open>Assigning the prev field of the first node redirects what stands before the list.\<close>

lemma dll_set_prev:
  assumes "dll nx pv h b p (a # xs) q" and "a \<notin> set xs" and "h a = Some n"
  shows "dll nx pv (h(a \<mapsto> set_pv c n)) c p (a # xs) q"
  using assms by (auto simp: link_simps)

lemma dll_prepend_Nil:
  "nx n = None \<Longrightarrow> pv n = None \<Longrightarrow> dll nx pv (h(a \<mapsto> n)) None (Some a) [a] None"
  by simp

lemma dll_prepend:
  assumes "dll nx pv h None (Some x) (x # xs) None" and "a \<notin> set (x # xs)"
    and "h x = Some m" and "nx n = Some x" and "pv n = None"
  shows "dll nx pv ((h(a \<mapsto> n))(x \<mapsto> set_pv (Some a) m)) None (Some a) (a # x # xs) None"
proof -
  from assms(1) have "distinct (x # xs)" by (rule dll_distinct)
  with assms show ?thesis by (auto simp: link_simps)
qed

lemma dll_snoc:
  assumes "dll nx pv h b p (xs @ [x]) None" and "distinct (xs @ [x])" and "a \<notin> set (xs @ [x])"
    and "h x = Some m" and "nx n = None" and "pv n = Some x"
  shows "dll nx pv ((h(a \<mapsto> n))(x \<mapsto> set_nx (Some a) m)) b p (xs @ [x, a]) None"
  using assms by (auto simp: dll_append link_simps)

text \<open>
  Unlinking: the node before is made to point past the node, the node after back over it;
  either may be missing.
\<close>

definition relink_next :: "ptr \<Rightarrow> ptr \<Rightarrow> (addr \<rightharpoonup> 'n) \<Rightarrow> (addr \<rightharpoonup> 'n)" where
  "relink_next c r h =
     (case c of None \<Rightarrow> h | Some a \<Rightarrow> (case h a of None \<Rightarrow> h | Some n \<Rightarrow> h(a \<mapsto> set_nx r n)))"

definition relink_prev :: "ptr \<Rightarrow> ptr \<Rightarrow> (addr \<rightharpoonup> 'n) \<Rightarrow> (addr \<rightharpoonup> 'n)" where
  "relink_prev c r h =
     (case c of None \<Rightarrow> h | Some a \<Rightarrow> (case h a of None \<Rightarrow> h | Some n \<Rightarrow> h(a \<mapsto> set_pv r n)))"

lemma relink_next_segment:
  assumes "dll nx pv h None p xs q" and "distinct xs"
  shows "dll nx pv (relink_next (last_ptr None xs) r h) None (first_ptr xs r) xs r"
proof (cases xs rule: rev_exhaust)
  case (snoc ys y)
  with assms obtain n where "h y = Some n" by (auto simp: dll_append split: option.splits)
  moreover from assms snoc have "p = first_ptr xs q" by (simp add: dll_first)
  ultimately show ?thesis
    using assms snoc dll_set_next [of h None p ys y q n r]
    by (cases ys) (simp_all add: relink_next_def)
qed (simp add: relink_next_def)

lemma relink_prev_segment:
  assumes "dll nx pv h b (first_ptr xs None) xs None"
  shows "dll nx pv (relink_prev (first_ptr xs None) r h) r (first_ptr xs None) xs None"
proof (cases xs)
  case (Cons y ys)
  with assms obtain n where n: "h y = Some n" by (auto split: option.splits)
  from assms have "distinct xs" by (rule dll_distinct)
  then have y: "y \<notin> set ys" using Cons by simp
  show ?thesis
    using dll_set_prev [of h b "Some y" y ys None n r] y assms n Cons by (simp add: relink_prev_def)
qed (simp add: relink_prev_def)

lemma relink_next_other: "c \<noteq> Some a \<Longrightarrow> relink_next c r h a = h a"
  by (auto simp: relink_next_def split: option.splits)

lemma relink_prev_other: "c \<noteq> Some a \<Longrightarrow> relink_prev c r h a = h a"
  by (auto simp: relink_prev_def split: option.splits)

lemma dll_unlink:
  assumes "dll nx pv h None p (xs @ a # ys) None"
  shows "dll nx pv (relink_prev (first_ptr ys None) (last_ptr None xs)
           (relink_next (last_ptr None xs) (first_ptr ys None) h))
         None (first_ptr (xs @ ys) None) (xs @ ys) None"
proof -
  let ?h1 = "relink_next (last_ptr None xs) (first_ptr ys None) h"
  let ?h2 = "relink_prev (first_ptr ys None) (last_ptr None xs) ?h1"
  from assms have dist: "distinct (xs @ a # ys)" by (rule dll_distinct)
  from assms obtain n where n: "h a = Some n" "nx n = first_ptr ys None" by (rule dll_node)
  with assms have seg: "dll nx pv h None p xs (Some a)"
      "dll nx pv h (Some a) (first_ptr ys None) ys None"
    by (auto simp: dll_append)
  have xs: "dll nx pv ?h2 None (first_ptr xs (first_ptr ys None)) xs (first_ptr ys None)"
  proof -
    have "dll nx pv ?h1 None (first_ptr xs (first_ptr ys None)) xs (first_ptr ys None)"
      using relink_next_segment [OF seg(1)] dist by simp
    moreover have "?h2 c = ?h1 c" if "c \<in> set xs" for c
      using that dist by (intro relink_prev_other) (cases ys, auto)
    ultimately show ?thesis
      using dll_cong [of xs nx pv ?h2 ?h1] by simp
  qed
  have ys: "dll nx pv ?h2 (last_ptr None xs) (first_ptr ys None) ys None"
  proof (rule relink_prev_segment)
    have "?h1 c = h c" if "c \<in> set ys" for c
      using that dist by (intro relink_next_other) (cases xs rule: rev_exhaust, auto)
    then show "dll nx pv ?h1 (Some a) (first_ptr ys None) ys None"
      using seg(2) dll_cong [of ys nx pv ?h1 h] by simp
  qed
  from xs ys show ?thesis by (simp add: dll_append first_ptr_append)
qed

end

end
