(* ===== verification/UserfsState.thy ===== *)
theory UserfsState
  imports Links
begin

section \<open>The file system: data and stores\<close>

text \<open>
  The data of \<open>homework-03/userfs.c\<close> and \<open>userfs.h\<close>: the open flags and error
  codes, the structures block, file and filedesc, and the global variables as one record.
  Each kind of heap object has its own store from addresses to live objects; \<open>free\<close>
  removes an object, so a later access through a stale pointer is undefined (\<open>None\<close>).
  The character buffers \<open>block->memory\<close> and \<open>file->name\<close> are allocated with their
  owner, freed with it and never shared, so they are fields of the owner. As the
  assignment allows (\<open>homework-03/README.md\<close>), \<open>malloc\<close> does not fail; it returns an
  address that was never used before, so a freed object cannot be confused with a new one.
\<close>

subsection \<open>Constants\<close>

definition BLOCK_SIZE :: nat where "BLOCK_SIZE = 512"

definition MAX_FILE_SIZE :: nat where "MAX_FILE_SIZE = 1024 * 1024 * 100"

definition UFS_CREATE :: "32 word" where "UFS_CREATE = 1"

definition UFS_READ_ONLY :: "32 word" where "UFS_READ_ONLY = 2"

definition UFS_WRITE_ONLY :: "32 word" where "UFS_WRITE_ONLY = 4"

definition UFS_READ_WRITE :: "32 word" where "UFS_READ_WRITE = 8"

datatype ufs_error_code =
    UFS_ERR_NO_ERR
  | UFS_ERR_NO_FILE
  | UFS_ERR_NO_MEM
  | UFS_ERR_NOT_IMPLEMENTED
  | UFS_ERR_NO_PERMISSION

definition has_flag :: "32 word \<Rightarrow> 32 word \<Rightarrow> bool" where
  "has_flag flags f \<longleftrightarrow> flags AND f \<noteq> 0"

subsection \<open>Structures\<close>

record block =
  memory :: "cell list"
  occupied :: "int option"
  next_block :: ptr
  prev_block :: ptr

record ufile =
  first_block :: ptr
  last_block :: ptr
  refs :: int
  is_ghost :: bool
  file_size :: nat
  name :: string
  next_file :: ptr
  prev_file :: ptr

record filedesc =
  desc_file :: addr
  open_flags :: "32 word"
  offset :: nat

record ufs =
  ufs_error_code :: ufs_error_code
  blocks :: "addr \<rightharpoonup> block"
  files :: "addr \<rightharpoonup> ufile"
  descs :: "addr \<rightharpoonup> filedesc"
  fresh_addr :: addr
  file_list :: ptr
  file_descriptors :: "ptr list option"
  file_descriptor_used :: int
  file_descriptor_capacity :: int

text \<open>The globals as the program starts.\<close>

definition ufs_start :: ufs where
  "ufs_start = \<lparr>ufs_error_code = UFS_ERR_NO_ERR, blocks = Map.empty, files = Map.empty,
     descs = Map.empty, fresh_addr = 0, file_list = None, file_descriptors = None,
     file_descriptor_used = 0, file_descriptor_capacity = 0\<rparr>"

definition ufs_errno :: "ufs \<Rightarrow> ufs_error_code" where
  "ufs_errno s = ufs_error_code s"

subsection \<open>Memory primitives\<close>

definition upd_block :: "addr \<Rightarrow> (block \<Rightarrow> block) \<Rightarrow> ufs \<Rightarrow> ufs option" where
  "upd_block a g s = do { b \<leftarrow> blocks s a; Some (s\<lparr>blocks := (blocks s)(a \<mapsto> g b)\<rparr>) }"

definition upd_file :: "addr \<Rightarrow> (ufile \<Rightarrow> ufile) \<Rightarrow> ufs \<Rightarrow> ufs option" where
  "upd_file a g s = do { f \<leftarrow> files s a; Some (s\<lparr>files := (files s)(a \<mapsto> g f)\<rparr>) }"

definition upd_desc :: "addr \<Rightarrow> (filedesc \<Rightarrow> filedesc) \<Rightarrow> ufs \<Rightarrow> ufs option" where
  "upd_desc a g s = do { d \<leftarrow> descs s a; Some (s\<lparr>descs := (descs s)(a \<mapsto> g d)\<rparr>) }"

definition malloc_block :: "block \<Rightarrow> ufs \<Rightarrow> addr \<times> ufs" where
  "malloc_block b s = (fresh_addr s,
     s\<lparr>blocks := (blocks s)(fresh_addr s \<mapsto> b), fresh_addr := Suc (fresh_addr s)\<rparr>)"

definition malloc_file :: "ufile \<Rightarrow> ufs \<Rightarrow> addr \<times> ufs" where
  "malloc_file f s = (fresh_addr s,
     s\<lparr>files := (files s)(fresh_addr s \<mapsto> f), fresh_addr := Suc (fresh_addr s)\<rparr>)"

definition malloc_desc :: "filedesc \<Rightarrow> ufs \<Rightarrow> addr \<times> ufs" where
  "malloc_desc d s = (fresh_addr s,
     s\<lparr>descs := (descs s)(fresh_addr s \<mapsto> d), fresh_addr := Suc (fresh_addr s)\<rparr>)"

definition free_block :: "addr \<Rightarrow> ufs \<Rightarrow> ufs option" where
  "free_block a s = do { _ \<leftarrow> blocks s a; Some (s\<lparr>blocks := (blocks s)(a := None)\<rparr>) }"

definition free_file :: "addr \<Rightarrow> ufs \<Rightarrow> ufs option" where
  "free_file a s = do { _ \<leftarrow> files s a; Some (s\<lparr>files := (files s)(a := None)\<rparr>) }"

definition free_desc :: "addr \<Rightarrow> ufs \<Rightarrow> ufs option" where
  "free_desc a s = do { _ \<leftarrow> descs s a; Some (s\<lparr>descs := (descs s)(a := None)\<rparr>) }"

text \<open>The elements \<open>file_descriptors[i]\<close>, read and written; outside the array: undefined.\<close>

definition fd_slot :: "ufs \<Rightarrow> nat \<Rightarrow> ptr option" where
  "fd_slot s i = do { t \<leftarrow> file_descriptors s; if i < length t then Some (t ! i) else None }"

definition set_fd_slot :: "nat \<Rightarrow> ptr \<Rightarrow> ufs \<Rightarrow> ufs option" where
  "set_fd_slot i p s = do {
     t \<leftarrow> file_descriptors s;
     if i < length t then Some (s\<lparr>file_descriptors := Some (t[i := p])\<rparr>) else None }"

definition fail_with :: "ufs_error_code \<Rightarrow> ufs \<Rightarrow> (int \<times> ufs) option" where
  "fail_with e s = Some (-1, s\<lparr>ufs_error_code := e\<rparr>)"

text \<open>
  The descriptor lookup that opens \<open>ufs_write\<close>, \<open>ufs_read\<close>, \<open>ufs_close\<close> and
  \<open>ufs_resize\<close>: \<open>fd - 1\<close> must not overflow; \<open>Some None\<close> is the branch that reports
  \<open>UFS_ERR_NO_FILE\<close>; otherwise the index and the descriptor it holds.
\<close>

definition find_desc :: "int \<Rightarrow> ufs \<Rightarrow> (nat \<times> addr) option option" where
  "find_desc fd s = do {
     desc_idx \<leftarrow> c_int (fd - 1);
     if desc_idx < 0 \<or> desc_idx \<ge> file_descriptor_capacity s then Some None
     else do {
       desc \<leftarrow> fd_slot s (nat desc_idx);
       case desc of None \<Rightarrow> Some None | Some d \<Rightarrow> Some (Some (nat desc_idx, d)) } }"

subsection \<open>Nodes of the two lists\<close>

abbreviation set_next_block :: "ptr \<Rightarrow> block \<Rightarrow> block" where
  "set_next_block p b \<equiv> b\<lparr>next_block := p\<rparr>"

abbreviation set_prev_block :: "ptr \<Rightarrow> block \<Rightarrow> block" where
  "set_prev_block p b \<equiv> b\<lparr>prev_block := p\<rparr>"

abbreviation set_next_file :: "ptr \<Rightarrow> ufile \<Rightarrow> ufile" where
  "set_next_file p f \<equiv> f\<lparr>next_file := p\<rparr>"

abbreviation set_prev_file :: "ptr \<Rightarrow> ufile \<Rightarrow> ufile" where
  "set_prev_file p f \<equiv> f\<lparr>prev_file := p\<rparr>"

interpretation bl: dlinks next_block set_next_block prev_block set_prev_block
  by unfold_locales simp_all

interpretation fl: dlinks next_file set_next_file prev_file set_prev_file
  by unfold_locales simp_all

lemma upd_block_Some [ub_simps]:
  "blocks s a = Some b \<Longrightarrow> upd_block a g s = Some (s\<lparr>blocks := (blocks s)(a \<mapsto> g b)\<rparr>)"
  by (simp add: upd_block_def)

lemma upd_file_Some [ub_simps]:
  "files s a = Some f \<Longrightarrow> upd_file a g s = Some (s\<lparr>files := (files s)(a \<mapsto> g f)\<rparr>)"
  by (simp add: upd_file_def)

lemma upd_desc_Some [ub_simps]:
  "descs s a = Some d \<Longrightarrow> upd_desc a g s = Some (s\<lparr>descs := (descs s)(a \<mapsto> g d)\<rparr>)"
  by (simp add: upd_desc_def)

lemma free_block_Some [ub_simps]:
  "blocks s a = Some b \<Longrightarrow> free_block a s = Some (s\<lparr>blocks := (blocks s)(a := None)\<rparr>)"
  by (simp add: free_block_def)

lemma free_file_Some [ub_simps]:
  "files s a = Some f \<Longrightarrow> free_file a s = Some (s\<lparr>files := (files s)(a := None)\<rparr>)"
  by (simp add: free_file_def)

lemma free_desc_Some [ub_simps]:
  "descs s a = Some d \<Longrightarrow> free_desc a s = Some (s\<lparr>descs := (descs s)(a := None)\<rparr>)"
  by (simp add: free_desc_def)

end
