(* ===== verification/UserfsOps.thy ===== *)
theory UserfsOps
  imports UserfsState
begin

section \<open>The file system: operations\<close>

text \<open>
  The functions of \<open>homework-03/userfs.c\<close>, statement by statement. Every operation
  returns its C result together with the new state, or \<open>None\<close> where the C code has
  undefined behaviour, fails an assertion or loops for ever; that this does not happen is
  proved in \<open>UserfsInvariant\<close> and the theories after it. Loops over pointers are
  \<open>partial_function\<close>s, so their termination is part of those proofs.
\<close>

subsection \<open>Unlinking and freeing a file\<close>

definition ufs_unlink_file :: "addr \<Rightarrow> ufs \<Rightarrow> ufs option" where
  "ufs_unlink_file file s = do {
     f \<leftarrow> files s file;
     s \<leftarrow> (case prev_file f of None \<Rightarrow> Some s
           | Some p \<Rightarrow> upd_file p (\<lambda>g. g\<lparr>next_file := next_file f\<rparr>) s);
     f \<leftarrow> files s file;
     s \<leftarrow> (case next_file f of None \<Rightarrow> Some s
           | Some n \<Rightarrow> upd_file n (\<lambda>g. g\<lparr>prev_file := prev_file f\<rparr>) s);
     f \<leftarrow> files s file;
     Some (if file_list s = Some file then s\<lparr>file_list := next_file f\<rparr> else s) }"

partial_function (option) free_blocks :: "ptr \<Rightarrow> ufs \<Rightarrow> ufs option" where
  [code]: "free_blocks block s =
     (case block of None \<Rightarrow> Some s
      | Some b \<Rightarrow> do {
          blk \<leftarrow> blocks s b;
          s \<leftarrow> free_block b s;
          free_blocks (next_block blk) s })"

definition ufs_free_file :: "addr \<Rightarrow> ufs \<Rightarrow> ufs option" where
  "ufs_free_file file s = do {
     f \<leftarrow> files s file;
     s \<leftarrow> free_blocks (first_block f) s;
     free_file file s }"

subsection \<open>Opening\<close>

text \<open>The search for a file by name, shared by \<open>ufs_open\<close> and \<open>ufs_delete\<close>.\<close>

partial_function (option) find_file :: "string \<Rightarrow> ptr \<Rightarrow> ufs \<Rightarrow> ptr option" where
  [code]: "find_file filename file s =
     (case file of None \<Rightarrow> Some None
      | Some a \<Rightarrow> do {
          f \<leftarrow> files s a;
          if \<not> is_ghost f \<and> name f = filename then Some (Some a)
          else find_file filename (next_file f) s })"

definition new_file :: "string \<Rightarrow> ufile" where
  "new_file filename = \<lparr>first_block = None, last_block = None, refs = 0, is_ghost = False,
     file_size = 0, name = filename, next_file = None, prev_file = None\<rparr>"

definition create_file :: "string \<Rightarrow> ufs \<Rightarrow> (addr \<times> ufs) option" where
  "create_file filename s = do {
     let (file, s) = malloc_file (new_file filename) s;
     (case file_list s of
        None \<Rightarrow> do {
          s \<leftarrow> upd_file file (\<lambda>f. f\<lparr>next_file := None, prev_file := None\<rparr>) s;
          Some (file, s\<lparr>file_list := Some file\<rparr>) }
      | Some head \<Rightarrow> do {
          s \<leftarrow> upd_file file (\<lambda>f. f\<lparr>next_file := Some head, prev_file := None\<rparr>) s;
          s \<leftarrow> upd_file head (\<lambda>g. g\<lparr>prev_file := Some file\<rparr>) s;
          Some (file, s\<lparr>file_list := Some file\<rparr>) }) }"

definition init_descriptors :: "ufs \<Rightarrow> ufs" where
  "init_descriptors s =
     (if file_descriptor_capacity s \<le> 0
      then s\<lparr>file_descriptors := Some (replicate 10 None),
             file_descriptor_capacity := 10, file_descriptor_used := 0\<rparr>
      else s)"

text \<open>
  The scan for a free slot: \<open>Some None\<close> when no slot of the range is NULL (\<open>idx\<close> stays
  \<open>-1\<close>), \<open>None\<close> when the scan leaves the array.
\<close>

primrec find_slot :: "nat list \<Rightarrow> ufs \<Rightarrow> nat option option" where
  "find_slot [] s = Some None"
| "find_slot (i # is) s = do {
     p \<leftarrow> fd_slot s i;
     if p = None then Some (Some i) else find_slot is s }"

text \<open>
  The array grows to twice its size. The byte count is computed in \<open>int\<close> and the array
  is reallocated with its old elements kept; the new elements are set to NULL.
\<close>

definition grow_descriptors :: "ufs \<Rightarrow> ufs option" where
  "grow_descriptors s = do {
     cap2 \<leftarrow> c_int (file_descriptor_capacity s * 2);
     t \<leftarrow> file_descriptors s;
     Some (s\<lparr>file_descriptors := Some (t @ replicate (nat cap2 - length t) None),
            file_descriptor_capacity := cap2\<rparr>) }"

definition pick_slot :: "ufs \<Rightarrow> (nat option \<times> ufs) option" where
  "pick_slot s =
     (if file_descriptor_used s < file_descriptor_capacity s
      then do {
        idx \<leftarrow> find_slot [0..<nat (file_descriptor_capacity s)] s;
        Some (idx, s) }
      else do {
        s \<leftarrow> grow_descriptors s;
        Some (Some (nat (file_descriptor_used s)), s) })"

definition open_in_slot :: "nat \<Rightarrow> 32 word \<Rightarrow> addr \<Rightarrow> ufs \<Rightarrow> (int \<times> ufs) option" where
  "open_in_slot idx flags file s = do {
     let (d, s) = malloc_desc \<lparr>desc_file = file, open_flags = flags, offset = 0\<rparr> s;
     s \<leftarrow> set_fd_slot idx (Some d) s;
     used \<leftarrow> c_int (file_descriptor_used s + 1);
     let s = s\<lparr>file_descriptor_used := used\<rparr>;
     f \<leftarrow> files s file;
     r \<leftarrow> c_int (refs f + 1);
     s \<leftarrow> upd_file file (\<lambda>f. f\<lparr>refs := r\<rparr>) s;
     fd \<leftarrow> c_int (int idx + 1);
     Some (fd, s) }"

definition default_flags :: "32 word \<Rightarrow> 32 word" where
  "default_flags flags =
     (if \<not> has_flag flags UFS_READ_ONLY \<and> \<not> has_flag flags UFS_WRITE_ONLY
      then flags OR UFS_READ_WRITE else flags)"

definition open_file :: "addr \<Rightarrow> 32 word \<Rightarrow> ufs \<Rightarrow> (int \<times> ufs) option" where
  "open_file file flags s = do {
     (idx, s) \<leftarrow> pick_slot (init_descriptors s);
     (case idx of
        None \<Rightarrow> fail_with UFS_ERR_NOT_IMPLEMENTED s
      | Some i \<Rightarrow> open_in_slot i flags file s) }"

definition ufs_open :: "string \<Rightarrow> 32 word \<Rightarrow> ufs \<Rightarrow> (int \<times> ufs) option" where
  "ufs_open filename flags s = do {
     let flags = default_flags flags;
     found \<leftarrow> find_file filename (file_list s) s;
     (case found of
        Some file \<Rightarrow> open_file file flags s
      | None \<Rightarrow>
          if \<not> has_flag flags UFS_CREATE then fail_with UFS_ERR_NO_FILE s
          else do {
            (file, s) \<leftarrow> create_file filename s;
            open_file file flags s }) }"

subsection \<open>Writing\<close>

definition new_block :: "cell list \<Rightarrow> int option \<Rightarrow> block" where
  "new_block mem occ = \<lparr>memory = mem, occupied = occ, next_block = None, prev_block = None\<rparr>"

text \<open>The new block of \<open>ufs_write\<close>: 512 indeterminate bytes, appended to the file's list.\<close>

definition append_block :: "addr \<Rightarrow> ufs \<Rightarrow> (addr \<times> ufs) option" where
  "append_block file s = do {
     let (block, s) = malloc_block (new_block (replicate BLOCK_SIZE None) (Some 0)) s;
     f \<leftarrow> files s file;
     (case last_block f of
        None \<Rightarrow>
          if first_block f \<noteq> None then None
          else do {
            s \<leftarrow> upd_file file (\<lambda>f. f\<lparr>first_block := Some block, last_block := Some block\<rparr>) s;
            s \<leftarrow> upd_block block (\<lambda>b. b\<lparr>prev_block := None, next_block := None\<rparr>) s;
            Some (block, s) }
      | Some l \<Rightarrow> do {
          s \<leftarrow> upd_block block (\<lambda>b. b\<lparr>prev_block := Some l, next_block := None\<rparr>) s;
          s \<leftarrow> upd_block l (\<lambda>b. b\<lparr>next_block := Some block\<rparr>) s;
          s \<leftarrow> upd_file file (\<lambda>f. f\<lparr>last_block := Some block\<rparr>) s;
          Some (block, s) }) }"

definition block_for_write :: "addr \<Rightarrow> ptr \<Rightarrow> ufs \<Rightarrow> (addr \<times> ufs) option" where
  "block_for_write file block s =
     (case block of
        None \<Rightarrow> append_block file s
      | Some b \<Rightarrow> do {
          blk \<leftarrow> blocks s b;
          occ \<leftarrow> occupied blk;
          if occ = int BLOCK_SIZE then append_block file s else Some (b, s) })"

text \<open>One pass through the body of the write loop: the block it used and the bytes written.\<close>

definition write_chunk ::
  "addr \<Rightarrow> byte list \<Rightarrow> nat \<Rightarrow> ptr \<Rightarrow> nat \<Rightarrow> ufs \<Rightarrow> (addr \<times> nat \<times> ufs) option" where
  "write_chunk desc buf sz block bytes_written s = do {
     d \<leftarrow> descs s desc;
     let write_from = offset d mod BLOCK_SIZE;
     (block, s) \<leftarrow> block_for_write (desc_file d) block s;
     let bytes_to_write = min (sz - bytes_written) (BLOCK_SIZE - write_from);
     blk \<leftarrow> blocks s block;
     src \<leftarrow> mem_read buf bytes_written bytes_to_write;
     mem \<leftarrow> mem_write (memory blk) write_from (map Some src);
     occ \<leftarrow> occupied blk;
     s \<leftarrow> upd_block block (\<lambda>b. b\<lparr>memory := mem,
            occupied := Some (if int (write_from + bytes_to_write) > occ
                              then int (write_from + bytes_to_write) else occ)\<rparr>) s;
     s \<leftarrow> upd_desc desc (\<lambda>d. d\<lparr>offset := offset d + bytes_to_write\<rparr>) s;
     Some (block, bytes_written + bytes_to_write, s) }"

partial_function (option) write_loop ::
  "addr \<Rightarrow> byte list \<Rightarrow> nat \<Rightarrow> ptr \<Rightarrow> nat \<Rightarrow> ufs \<Rightarrow> (nat \<times> ufs) option" where
  [code]: "write_loop desc buf sz block bytes_written s =
     (if bytes_written < sz
      then do {
        (b, n, s) \<leftarrow> write_chunk desc buf sz block bytes_written s;
        write_loop desc buf sz (Some b) n s }
      else Some (bytes_written, s))"

text \<open>
  The walk to the block that holds the offset. In \<open>ufs_write\<close> a missing block is
  dereferenced; in \<open>ufs_read\<close> it ends the call.
\<close>

primrec seek_block :: "nat \<Rightarrow> ptr \<Rightarrow> ufs \<Rightarrow> ptr option" where
  "seek_block 0 block s = Some block"
| "seek_block (Suc i) block s =
     (case block of None \<Rightarrow> None
      | Some b \<Rightarrow> do { blk \<leftarrow> blocks s b; seek_block i (next_block blk) s })"

definition ufs_write :: "int \<Rightarrow> byte list \<Rightarrow> nat \<Rightarrow> ufs \<Rightarrow> (int \<times> ufs) option" where
  "ufs_write fd buf sz s = do {
     found \<leftarrow> find_desc fd s;
     (case found of
        None \<Rightarrow> fail_with UFS_ERR_NO_FILE s
      | Some (i, desc) \<Rightarrow> do {
          d \<leftarrow> descs s desc;
          if \<not> has_flag (open_flags d) UFS_WRITE_ONLY \<and> \<not> has_flag (open_flags d) UFS_READ_WRITE
          then fail_with UFS_ERR_NO_PERMISSION s
          else if sz = 0 then Some (0, s)
          else do {
            f \<leftarrow> files s (desc_file d);
            if size_add (file_size f) sz > MAX_FILE_SIZE then fail_with UFS_ERR_NO_MEM s
            else do {
              block \<leftarrow> seek_block (offset d div BLOCK_SIZE) (first_block f) s;
              (bytes_written, s) \<leftarrow> write_loop desc buf sz block 0 s;
              d \<leftarrow> descs s desc;
              f \<leftarrow> files s (desc_file d);
              s \<leftarrow> (if offset d > file_size f
                    then upd_file (desc_file d) (\<lambda>f. f\<lparr>file_size := offset d\<rparr>) s
                    else Some s);
              Some (cast_ssize bytes_written, s) } } }) }"

subsection \<open>Reading\<close>

primrec seek_block_read :: "nat \<Rightarrow> ptr \<Rightarrow> ufs \<Rightarrow> ptr option option" where
  "seek_block_read 0 block s = Some (Some block)"
| "seek_block_read (Suc i) block s =
     (case block of None \<Rightarrow> Some None
      | Some b \<Rightarrow> do { blk \<leftarrow> blocks s b; seek_block_read i (next_block blk) s })"

text \<open>
  The read loop; \<open>out\<close> is what has been copied to the caller's buffer so far, so
  \<open>read_count\<close> is its length. A negative \<open>block_offset\<close> would be an access before the
  block's memory.
\<close>

partial_function (option) read_loop ::
  "addr \<Rightarrow> nat \<Rightarrow> ptr \<Rightarrow> cell list \<Rightarrow> ufs \<Rightarrow> (cell list \<times> ufs) option" where
  [code]: "read_loop desc sz block out s =
     (case block of
        None \<Rightarrow> Some (out, s)
      | Some b \<Rightarrow>
          if \<not> int (length out) < cast_ssize sz then Some (out, s)
          else do {
            d \<leftarrow> descs s desc;
            blk \<leftarrow> blocks s b;
            occ \<leftarrow> occupied blk;
            let block_offset = cast_int (offset d) smod int BLOCK_SIZE;
            (if block_offset - occ \<ge> 0 then Some (out, s)
             else if block_offset < 0 then None
             else do {
               let bytes_to_copy = min (nat (occ - block_offset)) (sz - length out);
               cs \<leftarrow> mem_read (memory blk) (nat block_offset) bytes_to_copy;
               s \<leftarrow> upd_desc desc (\<lambda>d. d\<lparr>offset := offset d + bytes_to_copy\<rparr>) s;
               read_loop desc sz (next_block blk) (out @ cs) s }) })"

definition ufs_read :: "int \<Rightarrow> nat \<Rightarrow> ufs \<Rightarrow> (int \<times> cell list \<times> ufs) option" where
  "ufs_read fd sz s = do {
     found \<leftarrow> find_desc fd s;
     (case found of
        None \<Rightarrow> Some (-1, [], s\<lparr>ufs_error_code := UFS_ERR_NO_FILE\<rparr>)
      | Some (i, desc) \<Rightarrow> do {
          d \<leftarrow> descs s desc;
          if \<not> has_flag (open_flags d) UFS_READ_ONLY \<and> \<not> has_flag (open_flags d) UFS_READ_WRITE
          then Some (-1, [], s\<lparr>ufs_error_code := UFS_ERR_NO_PERMISSION\<rparr>)
          else do {
            f \<leftarrow> files s (desc_file d);
            found_block \<leftarrow> seek_block_read (offset d div BLOCK_SIZE) (first_block f) s;
            (case found_block of
               None \<Rightarrow> Some (0, [], s)
             | Some block \<Rightarrow>
                 if offset d \<ge> file_size f then Some (0, [], s)
                 else do {
                   (out, s) \<leftarrow> read_loop desc sz block [] s;
                   Some (int (length out), out, s) }) } }) }"

subsection \<open>Closing and deleting\<close>

definition ufs_close :: "int \<Rightarrow> ufs \<Rightarrow> (int \<times> ufs) option" where
  "ufs_close fd s = do {
     found \<leftarrow> find_desc fd s;
     (case found of
        None \<Rightarrow> fail_with UFS_ERR_NO_FILE s
      | Some (desc_idx, desc) \<Rightarrow> do {
          d \<leftarrow> descs s desc;
          f \<leftarrow> files s (desc_file d);
          r \<leftarrow> c_int (refs f - 1);
          s \<leftarrow> upd_file (desc_file d) (\<lambda>f. f\<lparr>refs := r\<rparr>) s;
          s \<leftarrow> (if r \<le> 0 \<and> is_ghost f
                then do { s \<leftarrow> ufs_unlink_file (desc_file d) s; ufs_free_file (desc_file d) s }
                else Some s);
          s \<leftarrow> free_desc desc s;
          s \<leftarrow> set_fd_slot desc_idx None s;
          used \<leftarrow> c_int (file_descriptor_used s - 1);
          Some (0, s\<lparr>file_descriptor_used := used\<rparr>) }) }"

definition ufs_delete :: "string \<Rightarrow> ufs \<Rightarrow> (int \<times> ufs) option" where
  "ufs_delete filename s = do {
     found \<leftarrow> find_file filename (file_list s) s;
     (case found of
        None \<Rightarrow> fail_with UFS_ERR_NO_FILE s
      | Some file \<Rightarrow> do {
          f \<leftarrow> files s file;
          s \<leftarrow> (if refs f \<le> 0
                then do { s \<leftarrow> ufs_unlink_file file s; ufs_free_file file s }
                else upd_file file (\<lambda>f. f\<lparr>is_ghost := True\<rparr>) s);
          Some (0, s) }) }"

subsection \<open>Resizing\<close>

definition block_count :: "nat \<Rightarrow> nat" where
  "block_count n = size_add n (BLOCK_SIZE - 1) div BLOCK_SIZE"

definition last_occupied :: "nat \<Rightarrow> int" where
  "last_occupied new_size =
     (let k = cast_int (new_size mod BLOCK_SIZE) in if k = 0 then int BLOCK_SIZE else k)"

text \<open>The loop that frees blocks from the end: how many, from which block on.\<close>

primrec cut_blocks :: "nat \<Rightarrow> ptr \<Rightarrow> ufs \<Rightarrow> (ptr \<times> ufs) option" where
  "cut_blocks 0 block s = Some (block, s)"
| "cut_blocks (Suc i) block s =
     (case block of None \<Rightarrow> None
      | Some b \<Rightarrow> do {
          blk \<leftarrow> blocks s b;
          s \<leftarrow> (case prev_block blk of None \<Rightarrow> Some s
                | Some p \<Rightarrow> upd_block p (\<lambda>c. c\<lparr>next_block := None\<rparr>) s);
          s \<leftarrow> free_block b s;
          cut_blocks i (prev_block blk) s })"

text \<open>The loop over the descriptors that moves offsets behind the new end back to it.\<close>

definition clamp_desc :: "addr \<Rightarrow> nat \<Rightarrow> nat \<Rightarrow> ufs \<Rightarrow> ufs option" where
  "clamp_desc desc new_size i s = do {
     p \<leftarrow> fd_slot s i;
     (case p of None \<Rightarrow> Some s
      | Some e \<Rightarrow> do {
          ed \<leftarrow> descs s e;
          d \<leftarrow> descs s desc;
          if desc_file ed = desc_file d \<and> offset ed > new_size
          then upd_desc e (\<lambda>d. d\<lparr>offset := new_size\<rparr>) s
          else Some s }) }"

text \<open>One new, zeroed block at the end; its \<open>occupied\<close> is not set yet.\<close>

definition grow_block :: "addr \<Rightarrow> ufs \<Rightarrow> ufs option" where
  "grow_block file s = do {
     let (block, s) = malloc_block (new_block (replicate BLOCK_SIZE (Some 0)) None) s;
     f \<leftarrow> files s file;
     s \<leftarrow> upd_block block (\<lambda>b. b\<lparr>next_block := None, prev_block := last_block f\<rparr>) s;
     s \<leftarrow> (case last_block f of None \<Rightarrow> Some s
           | Some l \<Rightarrow>
               upd_block l (\<lambda>b. b\<lparr>next_block := Some block, occupied := Some (int BLOCK_SIZE)\<rparr>) s);
     s \<leftarrow> upd_file file (\<lambda>f. f\<lparr>last_block := Some block\<rparr>) s;
     (if first_block f = None
      then upd_file file (\<lambda>f. f\<lparr>first_block := Some block\<rparr>) s
      else Some s) }"

definition shrink_file :: "addr \<Rightarrow> nat \<Rightarrow> ufs \<Rightarrow> (int \<times> ufs) option" where
  "shrink_file desc new_size s = do {
     d \<leftarrow> descs s desc;
     f \<leftarrow> files s (desc_file d);
     let new_block_count = block_count new_size;
     let old_block_count = block_count (file_size f);
     (block, s) \<leftarrow> cut_blocks (old_block_count - new_block_count) (last_block f) s;
     s \<leftarrow> (case block of
             None \<Rightarrow>
               if new_size \<noteq> 0 \<or> new_block_count \<noteq> 0 then None
               else upd_file (desc_file d)
                      (\<lambda>f. f\<lparr>first_block := None, last_block := None, file_size := 0\<rparr>) s
           | Some b \<Rightarrow> do {
               s \<leftarrow> upd_block b (\<lambda>c. c\<lparr>occupied := Some (last_occupied new_size)\<rparr>) s;
               upd_file (desc_file d) (\<lambda>f. f\<lparr>last_block := Some b, file_size := new_size\<rparr>) s });
     s \<leftarrow> for_each [0..<nat (file_descriptor_capacity s)] (clamp_desc desc new_size) s;
     Some (0, s) }"

definition extend_file :: "addr \<Rightarrow> nat \<Rightarrow> ufs \<Rightarrow> (int \<times> ufs) option" where
  "extend_file file new_size s =
     (if new_size > MAX_FILE_SIZE then fail_with UFS_ERR_NO_MEM s
      else do {
        f \<leftarrow> files s file;
        let new_block_count = block_count new_size;
        let old_block_count = block_count (file_size f);
        s \<leftarrow> for_each [0..<new_block_count - old_block_count] (\<lambda>i. grow_block file) s;
        f \<leftarrow> files s file;
        (case last_block f of
           None \<Rightarrow> None
         | Some l \<Rightarrow> do {
             s \<leftarrow> upd_block l (\<lambda>b. b\<lparr>occupied := Some (last_occupied new_size)\<rparr>) s;
             s \<leftarrow> upd_file file (\<lambda>f. f\<lparr>file_size := new_size\<rparr>) s;
             Some (0, s) }) })"

definition ufs_resize :: "int \<Rightarrow> nat \<Rightarrow> ufs \<Rightarrow> (int \<times> ufs) option" where
  "ufs_resize fd new_size s = do {
     found \<leftarrow> find_desc fd s;
     (case found of
        None \<Rightarrow> fail_with UFS_ERR_NO_FILE s
      | Some (i, desc) \<Rightarrow> do {
          d \<leftarrow> descs s desc;
          f \<leftarrow> files s (desc_file d);
          if new_size = file_size f then Some (0, s)
          else if new_size < file_size f then shrink_file desc new_size s
          else if new_size > file_size f then extend_file (desc_file d) new_size s
          else fail_with UFS_ERR_NOT_IMPLEMENTED s }) }"

subsection \<open>Destroying\<close>

definition destroy_desc :: "nat \<Rightarrow> ufs \<Rightarrow> ufs option" where
  "destroy_desc i s = do {
     p \<leftarrow> fd_slot s i;
     (case p of None \<Rightarrow> Some s | Some d \<Rightarrow> free_desc d s) }"

partial_function (option) destroy_files :: "ptr \<Rightarrow> ufs \<Rightarrow> ufs option" where
  [code]: "destroy_files file s =
     (case file of None \<Rightarrow> Some s
      | Some a \<Rightarrow> do {
          f \<leftarrow> files s a;
          s \<leftarrow> ufs_free_file a s;
          destroy_files (next_file f) s })"

definition ufs_destroy :: "ufs \<Rightarrow> ufs option" where
  "ufs_destroy s = do {
     s \<leftarrow> (if file_descriptor_capacity s > 0 \<or> file_descriptors s \<noteq> None
           then do {
             s \<leftarrow> for_each [0..<nat (file_descriptor_capacity s)] destroy_desc s;
             Some (s\<lparr>file_descriptors := None\<rparr>) }
           else Some s);
     let s = s\<lparr>file_descriptor_capacity := 0, file_descriptor_used := 0\<rparr>;
     s \<leftarrow> destroy_files (file_list s) s;
     Some (s\<lparr>file_list := None\<rparr>) }"

end
