(* ===== verification/UserfsInvariant.thy ===== *)
theory UserfsInvariant
  imports UserfsOps
begin

section \<open>The file system: representation invariant\<close>

text \<open>
  What holds between any two calls of the file system. The invariant names the ghost data
  the pointers represent: the addresses \<open>fl\<close> of the files in list order and, for each
  file, the addresses \<open>bm a\<close> of its blocks in order. It is split into one definition per
  concern, each over the stores it speaks about, so that an operation only has to reprove
  the parts it touches:

  \<^item> \<open>files_rel\<close>: the global list holds exactly the live files;
  \<^item> \<open>blocks_rel\<close>: every file's block list is well linked, \<open>last_block\<close> is its last
    node, no block belongs to two files, and every live block belongs to a file (nothing
    leaks); \<open>blocks_ok\<close>: a block has 512 bytes and says how many of them are used;
  \<^item> \<open>table_rel\<close>: the descriptor array has \<open>file_descriptor_capacity\<close> slots, its
    non-NULL slots are exactly the live descriptors, each once, and
    \<open>file_descriptor_used\<close> counts them;
  \<^item> \<open>descs_rel\<close>: a descriptor refers to a live file and its offset lies within the
    file's blocks;
  \<^item> \<open>refs_rel\<close>: \<open>refs\<close> counts the descriptors of the file; \<open>ghosts_rel\<close>: a ghost has one;
  \<^item> \<open>sizes_rel\<close>: the blocks are enough for the size;
  \<^item> \<open>names_rel\<close>: two files that are not ghosts have different names.
\<close>

definition files_rel :: "addr list \<Rightarrow> (addr \<rightharpoonup> ufile) \<Rightarrow> ptr \<Rightarrow> bool" where
  "files_rel fl fs head \<longleftrightarrow> dll next_file prev_file fs None head fl None \<and> dom fs = set fl"

definition block_ok :: "block \<Rightarrow> bool" where
  "block_ok b \<longleftrightarrow> length (memory b) = BLOCK_SIZE \<and>
     (\<exists>k. occupied b = Some k \<and> 0 \<le> k \<and> k \<le> int BLOCK_SIZE)"

definition block_list :: "(addr \<rightharpoonup> block) \<Rightarrow> ufile \<Rightarrow> addr list \<Rightarrow> bool" where
  "block_list bs f as \<longleftrightarrow>
     dll next_block prev_block bs None (first_block f) as None \<and> last_block f = last_ptr None as"

definition blocks_rel ::
  "(addr \<Rightarrow> addr list) \<Rightarrow> (addr \<rightharpoonup> ufile) \<Rightarrow> (addr \<rightharpoonup> block) \<Rightarrow> bool" where
  "blocks_rel bm fs bs \<longleftrightarrow>
     (\<forall>a f. fs a = Some f \<longrightarrow> block_list bs f (bm a)) \<and>
     (\<forall>a c. a \<in> dom fs \<longrightarrow> c \<in> dom fs \<longrightarrow> a \<noteq> c \<longrightarrow> set (bm a) \<inter> set (bm c) = {}) \<and>
     dom bs = (\<Union>a \<in> dom fs. set (bm a))"

definition blocks_ok :: "(addr \<rightharpoonup> block) \<Rightarrow> bool" where
  "blocks_ok bs \<longleftrightarrow> (\<forall>b \<in> ran bs. block_ok b)"

definition desc_table :: "ufs \<Rightarrow> ptr list" where
  "desc_table s = (case file_descriptors s of None \<Rightarrow> [] | Some t \<Rightarrow> t)"

definition slots :: "ptr list \<Rightarrow> addr list" where
  "slots t = map the (filter (\<lambda>p. p \<noteq> None) t)"

definition table_rel :: "ufs \<Rightarrow> bool" where
  "table_rel s \<longleftrightarrow>
     file_descriptor_capacity s = int (length (desc_table s)) \<and>
     length (desc_table s) < 2 ^ 31 \<and>
     (file_descriptors s = None \<longleftrightarrow> desc_table s = []) \<and>
     distinct (slots (desc_table s)) \<and>
     set (slots (desc_table s)) = dom (descs s) \<and>
     file_descriptor_used s = int (length (slots (desc_table s)))"

definition descs_rel ::
  "(addr \<Rightarrow> addr list) \<Rightarrow> (addr \<rightharpoonup> ufile) \<Rightarrow> (addr \<rightharpoonup> filedesc) \<Rightarrow> bool" where
  "descs_rel bm fs ds \<longleftrightarrow> (\<forall>d x. ds d = Some x \<longrightarrow>
     desc_file x \<in> dom fs \<and> offset x \<le> BLOCK_SIZE * length (bm (desc_file x)))"

definition openers :: "(addr \<rightharpoonup> filedesc) \<Rightarrow> addr \<Rightarrow> addr set" where
  "openers ds a = {d. \<exists>x. ds d = Some x \<and> desc_file x = a}"

definition refs_rel :: "(addr \<rightharpoonup> ufile) \<Rightarrow> (addr \<rightharpoonup> filedesc) \<Rightarrow> bool" where
  "refs_rel fs ds \<longleftrightarrow> (\<forall>a f. fs a = Some f \<longrightarrow> refs f = int (card (openers ds a)))"

definition ghosts_rel :: "(addr \<rightharpoonup> ufile) \<Rightarrow> (addr \<rightharpoonup> filedesc) \<Rightarrow> bool" where
  "ghosts_rel fs ds \<longleftrightarrow> (\<forall>a f. fs a = Some f \<longrightarrow> is_ghost f \<longrightarrow> openers ds a \<noteq> {})"

definition sizes_rel :: "(addr \<Rightarrow> addr list) \<Rightarrow> (addr \<rightharpoonup> ufile) \<Rightarrow> bool" where
  "sizes_rel bm fs \<longleftrightarrow> (\<forall>a f. fs a = Some f \<longrightarrow> file_size f \<le> BLOCK_SIZE * length (bm a))"

definition names_rel :: "(addr \<rightharpoonup> ufile) \<Rightarrow> bool" where
  "names_rel fs \<longleftrightarrow> (\<forall>a f. fs a = Some f \<longrightarrow> (\<forall>c g. fs c = Some g \<longrightarrow>
     \<not> is_ghost f \<longrightarrow> \<not> is_ghost g \<longrightarrow> name f = name g \<longrightarrow> a = c))"

definition fresh_rel :: "ufs \<Rightarrow> bool" where
  "fresh_rel s \<longleftrightarrow> (\<forall>a \<in> dom (files s) \<union> dom (blocks s) \<union> dom (descs s). a < fresh_addr s)"

definition core_rel :: "addr list \<Rightarrow> (addr \<Rightarrow> addr list) \<Rightarrow> ufs \<Rightarrow> bool" where
  "core_rel fl bm s \<longleftrightarrow>
     files_rel fl (files s) (file_list s) \<and>
     blocks_rel bm (files s) (blocks s) \<and>
     table_rel s \<and>
     descs_rel bm (files s) (descs s) \<and>
     refs_rel (files s) (descs s) \<and>
     sizes_rel bm (files s) \<and>
     names_rel (files s) \<and>
     fresh_rel s"

definition ufs_rel :: "addr list \<Rightarrow> (addr \<Rightarrow> addr list) \<Rightarrow> ufs \<Rightarrow> bool" where
  "ufs_rel fl bm s \<longleftrightarrow> core_rel fl bm s \<and> ghosts_rel (files s) (descs s) \<and> blocks_ok (blocks s)"

definition ufs_inv :: "ufs \<Rightarrow> bool" where
  "ufs_inv s \<longleftrightarrow> (\<exists>fl bm. ufs_rel fl bm s)"

lemma ufs_invI: "ufs_rel fl bm s \<Longrightarrow> ufs_inv s"
  by (auto simp: ufs_inv_def)

text \<open>The parts of the invariant, as facts about a state that satisfies it.\<close>

lemma core_relD:
  assumes "core_rel fl bm s"
  shows "files_rel fl (files s) (file_list s)" "blocks_rel bm (files s) (blocks s)"
    "table_rel s" "descs_rel bm (files s) (descs s)" "refs_rel (files s) (descs s)"
    "sizes_rel bm (files s)" "names_rel (files s)" "fresh_rel s"
  using assms by (simp_all add: core_rel_def)

lemma ufs_rel_coreD: "ufs_rel fl bm s \<Longrightarrow> core_rel fl bm s"
  by (simp add: ufs_rel_def)

lemmas ufs_relD = core_relD [OF ufs_rel_coreD]

lemma ufs_rel_ghostsD: "ufs_rel fl bm s \<Longrightarrow> ghosts_rel (files s) (descs s)"
  and ufs_rel_okD: "ufs_rel fl bm s \<Longrightarrow> blocks_ok (blocks s)"
  by (simp_all add: ufs_rel_def)

lemma blocks_relD:
  assumes "blocks_rel bm fs bs"
  shows "fs a = Some f \<Longrightarrow> block_list bs f (bm a)"
    "a \<in> dom fs \<Longrightarrow> c \<in> dom fs \<Longrightarrow> a \<noteq> c \<Longrightarrow> set (bm a) \<inter> set (bm c) = {}"
    "dom bs = (\<Union>a \<in> dom fs. set (bm a))"
  using assms by (simp_all add: blocks_rel_def)

lemma refs_relD: "refs_rel fs ds \<Longrightarrow> fs a = Some f \<Longrightarrow> refs f = int (card (openers ds a))"
  by (simp add: refs_rel_def)

text \<open>
  The errno is in no part, so setting it keeps the invariant.
\<close>

lemma ufs_rel_errno [simp]: "ufs_rel fl bm (s\<lparr>ufs_error_code := e\<rparr>) \<longleftrightarrow> ufs_rel fl bm s"
  by (simp add: ufs_rel_def core_rel_def table_rel_def fresh_rel_def desc_table_def)

lemma ufs_inv_errno [simp]: "ufs_inv (s\<lparr>ufs_error_code := e\<rparr>) \<longleftrightarrow> ufs_inv s"
  by (simp add: ufs_inv_def)

lemma ufs_rel_start: "ufs_rel [] bm ufs_start"
  by (simp add: ufs_rel_def core_rel_def ghosts_rel_def blocks_ok_def ufs_start_def files_rel_def blocks_rel_def table_rel_def
      descs_rel_def refs_rel_def sizes_rel_def names_rel_def fresh_rel_def desc_table_def
      slots_def)

subsection \<open>Congruence: the list fields matter to the first part only\<close>

text \<open>
  \<open>strip\<close> forgets how the files are linked. Every part of the invariant but
  \<open>files_rel\<close> depends on the stripped store only, so it survives any relinking.
\<close>

definition strip :: "(addr \<rightharpoonup> ufile) \<Rightarrow> (addr \<rightharpoonup> ufile)" where
  "strip fs = (\<lambda>a. map_option (\<lambda>f. f\<lparr>next_file := None, prev_file := None\<rparr>) (fs a))"

lemma strip_Some: "strip fs a = Some g \<longleftrightarrow>
    (\<exists>f. fs a = Some f \<and> g = f\<lparr>next_file := None, prev_file := None\<rparr>)"
  by (auto simp: strip_def)

lemma dom_strip [simp]: "dom (strip fs) = dom fs"
  by (auto simp: dom_def strip_def)

lemma strip_upd: "strip (fs(a \<mapsto> f)) = (strip fs)(a \<mapsto> f\<lparr>next_file := None, prev_file := None\<rparr>)"
  by (rule ext) (simp add: strip_def)

lemma strip_upd_None: "strip (fs(a := None)) = (strip fs)(a := None)"
  by (rule ext) (simp add: strip_def)

lemma strip_relink [simp]:
  "strip (fl.relink_next c r fs) = strip fs" "strip (fl.relink_prev c r fs) = strip fs"
  by (auto simp: fun_eq_iff strip_def fl.relink_next_def fl.relink_prev_def split: option.splits)

lemma strip_eq_dom: "strip fs = strip gs \<Longrightarrow> dom fs = dom gs"
  by (metis dom_strip)

lemma strip_eq_SomeE:
  assumes "strip fs = strip gs" and "fs a = Some f"
  obtains n p where "gs a = Some (f\<lparr>next_file := n, prev_file := p\<rparr>)"
proof -
  from assms have "strip gs a = Some (f\<lparr>next_file := None, prev_file := None\<rparr>)"
    by (metis strip_Some)
  then obtain g where g: "gs a = Some g"
      "f\<lparr>next_file := None, prev_file := None\<rparr> = g\<lparr>next_file := None, prev_file := None\<rparr>"
    by (auto simp: strip_Some)
  then have "g = f\<lparr>next_file := next_file g, prev_file := prev_file g\<rparr>"
    by (cases f; cases g) simp
  with g(1) that show thesis by metis
qed

lemma strip_all: "(\<forall>a g. strip fs a = Some g \<longrightarrow> P a g) \<longleftrightarrow>
    (\<forall>a f. fs a = Some f \<longrightarrow> P a (f\<lparr>next_file := None, prev_file := None\<rparr>))"
  unfolding strip_Some by blast

lemma blocks_rel_strip: "blocks_rel bm (strip fs) bs \<longleftrightarrow> blocks_rel bm fs bs"
  by (simp add: blocks_rel_def block_list_def strip_all)

lemma descs_rel_strip: "descs_rel bm (strip fs) ds \<longleftrightarrow> descs_rel bm fs ds"
  by (simp add: descs_rel_def)

lemma refs_rel_strip: "refs_rel (strip fs) ds \<longleftrightarrow> refs_rel fs ds"
  by (simp add: refs_rel_def strip_all)

lemma ghosts_rel_strip: "ghosts_rel (strip fs) ds \<longleftrightarrow> ghosts_rel fs ds"
  by (simp add: ghosts_rel_def strip_all)

lemma sizes_rel_strip: "sizes_rel bm (strip fs) \<longleftrightarrow> sizes_rel bm fs"
  by (simp add: sizes_rel_def strip_all)

lemma names_rel_strip: "names_rel (strip fs) \<longleftrightarrow> names_rel fs"
  by (simp add: names_rel_def strip_all)

text \<open>A state with the same stripped files, and the rest as it was, satisfies the rest.\<close>

lemma blocks_rel_eq: "strip fs = strip gs \<Longrightarrow> blocks_rel bm fs bs \<longleftrightarrow> blocks_rel bm gs bs"
  by (metis blocks_rel_strip)

lemma refs_rel_eq: "strip fs = strip gs \<Longrightarrow> refs_rel fs ds \<longleftrightarrow> refs_rel gs ds"
  by (metis refs_rel_strip)

lemma ghosts_rel_eq: "strip fs = strip gs \<Longrightarrow> ghosts_rel fs ds \<longleftrightarrow> ghosts_rel gs ds"
  by (metis ghosts_rel_strip)

lemma sizes_rel_eq: "strip fs = strip gs \<Longrightarrow> sizes_rel bm fs \<longleftrightarrow> sizes_rel bm gs"
  by (metis sizes_rel_strip)

lemma names_rel_eq: "strip fs = strip gs \<Longrightarrow> names_rel fs \<longleftrightarrow> names_rel gs"
  by (metis names_rel_strip)

lemma descs_rel_eq: "strip fs = strip gs \<Longrightarrow> descs_rel bm fs ds \<longleftrightarrow> descs_rel bm gs ds"
  by (metis descs_rel_strip)

end
