(* ===== verification/UserfsNames.thy ===== *)
theory UserfsNames
  imports UserfsInvariant
begin

section \<open>The file system: names, descriptors, opening\<close>

text \<open>
  The search by name, the creation of a file, the choice of a descriptor slot, and
  \<open>ufs_open\<close> built from them: each step is computed on a state that satisfies the
  invariant, and shown to keep it.
\<close>

subsection \<open>Search by name\<close>

definition visible :: "(addr \<rightharpoonup> ufile) \<Rightarrow> string \<Rightarrow> addr \<Rightarrow> bool" where
  "visible fs nm a \<longleftrightarrow> (case fs a of None \<Rightarrow> False | Some f \<Rightarrow> \<not> is_ghost f \<and> name f = nm)"

lemma find_file_chain:
  "sll next_file (files s) p as None \<Longrightarrow>
   find_file nm p s = Some (List.find (visible (files s) nm) as)"
proof (induction as arbitrary: p)
  case Nil
  then show ?case by (simp add: find_file.simps)
next
  case (Cons a as)
  then obtain f where f: "files s a = Some f" "sll next_file (files s) (next_file f) as None"
      "p = Some a"
    by (auto split: option.splits)
  with Cons.IH show ?case
    by (simp add: find_file.simps [of nm "Some a"] visible_def)
qed

text \<open>Under the invariant, the search finds the visible file of that name if there is one.\<close>

lemma find_file_inv:
  assumes "ufs_rel fl bm s"
  obtains (found) a f where "find_file nm (file_list s) s = Some (Some a)"
      "files s a = Some f" "\<not> is_ghost f" "name f = nm"
  | (absent) "find_file nm (file_list s) s = Some None"
      "\<And>a f. files s a = Some f \<Longrightarrow> \<not> is_ghost f \<Longrightarrow> name f \<noteq> nm"
proof -
  from assms have "sll next_file (files s) (file_list s) fl None" and dom: "dom (files s) = set fl"
    by (auto simp: ufs_rel_def core_rel_def files_rel_def dest: dll_sll)
  then have eq: "find_file nm (file_list s) s = Some (List.find (visible (files s) nm) fl)"
    by (simp add: find_file_chain)
  show thesis
  proof (cases "List.find (visible (files s) nm) fl")
    case None
    with eq dom show thesis
      by (intro absent) (fastforce simp: find_None_iff visible_def)+
  next
    case (Some a)
    then have "visible (files s) nm a" by (auto simp: find_Some_iff)
    then obtain f where "files s a = Some f" "\<not> is_ghost f" "name f = nm"
      by (auto simp: visible_def split: option.splits)
    with eq Some show thesis by (intro found [of a f]) simp_all
  qed
qed

subsection \<open>Creating a file\<close>

lemma fresh_not_live:
  assumes "fresh_rel s"
  shows "files s (fresh_addr s) = None" "blocks s (fresh_addr s) = None"
    "descs s (fresh_addr s) = None"
  using assms by (force simp: fresh_rel_def dom_def)+

lemma no_openers_of_dead: "descs_rel bm fs ds \<Longrightarrow> fs a = None \<Longrightarrow> openers ds a = {}"
  by (force simp: descs_rel_def openers_def dom_def)

lemma UN_upd_new:
  "a \<notin> A \<Longrightarrow> (\<Union>x \<in> insert a A. set ((bm(a := xs)) x)) = set xs \<union> (\<Union>x \<in> A. set (bm x))"
  by (auto split: if_splits)

definition created :: "string \<Rightarrow> ufs \<Rightarrow> ufs \<Rightarrow> bool" where
  "created nm s t \<longleftrightarrow>
     strip (files t) = (strip (files s))(fresh_addr s \<mapsto> new_file nm) \<and>
     blocks t = blocks s \<and> descs t = descs s \<and> fresh_addr t = Suc (fresh_addr s) \<and>
     file_descriptors t = file_descriptors s \<and>
     file_descriptor_used t = file_descriptor_used s \<and>
     file_descriptor_capacity t = file_descriptor_capacity s \<and>
     ufs_error_code t = ufs_error_code s"

lemma new_file_stripped [simp]:
  "(new_file nm)\<lparr>next_file := None, prev_file := None\<rparr> = new_file nm"
  by (simp add: new_file_def)

lemma create_file_links:
  assumes "files_rel fl (files s) (file_list s)" and "fresh_rel s"
  shows "\<exists>t. create_file nm s = Some (fresh_addr s, t) \<and> created nm s t \<and>
    files_rel (fresh_addr s # fl) (files t) (file_list t)"
proof (cases fl)
  case Nil
  with assms have "file_list s = None" "files s = Map.empty"
    by (simp_all add: files_rel_def)
  with Nil assms(1) show ?thesis
    by (auto simp: create_file_def malloc_file_def upd_file_def created_def strip_upd
        new_file_def files_rel_def)
next
  case (Cons x xs)
  let ?a = "fresh_addr s"
  from assms Cons obtain g where g: "files s x = Some g" "file_list s = Some x"
    by (auto simp: files_rel_def split: option.splits)
  have a: "?a \<notin> set fl" using assms fresh_not_live(1) [OF assms(2)]
    by (auto simp: files_rel_def)
  then have ax: "?a \<noteq> x" using Cons by auto
  let ?n = "(new_file nm)\<lparr>next_file := Some x, prev_file := None\<rparr>"
  let ?fs = "(files s)(?a \<mapsto> ?n, x \<mapsto> g\<lparr>prev_file := Some ?a\<rparr>)"
  have eq: "create_file nm s = Some (?a,
      s\<lparr>files := ?fs, fresh_addr := Suc ?a, file_list := Some ?a\<rparr>)"
    using g ax by (auto simp: create_file_def malloc_file_def upd_file_def fun_upd_twist)
  have "dll next_file prev_file ?fs None (Some ?a) (?a # x # xs) None"
    using fl.dll_prepend [of "files s" x xs ?a g ?n] assms(1) a g Cons
    by (simp add: files_rel_def)
  moreover have "dom ?fs = set (?a # fl)"
    using assms(1) Cons by (auto simp: files_rel_def)
  moreover have "strip ?fs = (strip (files s))(?a \<mapsto> new_file nm)"
    using g ax by (auto simp: fun_eq_iff strip_def new_file_def)
  ultimately show ?thesis
    using Cons eq by (simp add: created_def files_rel_def del: dll.simps)
qed

lemma created_rel:
  assumes rel: "ufs_rel fl bm s" and cr: "created nm s t"
    and fr: "files_rel (fresh_addr s # fl) (files t) (file_list t)"
    and absent: "\<And>a f. files s a = Some f \<Longrightarrow> \<not> is_ghost f \<Longrightarrow> name f \<noteq> nm"
  shows "ufs_rel (fresh_addr s # fl) (bm(fresh_addr s := [])) t"
proof -
  let ?a = "fresh_addr s" and ?gs = "(files s)(fresh_addr s \<mapsto> new_file nm)"
  note [simp] = fresh_not_live [OF ufs_relD(8) [OF rel]]
  have strip: "strip (files t) = strip ?gs" using cr by (simp add: created_def strip_upd)
  have dead: "openers (descs s) ?a = {}"
    using no_openers_of_dead [OF ufs_relD(4) [OF rel]] by simp
  have nd: "?a \<notin> dom (files s)" by (simp add: domIff)
  have "blocks_rel (bm(?a := [])) ?gs (blocks s)"
    unfolding blocks_rel_def
  proof (intro conjI)
    show "dom (blocks s) = (\<Union>a \<in> dom ?gs. set ((bm(?a := [])) a))"
      using ufs_relD(2) [OF rel] UN_upd_new [OF nd, of bm "[]"] by (simp add: blocks_rel_def)
  qed (use ufs_relD(2) [OF rel] in \<open>auto simp: blocks_rel_def block_list_def new_file_def\<close>)
  moreover have "desc_file x \<noteq> ?a" if "descs s d = Some x" for d x
    using ufs_relD(4) [OF rel] nd that by (metis descs_rel_def)
  then have "descs_rel (bm(?a := [])) ?gs (descs s)"
    using ufs_relD(4) [OF rel] by (simp add: descs_rel_def)
  moreover have "refs_rel ?gs (descs s)"
    using ufs_relD(5) [OF rel] dead by (simp add: refs_rel_def new_file_def)
  moreover have "ghosts_rel ?gs (descs s)"
    using ufs_rel_ghostsD [OF rel] by (simp add: ghosts_rel_def new_file_def)
  moreover have "sizes_rel (bm(?a := [])) ?gs"
    using ufs_relD(6) [OF rel] by (simp add: sizes_rel_def new_file_def)
  moreover have "names_rel ?gs"
    using ufs_relD(7) [OF rel] absent
    by (simp add: names_rel_def new_file_def) metis
  moreover have "table_rel t"
    using ufs_relD(3) [OF rel] cr by (simp add: table_rel_def desc_table_def created_def)
  moreover have "fresh_rel t"
    using ufs_relD(8) [OF rel] cr strip_eq_dom [OF strip]
    by (auto simp: fresh_rel_def created_def less_Suc_eq)
  ultimately show ?thesis
    using fr cr ufs_rel_okD [OF rel] by (simp add: ufs_rel_def core_rel_def created_def ghosts_rel_eq [OF strip] blocks_rel_eq [OF strip]
        descs_rel_eq [OF strip] refs_rel_eq [OF strip] sizes_rel_eq [OF strip]
        names_rel_eq [OF strip])
qed

subsection \<open>Choosing a slot\<close>

lemma slots_append [simp]: "slots (xs @ ys) = slots xs @ slots ys"
  by (simp add: slots_def)

lemma slots_Cons [simp]: "slots (p # t) = (case p of None \<Rightarrow> slots t | Some d \<Rightarrow> d # slots t)"
  by (simp add: slots_def split: option.splits)

lemma slots_Nil [simp]: "slots [] = []"
  by (simp add: slots_def)

lemma slots_replicate [simp]: "slots (replicate n None) = []"
  by (simp add: slots_def)

lemma length_slots: "length (slots t) \<le> length t"
  by (simp add: slots_def)

lemma set_slots: "set (slots t) = {d. Some d \<in> set t}"
  by (force simp: slots_def)

lemma full_table: "length (slots t) = length t \<Longrightarrow> i < length t \<Longrightarrow> t ! i \<noteq> None"
  by (metis (mono_tags, lifting) length_filter_less length_map less_irrefl nth_mem slots_def)

lemma slots_update_split:
  assumes "i < length t"
  obtains xs ys where "t = xs @ t ! i # ys" "length xs = i" "\<And>p. t[i := p] = xs @ p # ys"
  using id_take_nth_drop [OF assms] assms that
  by (metis length_take min.absorb4 upd_conv_take_nth_drop)

lemma find_slot_eq:
  "file_descriptors s = Some t \<Longrightarrow> (\<And>i. i \<in> set is \<Longrightarrow> i < length t) \<Longrightarrow>
   find_slot is s = Some (List.find (\<lambda>i. t ! i = None) is)"
  by (induction "is") (auto simp: fd_slot_def)

definition room :: "ufs \<Rightarrow> bool" where
  "room s \<longleftrightarrow> file_descriptor_capacity s < 2 ^ 30"

text \<open>What \<open>pick_slot\<close> may change: the array, and the slot it returns is NULL.\<close>

lemma init_descriptors_table:
  assumes "table_rel s"
  shows "\<exists>k. init_descriptors s = s\<lparr>file_descriptors := Some (desc_table s @ replicate k None),
      file_descriptor_capacity := int (length (desc_table s) + k)\<rparr>
    \<and> 0 < length (desc_table s) + k \<and> (k = 0 \<or> desc_table s = [] \<and> k = 10)"
proof (cases "file_descriptors s")
  case None
  with assms show ?thesis
    by (intro exI [of _ 10]) (auto simp: table_rel_def init_descriptors_def desc_table_def)
next
  case (Some t)
  with assms show ?thesis
    by (intro exI [of _ 0]) (auto simp: table_rel_def init_descriptors_def desc_table_def)
qed

lemma pick_slot_table:
  assumes "table_rel s" and "file_descriptors s = Some t" and "t \<noteq> []"
    and "length t < 2 ^ 30"
  shows "\<exists>i k. pick_slot s = Some (Some i, s\<lparr>file_descriptors := Some (t @ replicate k None),
      file_descriptor_capacity := int (length t + k)\<rparr>)
    \<and> i < length t + k \<and> (t @ replicate k None) ! i = None
    \<and> (\<forall>j < i. (t @ replicate k None) ! j \<noteq> None) \<and> k \<le> length t"
proof (cases "file_descriptor_used s < file_descriptor_capacity s")
  case True
  from assms have cap: "file_descriptor_capacity s = int (length t)"
    and used: "file_descriptor_used s = int (length (slots t))"
    by (simp_all add: table_rel_def desc_table_def)
  have find: "find_slot [0..<length t] s = Some (List.find (\<lambda>i. t ! i = None) [0..<length t])"
    using assms(2) by (intro find_slot_eq) auto
  obtain i where i: "List.find (\<lambda>i. t ! i = None) [0..<length t] = Some i"
  proof (cases "List.find (\<lambda>i. t ! i = None) [0..<length t]")
    case None
    then have "\<forall>p \<in> set t. p \<noteq> None" by (auto simp: find_None_iff in_set_conv_nth)
    then have "slots t = map the t" by (simp add: slots_def)
    with True cap used show ?thesis by simp
  qed
  then have "i < length t" "t ! i = None" "\<forall>j < i. t ! j \<noteq> None"
    by (auto simp: find_Some_iff)
  with True find i cap assms(2) show ?thesis
    by (intro exI [of _ i] exI [of _ 0]) (auto simp: pick_slot_def)
next
  case False
  from assms have cap: "file_descriptor_capacity s = int (length t)"
    and used: "file_descriptor_used s = int (length (slots t))"
    by (simp_all add: table_rel_def desc_table_def)
  from False cap used length_slots [of t] have eq: "length (slots t) = length t" by simp
  from assms(4) cap have "c_int (file_descriptor_capacity s * 2) = Some (int (length t * 2))"
    by (simp add: c_int_def in_int_def int_min_def int_max_def)
  then have "pick_slot s = Some (Some (length t),
      s\<lparr>file_descriptors := Some (t @ replicate (length t) None),
        file_descriptor_capacity := int (length t + length t)\<rparr>)"
    using False used eq assms(2) by (simp add: pick_slot_def grow_descriptors_def)
  with assms(3) full_table [OF eq] show ?thesis
    by (intro exI [of _ "length t"]) (simp add: nth_append)
qed

subsection \<open>Updating one file or one descriptor\<close>

lemma files_rel_upd:
  assumes "files_rel fl fs h" "fs a = Some f" "next_file g = next_file f" "prev_file g = prev_file f"
  shows "files_rel fl (fs(a \<mapsto> g)) h"
  using assms dll_upd_data [of fs a f next_file g prev_file None h fl None]
  by (auto simp: files_rel_def)

lemma dom_upd_live [simp]: "fs a = Some f \<Longrightarrow> insert a (dom fs) = dom fs"
  by auto

lemma blocks_rel_upd:
  assumes "blocks_rel bm fs bs" "fs a = Some f" "first_block g = first_block f"
    "last_block g = last_block f"
  shows "blocks_rel bm (fs(a \<mapsto> g)) bs"
  using assms by (simp add: blocks_rel_def block_list_def del: fun_upd_apply) simp

lemma descs_rel_upd: "descs_rel bm fs ds \<Longrightarrow> fs a = Some f \<Longrightarrow> descs_rel bm (fs(a \<mapsto> g)) ds"
  by (simp add: descs_rel_def)

lemma sizes_rel_upd:
  "sizes_rel bm fs \<Longrightarrow> fs a = Some f \<Longrightarrow> file_size g = file_size f \<Longrightarrow> sizes_rel bm (fs(a \<mapsto> g))"
  by (simp add: sizes_rel_def)

lemma names_rel_upd:
  "names_rel fs \<Longrightarrow> fs a = Some f \<Longrightarrow> name g = name f \<Longrightarrow> (is_ghost f \<longrightarrow> is_ghost g) \<Longrightarrow>
   names_rel (fs(a \<mapsto> g))"
  by (simp add: names_rel_def) metis

lemma openers_new:
  "ds d = None \<Longrightarrow> openers (ds(d \<mapsto> x)) c =
    (if desc_file x = c then insert d (openers ds c) else openers ds c)"
  by (auto simp: openers_def)

lemma descs_finite: "table_rel s \<Longrightarrow> finite (dom (descs s))"
  by (metis List.finite_set table_rel_def)

lemma openers_finite: "table_rel s \<Longrightarrow> finite (openers (descs s) a)"
  by (rule finite_subset [OF _ descs_finite]) (auto simp: openers_def)

lemma openers_le_used:
  assumes "table_rel s" shows "int (card (openers (descs s) a)) \<le> file_descriptor_used s"
proof -
  have "card (openers (descs s) a) \<le> card (set (slots (desc_table s)))"
    using assms descs_finite [OF assms] by (intro card_mono) (auto simp: openers_def table_rel_def)
  also have "\<dots> = length (slots (desc_table s))"
    using assms distinct_card [of "slots (desc_table s)"] by (simp add: table_rel_def)
  finally show ?thesis using assms by (simp add: table_rel_def)
qed

subsection \<open>Opening in a slot\<close>

definition opened :: "nat \<Rightarrow> 32 word \<Rightarrow> addr \<Rightarrow> ufile \<Rightarrow> ufs \<Rightarrow> ufs" where
  "opened i flags a f s =
     s\<lparr>descs := (descs s)(fresh_addr s \<mapsto> \<lparr>desc_file = a, open_flags = flags, offset = 0\<rparr>),
       fresh_addr := Suc (fresh_addr s),
       file_descriptors := Some ((desc_table s)[i := Some (fresh_addr s)]),
       file_descriptor_used := file_descriptor_used s + 1,
       files := (files s)(a \<mapsto> f\<lparr>refs := refs f + 1\<rparr>)\<rparr>"

lemma open_in_slot_eq:
  assumes rel: "ufs_rel fl bm s" and t: "file_descriptors s = Some t" and i: "i < length t"
    and f: "files s a = Some f" and small: "length t < 2 ^ 31 - 1"
  shows "open_in_slot i flags a s = Some (int i + 1, opened i flags a f s)"
proof -
  from ufs_relD(3) [OF rel] t have used: "file_descriptor_used s = int (length (slots t))"
    by (simp add: table_rel_def desc_table_def)
  have le: "length (slots t) \<le> length t" by (rule length_slots)
  from ufs_relD(5) [OF rel] f have "refs f = int (card (openers (descs s) a))"
    by (simp add: refs_rel_def)
  with openers_le_used [OF ufs_relD(3) [OF rel]] have "0 \<le> refs f" "refs f \<le> file_descriptor_used s"
    by simp_all
  with used le small i have "c_int (file_descriptor_used s + 1) = Some (file_descriptor_used s + 1)"
    "c_int (refs f + 1) = Some (refs f + 1)" "c_int (int i + 1) = Some (int i + 1)"
    by (simp_all add: c_int_def in_int_def int_min_def int_max_def)
  with t i f show ?thesis
    by (simp add: open_in_slot_def malloc_desc_def set_fd_slot_def upd_file_def opened_def
        desc_table_def)
qed

lemma opened_rel:
  assumes rel: "ufs_rel fl bm s" and t: "file_descriptors s = Some t"
    and i: "i < length t" "t ! i = None" and f: "files s a = Some f"
  shows "ufs_rel fl bm (opened i flags a f s)"
proof -
  let ?d = "fresh_addr s" and ?s = "opened i flags a f s"
  note fresh = fresh_not_live [OF ufs_relD(8) [OF rel]]
  have "files_rel fl (files ?s) (file_list ?s)"
    using files_rel_upd [OF ufs_relD(1) [OF rel] f] by (simp add: opened_def)
  moreover have "blocks_rel bm (files ?s) (blocks ?s)"
    using blocks_rel_upd [OF ufs_relD(2) [OF rel] f] by (simp add: opened_def)
  moreover have "table_rel ?s"
  proof -
    obtain xs ys where "t = xs @ t ! i # ys" "\<And>p. t[i := p] = xs @ p # ys"
      using slots_update_split [OF i(1)] by metis
    with i(2) have "t = xs @ None # ys" "t[i := Some ?d] = xs @ Some ?d # ys" by simp_all
    with ufs_relD(3) [OF rel] t fresh(3) show ?thesis
      by (auto simp: table_rel_def opened_def desc_table_def)
  qed
  moreover have "descs_rel bm (files ?s) (descs ?s)"
    using ufs_relD(4) [OF rel] f by (auto simp: opened_def descs_rel_def)
  moreover have "refs_rel (files ?s) (descs ?s)"
  proof -
    have "?d \<notin> openers (descs s) a" using fresh(3) by (auto simp: openers_def)
    then have "card (insert ?d (openers (descs s) a)) = Suc (card (openers (descs s) a))"
      using openers_finite [OF ufs_relD(3) [OF rel]] by simp
    with ufs_relD(5) [OF rel] f fresh(3) show ?thesis
      by (auto simp: refs_rel_def opened_def openers_new)
  qed
  moreover have "blocks_ok (blocks ?s)"
    using ufs_rel_okD [OF rel] by (simp add: opened_def)
  moreover have "ghosts_rel (files ?s) (descs ?s)"
    using ufs_rel_ghostsD [OF rel] f fresh(3) by (auto simp: ghosts_rel_def opened_def openers_new)
  moreover have "sizes_rel bm (files ?s)"
    using sizes_rel_upd [OF ufs_relD(6) [OF rel] f] by (simp add: opened_def)
  moreover have "names_rel (files ?s)"
    using names_rel_upd [OF ufs_relD(7) [OF rel] f] by (simp add: opened_def)
  moreover have "fresh_rel ?s"
    using ufs_relD(8) [OF rel] f by (auto simp: fresh_rel_def opened_def less_Suc_eq)
  ultimately show ?thesis by (simp add: ufs_rel_def core_rel_def)
qed

subsection \<open>The descriptor table as a map from numbers\<close>

definition fd_lookup :: "ufs \<Rightarrow> int \<Rightarrow> filedesc option" where
  "fd_lookup s fd =
     (if 1 \<le> fd \<and> fd \<le> int (length (desc_table s))
      then (case desc_table s ! nat (fd - 1) of None \<Rightarrow> None | Some d \<Rightarrow> descs s d)
      else None)"

lemma fd_lookup_cong:
  "desc_table t = desc_table s \<Longrightarrow> descs t = descs s \<Longrightarrow> fd_lookup t = fd_lookup s"
  by (auto simp: fd_lookup_def fun_eq_iff split: option.split)

lemma positive_fd:
  assumes "1 \<le> fd" and "fd < int n + 1"
  obtains j where "fd = int j + 1" and "j < n"
  using assms that [of "nat (fd - 1)"] by auto

lemma slot_live:
  "table_rel s \<Longrightarrow> i < length (desc_table s) \<Longrightarrow> desc_table s ! i = Some d \<Longrightarrow> \<exists>x. descs s d = Some x"
  by (metis (mono_tags, lifting) domD mem_Collect_eq nth_mem set_slots table_rel_def)

lemma fd_lookup_free:
  assumes "table_rel s" and "i < length (desc_table s)"
  shows "fd_lookup s (int i + 1) = None \<longleftrightarrow> desc_table s ! i = None"
  using assms slot_live [OF assms] by (auto simp: fd_lookup_def split: option.splits)

text \<open>The table padded with NULL slots, as \<open>pick_slot\<close> leaves it, means the same.\<close>

definition padded :: "ptr list \<Rightarrow> nat \<Rightarrow> ufs \<Rightarrow> ufs" where
  "padded t k s = s\<lparr>file_descriptors := Some (t @ replicate k None),
     file_descriptor_capacity := int (length t + k)\<rparr>"

lemma desc_table_padded [simp]: "desc_table (padded t k s) = t @ replicate k None"
  by (simp add: padded_def desc_table_def)

lemma padded_simps [simp]:
  "files (padded t k s) = files s" "blocks (padded t k s) = blocks s"
  "descs (padded t k s) = descs s" "fresh_addr (padded t k s) = fresh_addr s"
  "file_list (padded t k s) = file_list s"
  "file_descriptor_used (padded t k s) = file_descriptor_used s"
  "ufs_error_code (padded t k s) = ufs_error_code s"
  "file_descriptors (padded t k s) = Some (t @ replicate k None)"
  "file_descriptor_capacity (padded t k s) = int (length t + k)"
  by (simp_all add: padded_def)

lemma table_rel_padded:
  "table_rel s \<Longrightarrow> desc_table s = t \<Longrightarrow> 0 < length t + k \<Longrightarrow> length t + k < 2 ^ 31 \<Longrightarrow>
   table_rel (padded t k s)"
  by (auto simp: table_rel_def)

lemma ufs_rel_padded:
  "ufs_rel fl bm s \<Longrightarrow> desc_table s = t \<Longrightarrow> 0 < length t + k \<Longrightarrow> length t + k < 2 ^ 31 \<Longrightarrow>
   ufs_rel fl bm (padded t k s)"
  by (simp add: ufs_rel_def core_rel_def table_rel_padded fresh_rel_def)

lemma fd_lookup_padded: "desc_table s = t \<Longrightarrow> fd_lookup (padded t k s) = fd_lookup s"
  by (auto simp: fd_lookup_def fun_eq_iff nth_append split: option.splits)

lemma padded_padded: "padded (t @ replicate j None) k (padded t j s) = padded t (j + k) s"
  by (simp add: padded_def replicate_add)

lemma pick_slot_rel:
  assumes rel: "ufs_rel fl bm s" and room: "room s"
  obtains i k where
    "pick_slot (init_descriptors s) = Some (Some i, padded (desc_table s) k s)"
    "i < length (desc_table s) + k" "(desc_table s @ replicate k None) ! i = None"
    "\<And>j. j < i \<Longrightarrow> (desc_table s @ replicate k None) ! j \<noteq> None"
    "length (desc_table s) + k < 2 ^ 31 - 1"
proof -
  let ?t = "desc_table s"
  obtain k where k: "init_descriptors s = padded ?t k s" "0 < length ?t + k"
      "k = 0 \<or> ?t = [] \<and> k = 10"
    using init_descriptors_table [OF ufs_relD(3) [OF rel]] by (auto simp: padded_def)
  let ?u = "?t @ replicate k None"
  have "length ?t < 2 ^ 30"
    using room ufs_relD(3) [OF rel] by (simp add: room_def table_rel_def)
  with k(3) have small: "length ?u < 2 ^ 30" by auto
  have "table_rel (padded ?t k s)"
    using k(2) small by (intro table_rel_padded ufs_relD(3) [OF rel]) simp_all
  from pick_slot_table [OF this _ _ small] k(2) obtain i j where
    ij: "pick_slot (padded ?t k s) = Some (Some i, padded ?u j (padded ?t k s))"
      "i < length ?u + j" "(?u @ replicate j None) ! i = None"
      "\<forall>l < i. (?u @ replicate j None) ! l \<noteq> None" "j \<le> length ?u"
    by (auto simp: padded_def)
  from small ij(5) have "length ?t + (k + j) < 2 ^ 31 - 1" by simp
  with ij k(1) that [of i "k + j"] show thesis
    by (simp add: padded_padded replicate_add)
qed

end
