(* ===== verification/UserfsSpec.thy ===== *)
theory UserfsSpec
  imports UserfsNames
begin

section \<open>The file system: what the calls promise\<close>

text \<open>
  The abstract file system that \<open>userfs.h\<close> describes: files with a name, a size and their
  bytes, and a map from descriptor numbers to open files. \<open>abs_ufs\<close> reads it off the
  pointers and arrays of the implementation. Each call has a specification on abstract
  states; that the implementation refines it is proved call by call: if \<open>f s\<close> returns
  \<open>(r, t)\<close>, then the specification relates \<open>abs_ufs s\<close>, \<open>r\<close> and \<open>abs_ufs t\<close>.

  \<open>a_data\<close> holds the memory of all blocks of the file; the file's contents are its first
  \<open>a_size\<close> bytes, the rest is the unused tail of the blocks.
\<close>

subsection \<open>Abstract state\<close>

record afile =
  a_name :: string
  a_ghost :: bool
  a_size :: nat
  a_data :: "cell list"

record afs =
  a_errno :: ufs_error_code
  a_files :: "addr \<rightharpoonup> afile"
  a_fds :: "int \<rightharpoonup> filedesc"

definition block_memory :: "(addr \<rightharpoonup> block) \<Rightarrow> addr \<Rightarrow> cell list" where
  "block_memory bs b = (case bs b of None \<Rightarrow> [] | Some blk \<Rightarrow> memory blk)"

definition raw_data :: "(addr \<rightharpoonup> block) \<Rightarrow> addr list \<Rightarrow> cell list" where
  "raw_data bs as = concat (map (block_memory bs) as)"

definition abs_file :: "(addr \<rightharpoonup> block) \<Rightarrow> ufile \<Rightarrow> afile" where
  "abs_file bs f = \<lparr>a_name = name f, a_ghost = is_ghost f, a_size = file_size f,
     a_data = (case walk next_block bs (first_block f) of
                 None \<Rightarrow> [] | Some as \<Rightarrow> raw_data bs as)\<rparr>"

definition abs_ufs :: "ufs \<Rightarrow> afs" where
  "abs_ufs s = \<lparr>a_errno = ufs_error_code s,
     a_files = (\<lambda>a. map_option (abs_file (blocks s)) (files s a)), a_fds = fd_lookup s\<rparr>"

definition contents :: "afile \<Rightarrow> cell list" where
  "contents f = take (a_size f) (a_data f)"

lemma abs_ufs_sel [simp]:
  "a_errno (abs_ufs s) = ufs_error_code s"
  "a_files (abs_ufs s) a = map_option (abs_file (blocks s)) (files s a)"
  "a_fds (abs_ufs s) = fd_lookup s"
  by (simp_all add: abs_ufs_def)

lemma abs_file_sel [simp]:
  "a_name (abs_file bs f) = name f" "a_ghost (abs_file bs f) = is_ghost f"
  "a_size (abs_file bs f) = file_size f"
  by (simp_all add: abs_file_def)

lemma fd_lookup_errno [simp]: "fd_lookup (s\<lparr>ufs_error_code := e\<rparr>) = fd_lookup s"
  by (rule fd_lookup_cong) (simp_all add: desc_table_def)

lemma abs_errno: "abs_ufs (s\<lparr>ufs_error_code := e\<rparr>) = (abs_ufs s)\<lparr>a_errno := e\<rparr>"
  by (simp add: abs_ufs_def)

lemma abs_file_data: "block_list bs f as \<Longrightarrow> a_data (abs_file bs f) = raw_data bs as"
  using walk_dll [of next_block prev_block bs None "first_block f" as]
  by (simp add: abs_file_def block_list_def)

lemma abs_file_upd [simp]:
  "abs_file bs (f\<lparr>refs := r\<rparr>) = abs_file bs f"
  "abs_file bs (f\<lparr>next_file := p\<rparr>) = abs_file bs f"
  "abs_file bs (f\<lparr>prev_file := p\<rparr>) = abs_file bs f"
  by (simp_all add: abs_file_def)

lemma abs_file_new [simp]:
  "abs_file bs (new_file nm) = \<lparr>a_name = nm, a_ghost = False, a_size = 0, a_data = []\<rparr>"
  by (simp add: abs_file_def new_file_def walk.simps raw_data_def)

lemma abs_files_strip:
  "strip fs = strip gs \<Longrightarrow> map_option (abs_file bs) (fs a) = map_option (abs_file bs) (gs a)"
proof -
  assume "strip fs = strip gs"
  moreover have "map_option (abs_file bs) (hs a) = map_option (abs_file bs) (strip hs a)" for hs
    by (cases "hs a") (simp_all add: strip_def)
  ultimately show ?thesis by metis
qed

subsection \<open>Opening, closing, deleting\<close>

definition a_visible :: "afs \<Rightarrow> string \<Rightarrow> addr \<Rightarrow> bool" where
  "a_visible A nm a \<longleftrightarrow> (\<exists>f. a_files A a = Some f \<and> \<not> a_ghost f \<and> a_name f = nm)"

text \<open>A new descriptor is the smallest free number, and stands at the file's start.\<close>

definition least_free :: "afs \<Rightarrow> int \<Rightarrow> bool" where
  "least_free A fd \<longleftrightarrow> 0 < fd \<and> a_fds A fd = None \<and> (\<forall>k. 0 < k \<longrightarrow> k < fd \<longrightarrow> a_fds A k \<noteq> None)"

definition open_desc :: "addr \<Rightarrow> 32 word \<Rightarrow> filedesc" where
  "open_desc a flags = \<lparr>desc_file = a, open_flags = default_flags flags, offset = 0\<rparr>"

definition empty_afile :: "string \<Rightarrow> afile" where
  "empty_afile nm = \<lparr>a_name = nm, a_ghost = False, a_size = 0, a_data = []\<rparr>"

definition open_spec :: "string \<Rightarrow> 32 word \<Rightarrow> afs \<Rightarrow> int \<Rightarrow> afs \<Rightarrow> bool" where
  "open_spec nm flags A r A' \<longleftrightarrow>
     (if \<exists>a. a_visible A nm a
      then least_free A r \<and>
           (\<exists>a. a_visible A nm a \<and> A' = A\<lparr>a_fds := (a_fds A)(r \<mapsto> open_desc a flags)\<rparr>)
      else if has_flag flags UFS_CREATE
      then least_free A r \<and>
           (\<exists>a. a_files A a = None \<and>
                A' = A\<lparr>a_files := (a_files A)(a \<mapsto> empty_afile nm),
                       a_fds := (a_fds A)(r \<mapsto> open_desc a flags)\<rparr>)
      else r = -1 \<and> A' = A\<lparr>a_errno := UFS_ERR_NO_FILE\<rparr>)"

text \<open>
  Closing removes the descriptor, and the file with it when the file is a ghost that no
  other descriptor refers to.
\<close>

definition drop_ghost :: "addr \<Rightarrow> afs \<Rightarrow> afs" where
  "drop_ghost a A =
     (case a_files A a of None \<Rightarrow> A
      | Some f \<Rightarrow>
          if a_ghost f \<and> (\<forall>d \<in> ran (a_fds A). desc_file d \<noteq> a)
          then A\<lparr>a_files := (a_files A)(a := None)\<rparr> else A)"

definition close_spec :: "int \<Rightarrow> afs \<Rightarrow> int \<Rightarrow> afs \<Rightarrow> bool" where
  "close_spec fd A r A' \<longleftrightarrow>
     (case a_fds A fd of
        None \<Rightarrow> r = -1 \<and> A' = A\<lparr>a_errno := UFS_ERR_NO_FILE\<rparr>
      | Some d \<Rightarrow> r = 0 \<and> A' = drop_ghost (desc_file d) (A\<lparr>a_fds := (a_fds A)(fd := None)\<rparr>))"

text \<open>
  Deleting hides the file: it becomes a ghost, which goes away at once when no descriptor
  refers to it.
\<close>

definition delete_spec :: "string \<Rightarrow> afs \<Rightarrow> int \<Rightarrow> afs \<Rightarrow> bool" where
  "delete_spec nm A r A' \<longleftrightarrow>
     (if \<exists>a. a_visible A nm a
      then r = 0 \<and> (\<exists>a f. a_visible A nm a \<and> a_files A a = Some f \<and>
             A' = drop_ghost a (A\<lparr>a_files := (a_files A)(a \<mapsto> f\<lparr>a_ghost := True\<rparr>)\<rparr>))
      else r = -1 \<and> A' = A\<lparr>a_errno := UFS_ERR_NO_FILE\<rparr>)"

subsection \<open>\<open>ufs_open\<close> refines its specification\<close>

lemma abs_padded:
  "desc_table s = t \<Longrightarrow> abs_ufs (padded t k s) = abs_ufs s"
  by (simp add: abs_ufs_def fd_lookup_padded)

lemma fd_lookup_opened:
  assumes rel: "ufs_rel fl bm s" and t: "file_descriptors s = Some t"
    and i: "i < length t" "t ! i = None"
  shows "fd_lookup (opened i flags a f s) =
    (fd_lookup s)(int i + 1 \<mapsto> \<lparr>desc_file = a, open_flags = flags, offset = 0\<rparr>)"
proof
  fix fd
  let ?d = "fresh_addr s"
  have dt: "desc_table s = t" using t by (simp add: desc_table_def)
  have no: "t ! j \<noteq> Some ?d" if "j < length t" for j
    using slot_live [OF ufs_relD(3) [OF rel], of j] that dt fresh_not_live(3) [OF ufs_relD(8) [OF rel]]
    by auto
  show "fd_lookup (opened i flags a f s) fd =
    ((fd_lookup s)(int i + 1 \<mapsto> \<lparr>desc_file = a, open_flags = flags, offset = 0\<rparr>)) fd"
  proof (cases "1 \<le> fd \<and> fd \<le> int (length t)")
    case True
    then obtain j where j: "fd = int j + 1" "j < length t"
      using positive_fd [of fd "length t"] by auto
    show ?thesis
      using j no [of j] i dt
      by (cases "j = i") (auto simp: fd_lookup_def opened_def desc_table_def split: option.splits)
  next
    case False
    with i dt show ?thesis by (auto simp: fd_lookup_def opened_def desc_table_def)
  qed
qed

lemma abs_opened:
  assumes "ufs_rel fl bm s" "file_descriptors s = Some t" "i < length t" "t ! i = None"
    "files s a = Some f"
  shows "abs_ufs (opened i flags a f s) = (abs_ufs s)\<lparr>a_fds :=
    (a_fds (abs_ufs s))(int i + 1 \<mapsto> \<lparr>desc_file = a, open_flags = flags, offset = 0\<rparr>)\<rparr>"
  using fd_lookup_opened [OF assms(1-4), of flags a f] assms(5)
  by (auto simp: abs_ufs_def opened_def fun_eq_iff)

lemma open_file_correct:
  assumes rel: "ufs_rel fl bm s" and room: "room s" and f: "files s a = Some f"
  obtains r t where "open_file a flags s = Some (r, t)" "ufs_rel fl bm t"
    "least_free (abs_ufs s) r"
    "abs_ufs t = (abs_ufs s)\<lparr>a_fds := (a_fds (abs_ufs s))
       (r \<mapsto> \<lparr>desc_file = a, open_flags = flags, offset = 0\<rparr>)\<rparr>"
proof -
  obtain i k where ik:
    "pick_slot (init_descriptors s) = Some (Some i, padded (desc_table s) k s)"
    "i < length (desc_table s) + k" "(desc_table s @ replicate k None) ! i = None"
    "\<And>j. j < i \<Longrightarrow> (desc_table s @ replicate k None) ! j \<noteq> None"
    "length (desc_table s) + k < 2 ^ 31 - 1"
    using pick_slot_rel [OF rel room] by metis
  let ?s = "padded (desc_table s) k s" and ?t = "desc_table s @ replicate k None"
  have rel': "ufs_rel fl bm ?s" using ik(2,5) by (intro ufs_rel_padded [OF rel]) auto
  have i: "file_descriptors ?s = Some ?t" "i < length ?t" "?t ! i = None" "files ?s a = Some f"
    using ik f by simp_all
  have "open_file a flags s = Some (int i + 1, opened i flags a f ?s)"
    using open_in_slot_eq [OF rel' i(1,2,4)] ik by (simp add: open_file_def)
  moreover have "ufs_rel fl bm (opened i flags a f ?s)"
    by (rule opened_rel [OF rel' i])
  moreover have "least_free (abs_ufs s) (int i + 1)"
  proof -
    have look: "fd_lookup s (int j + 1) = None \<longleftrightarrow> ?t ! j = None" if "j < length ?t" for j
      using fd_lookup_free [OF ufs_relD(3) [OF rel'], of j] that by (simp add: fd_lookup_padded)
    have "fd_lookup s l \<noteq> None" if "0 < l" "l < int i + 1" for l
    proof -
      from that obtain j where "l = int j + 1" "j < i"
        using positive_fd [of l i] by auto
      with look ik(2,4) show ?thesis by simp
    qed
    with look ik(2,3) show ?thesis by (simp add: least_free_def)
  qed
  moreover have "abs_ufs (opened i flags a f ?s) = (abs_ufs s)\<lparr>a_fds := (a_fds (abs_ufs s))
       (int i + 1 \<mapsto> \<lparr>desc_file = a, open_flags = flags, offset = 0\<rparr>)\<rparr>"
    using abs_opened [OF rel' i] abs_padded [of s "desc_table s" k] by simp
  ultimately show thesis by (rule that)
qed

lemma abs_created:
  assumes "created nm s t" and "files s (fresh_addr s) = None"
  shows "abs_ufs t = (abs_ufs s)\<lparr>a_files :=
    (a_files (abs_ufs s))(fresh_addr s \<mapsto> empty_afile nm)\<rparr>"
proof -
  have "strip (files t) = strip ((files s)(fresh_addr s \<mapsto> new_file nm))"
    using assms(1) by (simp add: created_def strip_upd)
  note eq = abs_files_strip [OF this, of "blocks s"]
  have t: "blocks t = blocks s" "descs t = descs s" "desc_table t = desc_table s"
    "ufs_error_code t = ufs_error_code s"
    using assms(1) by (simp_all add: created_def desc_table_def)
  have "fd_lookup t = fd_lookup s" by (rule fd_lookup_cong) (fact t)+
  moreover have "(\<lambda>a. map_option (abs_file (blocks s)) (files t a)) =
      (\<lambda>a. map_option (abs_file (blocks s)) (files s a))(fresh_addr s \<mapsto> empty_afile nm)"
    by (rule ext) (simp add: eq empty_afile_def)
  ultimately show ?thesis by (simp add: abs_ufs_def t)
qed

lemma has_create_default [simp]: "has_flag (default_flags flags) UFS_CREATE = has_flag flags UFS_CREATE"
  by (simp add: has_flag_def default_flags_def UFS_CREATE_def UFS_READ_WRITE_def word_ao_dist)

lemma no_visible:
  assumes "\<And>a f. files s a = Some f \<Longrightarrow> \<not> is_ghost f \<Longrightarrow> name f \<noteq> nm"
  shows "\<not> (\<exists>a. a_visible (abs_ufs s) nm a)"
proof
  assume "\<exists>a. a_visible (abs_ufs s) nm a"
  then obtain a f where "files s a = Some f" "\<not> is_ghost f" "name f = nm"
    by (auto simp: a_visible_def)
  with assms show False by blast
qed

lemma open_existing:
  assumes rel: "ufs_rel fl bm s" and room: "room s"
    and found: "find_file nm (file_list s) s = Some (Some a)" "files s a = Some f"
      "\<not> is_ghost f" "name f = nm"
  shows "\<exists>r t. ufs_open nm flags s = Some (r, t) \<and> ufs_inv t \<and>
    open_spec nm flags (abs_ufs s) r (abs_ufs t)"
proof -
  have vis: "a_visible (abs_ufs s) nm a" using found by (simp add: a_visible_def)
  obtain r t where rt: "open_file a (default_flags flags) s = Some (r, t)" "ufs_rel fl bm t"
    "least_free (abs_ufs s) r"
    "abs_ufs t = (abs_ufs s)\<lparr>a_fds := (a_fds (abs_ufs s))(r \<mapsto> open_desc a flags)\<rparr>"
    using open_file_correct [OF rel room found(2), of "default_flags flags"]
    by (metis open_desc_def)
  have "ufs_open nm flags s = Some (r, t)"
    using rt(1) found(1) by (simp add: ufs_open_def)
  moreover have "open_spec nm flags (abs_ufs s) r (abs_ufs t)"
    unfolding open_spec_def if_P [OF exI [of "a_visible (abs_ufs s) nm", OF vis]]
    using rt(3,4) vis by blast
  ultimately show ?thesis using rt(2) by (blast intro: ufs_invI)
qed

lemma open_absent:
  assumes rel: "ufs_rel fl bm s" and room: "room s"
    and absent: "find_file nm (file_list s) s = Some None"
      "\<And>a f. files s a = Some f \<Longrightarrow> \<not> is_ghost f \<Longrightarrow> name f \<noteq> nm"
  shows "\<exists>r t. ufs_open nm flags s = Some (r, t) \<and> ufs_inv t \<and>
    open_spec nm flags (abs_ufs s) r (abs_ufs t)"
proof -
  note novis = no_visible [OF absent(2)]
  show ?thesis
  proof (cases "has_flag flags UFS_CREATE")
    case False
    with absent(1) have "ufs_open nm flags s = Some (-1, s\<lparr>ufs_error_code := UFS_ERR_NO_FILE\<rparr>)"
      by (simp add: ufs_open_def fail_with_def)
    moreover have "open_spec nm flags (abs_ufs s) (-1) (abs_ufs (s\<lparr>ufs_error_code := UFS_ERR_NO_FILE\<rparr>))"
      using novis False by (simp add: open_spec_def abs_errno)
    ultimately show ?thesis using rel by (auto intro: ufs_invI)
  next
    case True
    let ?a = "fresh_addr s"
    obtain u where u: "create_file nm s = Some (?a, u)" "created nm s u"
      "files_rel (?a # fl) (files u) (file_list u)"
      using create_file_links [OF ufs_relD(1,8) [OF rel]] by blast
    have relu: "ufs_rel (?a # fl) (bm(?a := [])) u"
      using created_rel [OF rel u(2,3) absent(2)] .
    have roomu: "room u" using room u(2) by (simp add: room_def created_def)
    from u(2) have "strip (files u) ?a = Some (new_file nm)" by (simp add: created_def)
    then obtain f where f: "files u ?a = Some f" by (auto simp: strip_Some)
    obtain r t where rt: "open_file ?a (default_flags flags) u = Some (r, t)"
      "ufs_rel (?a # fl) (bm(?a := [])) t" "least_free (abs_ufs u) r"
      "abs_ufs t = (abs_ufs u)\<lparr>a_fds := (a_fds (abs_ufs u))(r \<mapsto> open_desc ?a flags)\<rparr>"
      using open_file_correct [OF relu roomu f, of "default_flags flags"] by (metis open_desc_def)
    have absu: "abs_ufs u = (abs_ufs s)\<lparr>a_files :=
        (a_files (abs_ufs s))(?a \<mapsto> empty_afile nm)\<rparr>" and new: "a_files (abs_ufs s) ?a = None"
      using abs_created [OF u(2)] fresh_not_live(1) [OF ufs_relD(8) [OF rel]] by simp_all
    have "ufs_open nm flags s = Some (r, t)"
      using rt(1) True absent(1) u(1) by (simp add: ufs_open_def)
    moreover have "least_free (abs_ufs s) r" using rt(3) by (simp add: absu least_free_def)
    then have "open_spec nm flags (abs_ufs s) r (abs_ufs t)"
      using novis True new rt(4) by (auto simp: open_spec_def absu intro!: exI [of _ ?a])
    ultimately show ?thesis using rt(2) by (blast intro: ufs_invI)
  qed
qed

lemma open_call_refines:
  assumes inv: "ufs_inv s" and room: "room s"
  shows "\<exists>r t. ufs_open nm flags s = Some (r, t) \<and> ufs_inv t \<and>
    open_spec nm flags (abs_ufs s) r (abs_ufs t)"
proof -
  from inv obtain fl bm where rel: "ufs_rel fl bm s" by (auto simp: ufs_inv_def)
  from rel show ?thesis
    by (rule find_file_inv [where nm = nm]) (blast intro: open_existing [OF rel room]
        open_absent [OF rel room])+
qed

end
