(* ===== verification/UserfsClose.thy ===== *)
theory UserfsClose
  imports UserfsSpec
begin

section \<open>The file system: closing, deleting, destroying\<close>

text \<open>
  \<open>ufs_close\<close>, \<open>ufs_delete\<close> and \<open>ufs_destroy\<close>: unlinking a file from the global list
  and freeing its blocks leaves the other files alone, no call uses freed memory, and no
  memory is left behind.
\<close>

subsection \<open>Unlinking and freeing a file\<close>

definition unlinked :: "addr list \<Rightarrow> addr list \<Rightarrow> ufs \<Rightarrow> ufs" where
  "unlinked xs ys s = s\<lparr>
     files := fl.relink_prev (first_ptr ys None) (last_ptr None xs)
                (fl.relink_next (last_ptr None xs) (first_ptr ys None) (files s)),
     file_list := first_ptr (xs @ ys) None\<rparr>"

lemma ufs_unlink_file_eq:
  assumes "files_rel (xs @ a # ys) (files s) (file_list s)"
  shows "ufs_unlink_file a s = Some (unlinked xs ys s)"
proof -
  from assms have dll: "dll next_file prev_file (files s) None (file_list s) (xs @ a # ys) None"
    by (simp add: files_rel_def)
  then have dist: "distinct (xs @ a # ys)" by (rule dll_distinct)
  from dll obtain f where f: "files s a = Some f" "prev_file f = last_ptr None xs"
    "next_file f = first_ptr ys None" by (rule dll_node)
  have live: "\<exists>g. files s c = Some g" if "c \<in> set (xs @ ys)" for c
    using dll_live [OF dll] that by auto
  have head: "file_list s = first_ptr (xs @ a # ys) None" using dll by (rule dll_first)
  show ?thesis
  proof (cases xs rule: rev_exhaust; cases ys)
    assume [simp]: "xs = []" "ys = []"
    from f head show ?thesis
      by (simp add: ufs_unlink_file_def unlinked_def fl.relink_next_def fl.relink_prev_def)
  next
    fix y ys' assume [simp]: "xs = []" "ys = y # ys'"
    from live [of y] obtain g where "files s y = Some g" by auto
    with f head dist show ?thesis
      by (auto simp: ufs_unlink_file_def unlinked_def fl.relink_next_def fl.relink_prev_def ub_simps)
  next
    fix xs' x assume [simp]: "xs = xs' @ [x]" "ys = []"
    from live [of x] obtain g where "files s x = Some g" by auto
    with f head dist show ?thesis
      by (cases xs')
        (auto simp: ufs_unlink_file_def unlinked_def fl.relink_next_def fl.relink_prev_def ub_simps)
  next
    fix xs' x y ys' assume [simp]: "xs = xs' @ [x]" "ys = y # ys'"
    from live [of x] live [of y] obtain g h where "files s x = Some g" "files s y = Some h" by auto
    with f head dist show ?thesis
      by (cases xs')
        (auto simp: ufs_unlink_file_def unlinked_def fl.relink_next_def fl.relink_prev_def ub_simps)
  qed
qed

lemma free_blocks_eq:
  "sll next_block (blocks s) p as None \<Longrightarrow>
   free_blocks p s = Some (s\<lparr>blocks := (blocks s) |` (- set as)\<rparr>)"
proof (induction as arbitrary: p s)
  case Nil
  then show ?case by (simp add: free_blocks.simps)
next
  case (Cons a as)
  then obtain b where b: "blocks s a = Some b" "sll next_block (blocks s) (next_block b) as None"
    "p = Some a" by (auto split: option.splits)
  from Cons.prems have "a \<notin> set as" using sll_distinct by fastforce
  with b(2) have "sll next_block (blocks (s\<lparr>blocks := (blocks s)(a := None)\<rparr>)) (next_block b) as None"
    by (simp add: link_simps)
  note step = Cons.IH [OF this]
  have "(\<lambda>b. if b = a then None else blocks s b) |` (- set as) = (blocks s) |` (- insert a (set as))"
    by (auto simp: restrict_map_def)
  with b step show ?case
    by (simp add: free_blocks.simps [of "Some a"] ub_simps)
qed

definition drop_file :: "addr \<Rightarrow> ufs \<Rightarrow> ufs option" where
  "drop_file a s = do { s \<leftarrow> ufs_unlink_file a s; ufs_free_file a s }"

definition dropped :: "addr list \<Rightarrow> addr \<Rightarrow> addr list \<Rightarrow> addr list \<Rightarrow> ufs \<Rightarrow> ufs" where
  "dropped xs a ys as s = (unlinked xs ys s)\<lparr>
     files := (files (unlinked xs ys s))(a := None), blocks := (blocks s) |` (- set as)\<rparr>"

lemma unlinked_simps [simp]:
  "blocks (unlinked xs ys s) = blocks s" "descs (unlinked xs ys s) = descs s"
  "file_descriptors (unlinked xs ys s) = file_descriptors s"
  "file_descriptor_used (unlinked xs ys s) = file_descriptor_used s"
  "file_descriptor_capacity (unlinked xs ys s) = file_descriptor_capacity s"
  "fresh_addr (unlinked xs ys s) = fresh_addr s"
  "ufs_error_code (unlinked xs ys s) = ufs_error_code s"
  "strip (files (unlinked xs ys s)) = strip (files s)"
  by (simp_all add: unlinked_def)

lemma dropped_simps [simp]:
  "blocks (dropped xs a ys as s) = (blocks s) |` (- set as)"
  "descs (dropped xs a ys as s) = descs s"
  "file_descriptors (dropped xs a ys as s) = file_descriptors s"
  "file_descriptor_used (dropped xs a ys as s) = file_descriptor_used s"
  "file_descriptor_capacity (dropped xs a ys as s) = file_descriptor_capacity s"
  "fresh_addr (dropped xs a ys as s) = fresh_addr s"
  "ufs_error_code (dropped xs a ys as s) = ufs_error_code s"
  "strip (files (dropped xs a ys as s)) = strip ((files s)(a := None))"
  by (simp_all add: dropped_def strip_upd_None)

lemma drop_file_eq:
  assumes fr: "files_rel (xs @ a # ys) (files s) (file_list s)"
    and f: "files s a = Some f" "block_list (blocks s) f as"
  shows "drop_file a s = Some (dropped xs a ys as s)"
proof -
  from strip_eq_SomeE [OF unlinked_simps(8) [symmetric] f(1)] obtain n p where
    g: "files (unlinked xs ys s) a = Some (f\<lparr>next_file := n, prev_file := p\<rparr>)" by metis
  from f(2) have "sll next_block (blocks (unlinked xs ys s)) (first_block f) as None"
    by (auto simp: block_list_def dest: dll_sll)
  note free = free_blocks_eq [OF this]
  from g free show ?thesis
    by (simp add: drop_file_def ufs_unlink_file_eq [OF fr] ufs_free_file_def free_file_def dropped_def)
qed

lemma files_rel_dropped:
  assumes "files_rel (xs @ a # ys) (files s) (file_list s)"
  shows "files_rel (xs @ ys) (files (dropped xs a ys as s)) (file_list (dropped xs a ys as s))"
proof -
  from assms have dll: "dll next_file prev_file (files s) None (file_list s) (xs @ a # ys) None"
    and dom: "dom (files s) = set (xs @ a # ys)"
    by (simp_all add: files_rel_def)
  from dll have dist: "distinct (xs @ a # ys)" by (rule dll_distinct)
  have "dll next_file prev_file (files (unlinked xs ys s)) None (first_ptr (xs @ ys) None) (xs @ ys) None"
    unfolding unlinked_def using fl.dll_unlink [OF dll] by simp
  moreover have "dom (files (unlinked xs ys s)) = dom (files s)"
    by (metis dom_strip unlinked_simps(8))
  ultimately show ?thesis
    using dist dom by (auto simp: files_rel_def dropped_def unlinked_def link_simps)
qed

lemma blocks_rel_dropped:
  assumes rel: "blocks_rel bm fs bs" and f: "fs a = Some f"
  shows "blocks_rel bm (fs(a := None)) (bs |` (- set (bm a)))"
proof -
  let ?bs = "bs |` (- set (bm a))"
  have disj: "set (bm a) \<inter> set (bm c) = {}" if "c \<in> dom fs" "c \<noteq> a" for c
    using blocks_relD(2) [OF rel, of a c] domI [of fs, OF f] that by simp
  have 1: "block_list ?bs g (bm c)" if "fs c = Some g" "c \<noteq> a" for c g
  proof -
    have "?bs b = bs b" if "b \<in> set (bm c)" for b
      using disj [of c] \<open>fs c = Some g\<close> \<open>c \<noteq> a\<close> that by (auto simp: restrict_map_def)
    then have "dll next_block prev_block ?bs None (first_block g) (bm c) None \<longleftrightarrow>
        dll next_block prev_block bs None (first_block g) (bm c) None"
      by (intro dll_cong) simp
    with blocks_relD(1) [OF rel that(1)] show ?thesis by (simp add: block_list_def)
  qed
  have 2: "dom ?bs = (\<Union>c \<in> dom (fs(a := None)). set (bm c))"
  proof -
    have "dom bs - set (bm a) = (\<Union>c \<in> dom fs - {a}. set (bm c))" 
      unfolding blocks_relD(3) [OF rel] using disj by (auto simp del: domIff)
    then show ?thesis by (simp add: Diff_eq)
  qed
  show ?thesis
    unfolding blocks_rel_def
  proof (intro conjI allI impI)
    fix c g assume "(fs(a := None)) c = Some g"
    then show "block_list ?bs g (bm c)" by (intro 1) (auto split: if_splits)
  next
    fix c e assume "c \<in> dom (fs(a := None))" "e \<in> dom (fs(a := None))" "c \<noteq> e"
    then show "set (bm c) \<inter> set (bm e) = {}" by (intro blocks_relD(2) [OF rel]) auto
  qed (fact 2)
qed
lemma blocks_ok_restrict: "blocks_ok bs \<Longrightarrow> blocks_ok (bs |` A)"
  by (auto simp: blocks_ok_def dest!: ran_restrictD intro: ranI)

lemma core_rel_dropped:
  assumes rel: "core_rel (xs @ a # ys) bm s" and f: "files s a = Some f"
    and no: "openers (descs s) a = {}"
  shows "core_rel (xs @ ys) bm (dropped xs a ys (bm a) s)"
proof -
  let ?t = "dropped xs a ys (bm a) s" and ?gs = "(files s)(a := None)"
  have strip: "strip (files ?t) = strip ?gs" by simp
  have "descs_rel bm ?gs (descs s)"
    using core_relD(4) [OF rel] no by (auto simp: descs_rel_def openers_def)
  moreover have "refs_rel ?gs (descs s)" "sizes_rel bm ?gs" "names_rel ?gs"
    using core_relD(5,6,7) [OF rel] by (auto simp: refs_rel_def sizes_rel_def names_rel_def)
  moreover have "table_rel ?t"
    using core_relD(3) [OF rel] by (simp add: table_rel_def desc_table_def)
  moreover have "fresh_rel ?t"
    using core_relD(8) [OF rel] strip_eq_dom [OF strip] by (auto simp: fresh_rel_def)
  ultimately show ?thesis
    using files_rel_dropped [OF core_relD(1) [OF rel]] blocks_rel_dropped [OF core_relD(2) [OF rel] f]
    by (simp add: core_rel_def blocks_rel_eq [OF strip] descs_rel_eq [OF strip]
        refs_rel_eq [OF strip] sizes_rel_eq [OF strip] names_rel_eq [OF strip])
qed

subsection \<open>Dropping a file, abstractly\<close>

lemma raw_data_cong: "(\<And>b. b \<in> set as \<Longrightarrow> bs b = cs b) \<Longrightarrow> raw_data bs as = raw_data cs as"
  unfolding raw_data_def by (rule arg_cong [where f = concat]) (simp add: block_memory_def)

lemma abs_file_cong:
  assumes "block_list bs f as" and "\<And>b. b \<in> set as \<Longrightarrow> cs b = bs b"
  shows "abs_file cs f = abs_file bs f"
proof -
  have "dll next_block prev_block cs None (first_block f) as None \<longleftrightarrow>
      dll next_block prev_block bs None (first_block f) as None"
    using assms(2) by (intro dll_cong) simp
  with assms(1) have "block_list cs f as" by (simp add: block_list_def)
  then have "a_data (abs_file cs f) = raw_data cs as" by (rule abs_file_data)
  also have "\<dots> = raw_data bs as" by (rule raw_data_cong) (rule assms(2))
  also have "\<dots> = a_data (abs_file bs f)" using assms(1) by (rule abs_file_data [symmetric])
  finally show ?thesis by (simp add: abs_file_def)
qed

lemma abs_dropped:
  assumes rel: "blocks_rel bm (files s) (blocks s)" and f: "files s a = Some f"
  shows "abs_ufs (dropped xs a ys (bm a) s) =
    (abs_ufs s)\<lparr>a_files := (a_files (abs_ufs s))(a := None)\<rparr>"
proof -
  let ?t = "dropped xs a ys (bm a) s"
  have "map_option (abs_file (blocks ?t)) (files ?t c) =
      ((\<lambda>c. map_option (abs_file (blocks s)) (files s c))(a := None)) c" for c
  proof -
    have "map_option (abs_file (blocks ?t)) (files ?t c) =
        map_option (abs_file (blocks ?t)) (((files s)(a := None)) c)"
      by (rule abs_files_strip [of _ "(files s)(a := None)"]) simp
    also have "\<dots> = ((\<lambda>c. map_option (abs_file (blocks s)) (files s c))(a := None)) c"
    proof (cases "c = a \<or> files s c = None")
      case False
      then obtain g where g: "files s c = Some g" "c \<noteq> a" by auto
      have "set (bm a) \<inter> set (bm c) = {}"
        using blocks_relD(2) [OF rel] f g by blast
      then have "abs_file (blocks ?t) g = abs_file (blocks s) g"
        by (intro abs_file_cong [OF blocks_relD(1) [OF rel g(1)]]) (auto simp: restrict_map_def)
      with g show ?thesis by simp
    qed auto
    finally show ?thesis .
  qed
  then have "(\<lambda>c. map_option (abs_file (blocks ?t)) (files ?t c)) =
      (\<lambda>c. map_option (abs_file (blocks s)) (files s c))(a := None)" by (rule ext)
  moreover have "fd_lookup ?t = fd_lookup s" by (rule fd_lookup_cong) (simp_all add: desc_table_def)
  ultimately show ?thesis by (simp add: abs_ufs_def)
qed

subsection \<open>Descriptors of a file, abstractly\<close>

text \<open>A live descriptor stands in exactly one slot.\<close>

lemma desc_in_table:
  assumes "table_rel s" and "descs s d = Some x"
  obtains i where "i < length (desc_table s)" "desc_table s ! i = Some d"
    "fd_lookup s (int i + 1) = Some x"
proof -
  from assms have "d \<in> set (slots (desc_table s))" by (auto simp: table_rel_def)
  then obtain i where "i < length (desc_table s)" "desc_table s ! i = Some d"
    by (auto simp: set_slots in_set_conv_nth)
  with assms(2) that [of i] show thesis by (simp add: fd_lookup_def)
qed

lemma fd_lookup_SomeD:
  assumes "fd_lookup s fd = Some x"
  obtains i d where "fd = int i + 1" "i < length (desc_table s)" "desc_table s ! i = Some d"
    "descs s d = Some x"
proof -
  from assms have "1 \<le> fd" "fd < int (length (desc_table s)) + 1"
    by (auto simp: fd_lookup_def split: if_splits)
  then obtain i where i: "fd = int i + 1" "i < length (desc_table s)" by (rule positive_fd)
  with assms show thesis
    by (cases "desc_table s ! i") (auto simp: fd_lookup_def intro: that)
qed

lemma no_openers_abs:
  assumes "table_rel s"
  shows "openers (descs s) a = {} \<longleftrightarrow> (\<forall>x \<in> ran (fd_lookup s). desc_file x \<noteq> a)"
  (is "?l \<longleftrightarrow> ?r")
proof
  assume l: ?l
  show ?r
  proof
    fix x assume "x \<in> ran (fd_lookup s)"
    then obtain fd where "fd_lookup s fd = Some x" by (auto simp: ran_def)
    then obtain d where "descs s d = Some x" by (rule fd_lookup_SomeD)
    with l show "desc_file x \<noteq> a" by (auto simp: openers_def)
  qed
next
  assume r: ?r
  have "desc_file x \<noteq> a" if "descs s d = Some x" for d x
    using desc_in_table [OF assms that] r by (metis ranI)
  then show ?l by (auto simp: openers_def)
qed

lemma find_desc_inv:
  assumes rel: "table_rel s" and fd: "in_int (fd - 1)"
  obtains (none) "find_desc fd s = Some None" "fd_lookup s fd = None"
  | (found) i d x where "find_desc fd s = Some (Some (i, d))" "fd = int i + 1"
      "i < length (desc_table s)" "desc_table s ! i = Some d" "descs s d = Some x"
      "fd_lookup s fd = Some x"
proof -
  have cap: "file_descriptor_capacity s = int (length (desc_table s))"
    using rel by (simp add: table_rel_def)
  show thesis
  proof (cases "1 \<le> fd \<and> fd \<le> int (length (desc_table s))")
    case False
    with cap fd have "find_desc fd s = Some None" "fd_lookup s fd = None"
      by (auto simp: find_desc_def fd_lookup_def)
    then show thesis by (rule none)
  next
    case True
    then obtain i where i: "fd = int i + 1" "i < length (desc_table s)"
      using positive_fd [of fd "length (desc_table s)"] by auto
    then have slot: "fd_slot s i = Some (desc_table s ! i)"
      by (cases "file_descriptors s") (simp_all add: fd_slot_def desc_table_def)
    show thesis
    proof (cases "desc_table s ! i")
      case None
      with i slot cap fd have "find_desc fd s = Some None" "fd_lookup s fd = None"
        by (simp_all add: find_desc_def fd_lookup_def)
      then show thesis by (rule none)
    next
      case (Some d)
      with slot_live [OF rel i(2)] obtain x where x: "descs s d = Some x" by auto
      with i slot cap fd Some show thesis
        by (intro found [of i d x]) (simp_all add: find_desc_def fd_lookup_def)
    qed
  qed
qed

subsection \<open>\<open>ufs_close\<close>\<close>

definition released :: "nat \<Rightarrow> addr \<Rightarrow> filedesc \<Rightarrow> ufile \<Rightarrow> ufs \<Rightarrow> ufs" where
  "released i d x f s =
     s\<lparr>files := (files s)(desc_file x \<mapsto> f\<lparr>refs := refs f - 1\<rparr>),
       descs := (descs s)(d := None),
       file_descriptors := Some ((desc_table s)[i := None]),
       file_descriptor_used := file_descriptor_used s - 1\<rparr>"

lemma released_simps [simp]:
  "descs (released i d x f s) = (descs s)(d := None)"
  "blocks (released i d x f s) = blocks s"
  "desc_table (released i d x f s) = (desc_table s)[i := None]"
  "ufs_error_code (released i d x f s) = ufs_error_code s"
  by (simp_all add: released_def desc_table_def)

lemma openers_removed: "openers (ds(d := None)) c = openers ds c - {d}"
  by (auto simp: openers_def)

lemma table_rel_released:
  assumes rel: "table_rel s" and i: "i < length (desc_table s)" "desc_table s ! i = Some d"
  shows "table_rel (released i d x f s)"
proof -
  obtain us vs where split: "desc_table s = us @ desc_table s ! i # vs"
    "\<And>p. (desc_table s)[i := p] = us @ p # vs"
    using slots_update_split [OF i(1)] by metis
  with i(2) have t: "desc_table s = us @ Some d # vs" by metis
  have t': "(us @ Some d # vs)[i := None] = us @ None # vs"
    using split(2) [of None] by (simp only: t)
  have dist: "d \<notin> set (slots us)" "d \<notin> set (slots vs)"
    and dom: "dom (descs s) = insert d (set (slots us) \<union> set (slots vs))"
    using rel by (auto simp: table_rel_def t)
  then have "dom (descs (released i d x f s)) = set (slots us) \<union> set (slots vs)"
    by (auto simp: released_def)
  then show ?thesis
    using rel by (auto simp: table_rel_def t t') (auto simp: released_def t)
qed

lemma refs_rel_released:
  assumes rel: "refs_rel fs ds" and fin: "\<And>a. finite (openers ds a)"
    and d: "ds d = Some x" "fs (desc_file x) = Some f"
  shows "refs_rel (fs(desc_file x \<mapsto> f\<lparr>refs := refs f - 1\<rparr>)) (ds(d := None))"
proof -
  have d_in: "d \<in> openers ds (desc_file x)" using d(1) by (simp add: openers_def)
  then have "card (openers ds (desc_file x) - {d}) = card (openers ds (desc_file x)) - 1"
    "0 < card (openers ds (desc_file x))"
    using fin by (auto simp: card_gt_0_iff)
  moreover have "openers ds c - {d} = openers ds c" if "c \<noteq> desc_file x" for c
    using that d(1) by (auto simp: openers_def)
  ultimately show ?thesis
    using rel d(2) by (auto simp: refs_rel_def openers_removed)
qed

lemma released_core:
  assumes rel: "ufs_rel fl bm s" and i: "i < length (desc_table s)" "desc_table s ! i = Some d"
    and d: "descs s d = Some x" and f: "files s (desc_file x) = Some f"
  shows "core_rel fl bm (released i d x f s)"
proof -
  let ?s = "released i d x f s"
  have "files_rel fl (files ?s) (file_list ?s)"
    using files_rel_upd [OF ufs_relD(1) [OF rel] f] by (simp add: released_def)
  moreover have "blocks_rel bm (files ?s) (blocks ?s)"
    using blocks_rel_upd [OF ufs_relD(2) [OF rel] f] by (simp add: released_def)
  moreover have "descs_rel bm (files ?s) (descs ?s)"
    using descs_rel_upd [OF ufs_relD(4) [OF rel] f] by (simp add: released_def descs_rel_def)
  moreover have "refs_rel (files ?s) (descs ?s)"
    using refs_rel_released [OF ufs_relD(5) [OF rel] openers_finite [OF ufs_relD(3) [OF rel]] d f]
    by (simp add: released_def)
  moreover have "sizes_rel bm (files ?s)"
    using sizes_rel_upd [OF ufs_relD(6) [OF rel] f] by (simp add: released_def)
  moreover have "names_rel (files ?s)"
    using names_rel_upd [OF ufs_relD(7) [OF rel] f] by (simp add: released_def)
  moreover have "fresh_rel ?s"
    using ufs_relD(8) [OF rel] f by (auto simp: fresh_rel_def released_def)
  ultimately show ?thesis
    using table_rel_released [OF ufs_relD(3) [OF rel] i] by (simp add: core_rel_def)
qed

lemma abs_released:
  assumes rel: "ufs_rel fl bm s" and i: "i < length (desc_table s)" "desc_table s ! i = Some d"
    and f: "files s (desc_file x) = Some f"
  shows "abs_ufs (released i d x f s) =
    (abs_ufs s)\<lparr>a_fds := (a_fds (abs_ufs s))(int i + 1 := None)\<rparr>"
proof -
  let ?s = "released i d x f s" and ?t = "desc_table s"
  have dist: "distinct (slots ?t)" using ufs_relD(3) [OF rel] by (simp add: table_rel_def)
  obtain us vs where split: "?t = us @ ?t ! i # vs" "length us = i"
    using slots_update_split [OF i(1)] by metis
  with i(2) have t': "?t = us @ Some d # vs" by metis
  have other: "?t ! j \<noteq> Some d" if "j < length ?t" "j \<noteq> i" for j
  proof -
    have "Some d \<notin> set us" "Some d \<notin> set vs" using dist by (auto simp: t' set_slots)
    moreover have "?t ! j \<in> set us \<union> set vs"
      using that split(2) by (cases "j < i") (simp_all add: t' nth_append nth_Cons')
    ultimately show ?thesis by auto
  qed
  have "fd_lookup ?s fd = ((fd_lookup s)(int i + 1 := None)) fd" for fd
  proof (cases "1 \<le> fd \<and> fd < int (length ?t) + 1")
    case True
    then obtain j where j: "fd = int j + 1" "j < length ?t" using positive_fd by metis
    then show ?thesis
      using other [of j] i by (cases "j = i")
        (auto simp: fd_lookup_def split: option.split)
  next
    case False
    with i show ?thesis by (auto simp: fd_lookup_def)
  qed
  then have "fd_lookup ?s = (fd_lookup s)(int i + 1 := None)" by (rule ext)
  moreover have "(\<lambda>a. map_option (abs_file (blocks ?s)) (files ?s a)) =
      (\<lambda>a. map_option (abs_file (blocks s)) (files s a))"
    using f by (auto simp: released_def fun_eq_iff)
  ultimately show ?thesis by (simp add: abs_ufs_def)
qed

lemma files_split:
  assumes "files_rel fl fs h" and "fs a = Some f"
  obtains xs ys where "fl = xs @ a # ys"
  using assms by (metis domI files_rel_def split_list)

text \<open>The file's fate after its reference is gone, on the released state.\<close>

definition close_result :: "addr list \<Rightarrow> addr \<Rightarrow> addr list \<Rightarrow> addr list \<Rightarrow> ufile \<Rightarrow> ufs \<Rightarrow> ufs" where
  "close_result xs a ys as f u =
     (if refs f - 1 \<le> 0 \<and> is_ghost f then dropped xs a ys as u else u)"

lemma ufs_close_eq:
  assumes rel: "ufs_rel (xs @ desc_file x # ys) bm s" and i: "i < length (desc_table s)"
    and found: "find_desc fd s = Some (Some (i, d))"
    and d: "descs s d = Some x" and f: "files s (desc_file x) = Some f"
  shows "ufs_close fd s =
    Some (0, close_result xs (desc_file x) ys (bm (desc_file x)) f (released i d x f s))"
proof -
  let ?a = "desc_file x" and ?s1 = "s\<lparr>files := (files s)(desc_file x \<mapsto> f\<lparr>refs := refs f - 1\<rparr>)\<rparr>"
  note table = ufs_relD(3) [OF rel]
  have used: "file_descriptor_used s \<le> int (length (desc_table s))"
    "length (desc_table s) < 2 ^ 31" "0 < file_descriptor_used s"
    using table length_slots [of "desc_table s"] d by (auto simp: table_rel_def)
  have "refs f \<le> file_descriptor_used s" "0 \<le> refs f"
    using ufs_relD(5) [OF rel] f openers_le_used [OF table] by (auto simp: refs_rel_def)
  with used have ints: "c_int (refs f - 1) = Some (refs f - 1)"
    "c_int (file_descriptor_used s - 1) = Some (file_descriptor_used s - 1)"
    by (simp_all add: c_int_def in_int_def int_min_def int_max_def)
  have "files_rel (xs @ ?a # ys) (files ?s1) (file_list ?s1)"
    using files_rel_upd [OF ufs_relD(1) [OF rel] f] by simp
  moreover have "files ?s1 ?a = Some (f\<lparr>refs := refs f - 1\<rparr>)" by simp
  moreover have "block_list (blocks ?s1) (f\<lparr>refs := refs f - 1\<rparr>) (bm ?a)"
    using blocks_relD(1) [OF ufs_relD(2) [OF rel] f] by (simp add: block_list_def)
  ultimately have drop: "drop_file ?a ?s1 = Some (dropped xs ?a ys (bm ?a) ?s1)"
    by (rule drop_file_eq)
  obtain t where t: "file_descriptors s = Some t" using i by (cases "file_descriptors s")
    (auto simp: desc_table_def)
  show ?thesis
    using found d f ints drop t i
    by (simp add: ufs_close_def upd_file_def free_desc_def set_fd_slot_def desc_table_def
        drop_file_def [symmetric] close_result_def)
       (simp add: released_def dropped_def unlinked_def desc_table_def)
qed

lemma abs_close_result:
  assumes rel: "ufs_rel fl bm s" and i: "i < length (desc_table s)" "desc_table s ! i = Some d"
    and d: "descs s d = Some x" and f: "files s (desc_file x) = Some f"
    and fl: "fl = xs @ desc_file x # ys"
  defines "u \<equiv> released i d x f s" and "a \<equiv> desc_file x"
  defines "t \<equiv> close_result xs a ys (bm a) f u"
  shows "ufs_inv t" and "abs_ufs t = drop_ghost a ((abs_ufs s)\<lparr>a_fds := (a_fds (abs_ufs s))(int i + 1 := None)\<rparr>)"
proof -
  let ?f = "f\<lparr>refs := refs f - 1\<rparr>"
  have core: "core_rel fl bm u" unfolding u_def by (rule released_core [OF rel i d f])
  have absu: "abs_ufs u = (abs_ufs s)\<lparr>a_fds := (a_fds (abs_ufs s))(int i + 1 := None)\<rparr>"
    unfolding u_def by (rule abs_released [OF rel i f])
  have fu: "files u a = Some ?f" by (simp add: u_def a_def released_def)
  have open_u: "openers (descs u) a = {} \<longleftrightarrow> refs f - 1 \<le> 0"
    using refs_relD [OF core_relD(5) [OF core] fu] openers_finite [OF core_relD(3) [OF core], of a]
      card_0_eq [of "openers (descs u) a"]
    by simp
  have spec: "drop_ghost a (abs_ufs u) = (if is_ghost f \<and> openers (descs u) a = {}
      then (abs_ufs u)\<lparr>a_files := (a_files (abs_ufs u))(a := None)\<rparr> else abs_ufs u)"
    using fu by (simp add: drop_ghost_def no_openers_abs [OF core_relD(3) [OF core]])
  have others: "openers (descs u) c \<noteq> {}" if "files u c = Some g" "is_ghost g" "c \<noteq> a" for c g
  proof -
    have "files s c = Some g" using that by (simp add: u_def a_def released_def)
    with ufs_rel_ghostsD [OF rel] that(2) have "openers (descs s) c \<noteq> {}" by (simp add: ghosts_rel_def)
    moreover have "d \<notin> openers (descs s) c" using that(3) d by (simp add: openers_def a_def)
    ultimately show ?thesis by (simp add: u_def openers_removed)
  qed
  have "ufs_inv t \<and> abs_ufs t = drop_ghost a (abs_ufs u)"
  proof (cases "refs f - 1 \<le> 0 \<and> is_ghost f")
    case True
    with open_u have no: "openers (descs u) a = {}" by simp
    have core_u: "core_rel (xs @ a # ys) bm u" using core by (simp add: fl a_def)
    have strip: "strip (files (dropped xs a ys (bm a) u)) = strip ((files u)(a := None))" by simp
    have "ghosts_rel ((files u)(a := None)) (descs u)"
      using others by (auto simp: ghosts_rel_def)
    moreover have "blocks_ok (blocks u)" using ufs_rel_okD [OF rel] by (simp add: u_def)
    ultimately have "ufs_rel (xs @ ys) bm (dropped xs a ys (bm a) u)"
      using core_rel_dropped [OF core_u fu no]
      by (simp add: ufs_rel_def ghosts_rel_eq [OF strip] blocks_ok_restrict)
    with True spec no abs_dropped [OF core_relD(2) [OF core] fu] show ?thesis
      by (auto simp: t_def close_result_def intro: ufs_invI)
  next
    case False
    with open_u have "ghosts_rel (files u) (descs u)"
      using others fu by (force simp: ghosts_rel_def)
    with core have "ufs_rel fl bm u"
      using ufs_rel_okD [OF rel] by (simp add: ufs_rel_def u_def)
    moreover from False open_u spec have "drop_ghost a (abs_ufs u) = abs_ufs u" by auto
    moreover from False have "t = u" by (auto simp: t_def close_result_def)
    ultimately show ?thesis by (auto intro: ufs_invI)
  qed
  then show "ufs_inv t" "abs_ufs t = drop_ghost a ((abs_ufs s)\<lparr>a_fds := (a_fds (abs_ufs s))(int i + 1 := None)\<rparr>)"
    by (simp_all add: absu)
qed

text \<open>The file descriptors a caller may pass: any \<open>int\<close> but \<open>INT_MIN\<close>.\<close>

definition fd_arg :: "int \<Rightarrow> bool" where
  "fd_arg fd \<longleftrightarrow> in_int fd \<and> fd \<noteq> int_min"

lemma fd_argD: "fd_arg fd \<Longrightarrow> in_int (fd - 1)"
  by (auto simp: fd_arg_def in_int_def int_min_def int_max_def)

lemma close_call_refines:
  assumes inv: "ufs_inv s" and fd: "fd_arg fd"
  shows "\<exists>r t. ufs_close fd s = Some (r, t) \<and> ufs_inv t \<and> close_spec fd (abs_ufs s) r (abs_ufs t)"
proof -
  from inv obtain fl bm where rel: "ufs_rel fl bm s" by (auto simp: ufs_inv_def)
  note table = ufs_relD(3) [OF rel]
  from table fd_argD [OF fd] show ?thesis
  proof (cases rule: find_desc_inv)
    case none
    with inv show ?thesis by (simp add: ufs_close_def fail_with_def close_spec_def abs_errno)
  next
    case (found i d x)
    from ufs_relD(4) [OF rel] found(5) obtain f where f: "files s (desc_file x) = Some f"
      by (auto simp: descs_rel_def)
    obtain xs ys where fl: "fl = xs @ desc_file x # ys" by (rule files_split [OF ufs_relD(1) [OF rel] f])
    have "ufs_rel (xs @ desc_file x # ys) bm s" using rel by (simp add: fl)
    note eq = ufs_close_eq [OF this found(3,1,5) f]
    with abs_close_result [OF rel found(3,4,5) f fl] found(2,6) show ?thesis
      by (simp add: close_spec_def)
  qed
qed

subsection \<open>\<open>ufs_delete\<close>\<close>

definition ghosted :: "addr \<Rightarrow> ufile \<Rightarrow> ufs \<Rightarrow> ufs" where
  "ghosted a f s = s\<lparr>files := (files s)(a \<mapsto> f\<lparr>is_ghost := True\<rparr>)\<rparr>"

lemma ghosted_core:
  assumes rel: "core_rel fl bm s" and f: "files s a = Some f"
  shows "core_rel fl bm (ghosted a f s)"
  using rel f
    files_rel_upd [OF core_relD(1) [OF rel] f] blocks_rel_upd [OF core_relD(2) [OF rel] f]
    descs_rel_upd [OF core_relD(4) [OF rel] f] sizes_rel_upd [OF core_relD(6) [OF rel] f]
    names_rel_upd [OF core_relD(7) [OF rel] f]
  by (simp add: core_rel_def ghosted_def table_rel_def desc_table_def refs_rel_def fresh_rel_def)

lemma abs_ghosted:
  assumes "files s a = Some f"
  shows "abs_ufs (ghosted a f s) = (abs_ufs s)\<lparr>a_files :=
    (a_files (abs_ufs s))(a \<mapsto> (abs_file (blocks s) f)\<lparr>a_ghost := True\<rparr>)\<rparr>"
proof -
  have "fd_lookup (ghosted a f s) = fd_lookup s"
    by (rule fd_lookup_cong) (simp_all add: ghosted_def desc_table_def)
  then show ?thesis by (auto simp: abs_ufs_def ghosted_def fun_eq_iff abs_file_def)
qed

lemma delete_call_refines:
  assumes inv: "ufs_inv s"
  shows "\<exists>r t. ufs_delete nm s = Some (r, t) \<and> ufs_inv t \<and> delete_spec nm (abs_ufs s) r (abs_ufs t)"
proof -
  from inv obtain fl bm where rel: "ufs_rel fl bm s" by (auto simp: ufs_inv_def)
  note table = ufs_relD(3) [OF rel]
  from rel show ?thesis
  proof (cases rule: find_file_inv [where nm = nm])
    case absent
    with no_visible [OF absent(2)] inv show ?thesis
      by (simp add: ufs_delete_def fail_with_def delete_spec_def abs_errno)
  next
    case (found a f)
    have vis: "a_visible (abs_ufs s) nm a" using found by (simp add: a_visible_def)
    let ?g = "ghosted a f s"
    have core: "core_rel fl bm ?g" by (rule ghosted_core [OF ufs_rel_coreD [OF rel] found(2)])
    have no: "openers (descs s) a = {} \<longleftrightarrow> refs f \<le> 0"
      using refs_relD [OF ufs_relD(5) [OF rel] found(2)] openers_finite [OF table, of a]
        card_0_eq [of "openers (descs s) a"]
      by simp
    have others: "openers (descs s) c \<noteq> {}" if "files s c = Some g" "is_ghost g" for c g
      using ufs_rel_ghostsD [OF rel] that by (auto simp: ghosts_rel_def)
    have spec: "drop_ghost a (abs_ufs ?g) = (if refs f \<le> 0
        then (abs_ufs ?g)\<lparr>a_files := (a_files (abs_ufs ?g))(a := None)\<rparr> else abs_ufs ?g)"
      using no_openers_abs [OF core_relD(3) [OF core], of a] no
      by (simp add: drop_ghost_def) (simp add: ghosted_def)
    have "\<exists>t. ufs_delete nm s = Some (0, t) \<and> ufs_inv t \<and> abs_ufs t = drop_ghost a (abs_ufs ?g)"
    proof (cases "refs f \<le> 0")
      case True
      obtain xs ys where fl: "fl = xs @ a # ys" by (rule files_split [OF ufs_relD(1) [OF rel] found(2)])
      let ?t = "dropped xs a ys (bm a) s"
      have core_s: "core_rel (xs @ a # ys) bm s" using ufs_rel_coreD [OF rel] by (simp add: fl)
      have drop: "drop_file a s = Some ?t"
        by (rule drop_file_eq [OF core_relD(1) [OF core_s] found(2)
              blocks_relD(1) [OF ufs_relD(2) [OF rel] found(2)]])
      have strip: "strip (files ?t) = strip ((files s)(a := None))" by simp
      have "ghosts_rel ((files s)(a := None)) (descs s)"
        using others by (auto simp: ghosts_rel_def)
      with core_rel_dropped [OF core_s found(2)] no True have "ufs_rel (xs @ ys) bm ?t"
        using ufs_rel_okD [OF rel]
        by (simp add: ufs_rel_def ghosts_rel_eq [OF strip] blocks_ok_restrict)
      moreover have "ufs_delete nm s = Some (0, ?t)"
        using True found(1,2) drop by (simp add: ufs_delete_def drop_file_def [symmetric])
      moreover have "abs_ufs ?t = drop_ghost a (abs_ufs ?g)"
        using True spec abs_dropped [OF ufs_relD(2) [OF rel] found(2)] abs_ghosted [of s a f] found(2)
        by (simp add: fun_upd_upd)
      ultimately show ?thesis by (blast intro: ufs_invI)
    next
      case False
      then have "ghosts_rel (files ?g) (descs ?g)"
        using others no by (auto simp: ghosts_rel_def ghosted_def)
      with core have "ufs_rel fl bm ?g"
        using ufs_rel_okD [OF rel] by (simp add: ufs_rel_def ghosted_def)
      moreover have "ufs_delete nm s = Some (0, ?g)"
        using False found(1,2) by (simp add: ufs_delete_def upd_file_def ghosted_def)
      ultimately show ?thesis using False spec by (auto intro: ufs_invI)
    qed
    moreover have "abs_ufs ?g = (abs_ufs s)\<lparr>a_files :=
        (a_files (abs_ufs s))(a \<mapsto> (abs_file (blocks s) f)\<lparr>a_ghost := True\<rparr>)\<rparr>"
      by (rule abs_ghosted [OF found(2)])
    ultimately show ?thesis
      using vis found(2) unfolding delete_spec_def by (auto intro!: exI [of _ a])
  qed
qed

end
