(* ===== verification/UserfsDestroy.thy ===== *)
theory UserfsDestroy
  imports UserfsClose
begin

section \<open>The file system: destroying it\<close>

text \<open>
  \<open>ufs_destroy\<close> visits every slot of the descriptor array and every file of the list. On a
  state that satisfies the invariant it frees each live object exactly once: no double
  free, and nothing is left allocated.
\<close>

lemma destroy_descs_eq:
  assumes "file_descriptors s = Some t" and "k \<le> length t"
    and "distinct (slots (drop k t))" and "set (slots (drop k t)) \<subseteq> dom (descs s)"
  shows "for_each [k..<length t] destroy_desc s =
    Some (s\<lparr>descs := (descs s) |` (- set (slots (drop k t)))\<rparr>)"
  using assms
proof (induction "length t - k" arbitrary: k s)
  case 0
  then show ?case by simp
next
  case (Suc n)
  then have k: "k < length t" by simp
  then have upt: "[k..<length t] = k # [Suc k..<length t]" by (rule upt_conv_Cons)
  have drop: "drop k t = t ! k # drop (Suc k) t" using k by (simp add: Cons_nth_drop_Suc)
  show ?case
  proof (cases "t ! k")
    case None
    with Suc k drop show ?thesis
      by (simp add: upt destroy_desc_def fd_slot_def)
  next
    case (Some d)
    with Suc.prems drop obtain x where d: "descs s d = Some x" "d \<notin> set (slots (drop (Suc k) t))"
      by auto
    let ?s = "s\<lparr>descs := (descs s)(d := None)\<rparr>"
    have step: "destroy_desc k s = Some ?s"
      using Suc.prems(1) k Some d(1) by (simp add: destroy_desc_def fd_slot_def free_desc_def)
    have "for_each [Suc k..<length t] destroy_desc ?s =
        Some (?s\<lparr>descs := (descs ?s) |` (- set (slots (drop (Suc k) t)))\<rparr>)"
      using Suc.prems Suc.hyps(2) drop Some d(2) by (intro Suc.hyps(1)) auto
    moreover have "((descs s)(d := None)) |` (- set (slots (drop (Suc k) t))) =
        (descs s) |` (- set (slots (drop k t)))"
      using Some by (auto simp: drop restrict_map_def)
    ultimately show ?thesis by (simp add: upt step del: fun_upd_restrict_conv fun_upd_restrict)
  qed
qed

lemma ufs_free_file_eq:
  assumes "files s a = Some f" and "block_list (blocks s) f as"
  shows "ufs_free_file a s =
    Some (s\<lparr>blocks := (blocks s) |` (- set as), files := (files s)(a := None)\<rparr>)"
proof -
  from assms(2) have "sll next_block (blocks s) (first_block f) as None"
    by (auto simp: block_list_def dest: dll_sll)
  from free_blocks_eq [OF this] assms(1) show ?thesis
    by (simp add: ufs_free_file_def free_file_def)
qed

lemma destroy_files_empty:
  assumes "sll next_file (files s) p as None" and "set as = dom (files s)"
    and "blocks_rel bm (files s) (blocks s)"
  shows "destroy_files p s = Some (s\<lparr>files := Map.empty, blocks := Map.empty\<rparr>)"
  using assms
proof (induction as arbitrary: p s)
  case Nil
  then have "files s = Map.empty" "blocks s = Map.empty" by (auto simp: blocks_rel_def)
  with Nil show ?case by (simp add: destroy_files.simps)
next
  case (Cons a as)
  from Cons.prems(1) obtain f where f: "files s a = Some f" "p = Some a"
    "sll next_file (files s) (next_file f) as None" by (auto split: option.splits)
  from Cons.prems(1) have a: "a \<notin> set as" using sll_distinct by fastforce
  let ?s = "s\<lparr>blocks := (blocks s) |` (- set (bm a)), files := (files s)(a := None)\<rparr>"
  have sel: "files ?s = (files s)(a := None)" "blocks ?s = (blocks s) |` (- set (bm a))"
    by simp_all
  have "destroy_files (next_file f) ?s = Some (?s\<lparr>files := Map.empty, blocks := Map.empty\<rparr>)"
  proof (rule Cons.IH)
    show "sll next_file (files ?s) (next_file f) as None"
      unfolding sel using f(3) a by (simp add: link_simps)
    show "set as = dom (files ?s)"
      unfolding sel using Cons.prems(2) a by auto
    show "blocks_rel bm (files ?s) (blocks ?s)"
      unfolding sel by (rule blocks_rel_dropped [OF Cons.prems(3) f(1)])
  qed
  with f show ?case
    using ufs_free_file_eq [OF f(1) blocks_relD(1) [OF Cons.prems(3) f(1)]]
    by (simp add: destroy_files.simps [of "Some a"])
qed

lemma destroy_call_frees:
  assumes "ufs_inv s"
  shows "ufs_destroy s = Some (ufs_start\<lparr>ufs_error_code := ufs_error_code s, fresh_addr := fresh_addr s\<rparr>)"
proof -
  from assms obtain fl bm where rel: "ufs_rel fl bm s" by (auto simp: ufs_inv_def)
  note table = ufs_relD(3) [OF rel]
  let ?s1 = "s\<lparr>descs := Map.empty, file_descriptors := None, file_descriptor_capacity := 0,
    file_descriptor_used := 0\<rparr>"
  have descs: "(if file_descriptor_capacity s > 0 \<or> file_descriptors s \<noteq> None
      then do {
        s \<leftarrow> for_each [0..<nat (file_descriptor_capacity s)] destroy_desc s;
        Some (s\<lparr>file_descriptors := None\<rparr>) }
      else Some s) = Some (s\<lparr>descs := Map.empty, file_descriptors := None\<rparr>)"
  proof (cases "file_descriptors s")
    case None
    with table have "descs s = Map.empty" "file_descriptor_capacity s = 0"
      by (auto simp: table_rel_def desc_table_def)
    with None show ?thesis by simp
  next
    case (Some t)
    then have t: "desc_table s = t" by (simp add: desc_table_def)
    with table have "nat (file_descriptor_capacity s) = length t" "distinct (slots t)"
      "set (slots t) = dom (descs s)" by (auto simp: table_rel_def)
    moreover have "(descs s) |` (- dom (descs s)) = Map.empty"
      by (auto simp: restrict_map_def fun_eq_iff)
    ultimately show ?thesis
      using destroy_descs_eq [OF Some, of 0] Some by simp
  qed
  have "sll next_file (files ?s1) (file_list s) fl None" "set fl = dom (files ?s1)"
    using ufs_relD(1) [OF rel] by (auto simp: files_rel_def dest: dll_sll)
  moreover have "blocks_rel bm (files ?s1) (blocks ?s1)" using ufs_relD(2) [OF rel] by simp
  ultimately have "destroy_files (file_list s) ?s1 = Some (?s1\<lparr>files := Map.empty, blocks := Map.empty\<rparr>)"
    by (rule destroy_files_empty)
  with descs show ?thesis by (simp add: ufs_destroy_def ufs_start_def)
qed

end
