(* ===== verification/UserfsBlocks.thy ===== *)
theory UserfsBlocks
  imports Prelude
begin

section \<open>The file system: writing and reading on lists of blocks\<close>

text \<open>
  The middle layer of the refinement: a file as the list of its blocks, each with its
  memory and the number of bytes it says are used, and what the loops of \<open>ufs_write\<close>,
  \<open>ufs_read\<close> and \<open>ufs_resize\<close> do to that list. Nothing here knows about pointers;
  \<open>UserfsWrite\<close>, \<open>UserfsRead\<close> and \<open>UserfsResize\<close> show that the code does the same.
  \<open>tight\<close> says when the list stands for a file of \<open>n\<close> bytes: every block but the last is
  full and the last one is used up to the end of the file. On tight lists the operations
  are shown to be the expected ones on byte sequences.
\<close>

type_synonym blk = "cell list \<times> int option"

abbreviation BS :: nat where "BS \<equiv> 512"

definition raw :: "blk list \<Rightarrow> cell list" where
  "raw L = concat (map fst L)"

definition sized :: "blk list \<Rightarrow> bool" where
  "sized L \<longleftrightarrow> (\<forall>b \<in> set L. length (fst b) = BS)"

definition full :: "blk list \<Rightarrow> bool" where
  "full L \<longleftrightarrow> (\<forall>b \<in> set L. length (fst b) = BS \<and> snd b = Some (int BS))"

definition tight :: "blk list \<Rightarrow> nat \<Rightarrow> bool" where
  "tight L n \<longleftrightarrow>
     (if L = [] then n = 0
      else full (butlast L) \<and> length (fst (last L)) = BS \<and>
           0 < n \<and> BS * (length L - 1) < n \<and> n \<le> BS * length L \<and>
           snd (last L) = Some (int n - int (BS * (length L - 1))))"

lemma raw_simps [simp]:
  "raw [] = []" "raw (b # L) = fst b @ raw L" "raw (L @ M) = raw L @ raw M"
  by (simp_all add: raw_def)

lemma full_simps [simp]:
  "full []" "full (b # L) \<longleftrightarrow> length (fst b) = BS \<and> snd b = Some (int BS) \<and> full L"
  "full (L @ M) \<longleftrightarrow> full L \<and> full M"
  by (auto simp: full_def)

lemma sized_simps [simp]:
  "sized []" "sized (b # L) \<longleftrightarrow> length (fst b) = BS \<and> sized L"
  "sized (L @ M) \<longleftrightarrow> sized L \<and> sized M"
  by (auto simp: sized_def)

lemma length_raw: "sized L \<Longrightarrow> length (raw L) = BS * length L"
  by (induction L) simp_all

lemma full_sized: "full L \<Longrightarrow> sized L"
  by (simp add: full_def sized_def)

lemma tight_Nil [simp]: "tight [] n \<longleftrightarrow> n = 0"
  by (simp add: tight_def)

lemma tight_snoc [simp]:
  "tight (L @ [b]) n \<longleftrightarrow> full L \<and> length (fst b) = BS \<and> BS * length L < n \<and>
     n \<le> BS * length L + BS \<and> snd b = Some (int n - int (BS * length L))"
  by (auto simp: tight_def)

lemma full_tight: "full L \<longleftrightarrow> tight L (BS * length L)"
  by (cases L rule: rev_exhaust) auto

lemma tight_sized: "tight L n \<Longrightarrow> sized L"
  by (cases L rule: rev_exhaust) (auto simp: full_sized)

lemma tight_length: "tight L n \<Longrightarrow> length L = (n + 511) div BS"
  by (cases L rule: rev_exhaust) auto

lemma tight_bound: "tight L n \<Longrightarrow> n \<le> BS * length L"
  by (cases L rule: rev_exhaust) auto

text \<open>Two ways a tight list can end.\<close>

lemma tight_cases:
  assumes "tight L n"
  obtains (full) "full L" "n = BS * length L"
  | (partial) M m k where "L = M @ [(m, Some (int k))]" "full M" "length m = BS" "0 < k" "k < BS"
      "n = BS * length M + k"
proof (cases L rule: rev_exhaust)
  case Nil
  with assms full show thesis by simp
next
  case (snoc M b)
  show thesis
  proof (cases "n = BS * length L")
    case True
    with assms full_tight full show thesis by blast
  next
    case False
    with assms snoc partial [of M "fst b" "n - BS * length M"] show thesis
      by (cases b) (auto simp: of_nat_diff)
  qed
qed

subsection \<open>Writing\<close>

text \<open>One \<open>memcpy\<close> into a block, and the update of its used count.\<close>

definition lput :: "nat \<Rightarrow> cell list \<Rightarrow> blk \<Rightarrow> blk" where
  "lput r data b = (overwrite (fst b) r data,
     map_option (\<lambda>k. max k (int (r + length data))) (snd b))"

definition lnew :: blk where
  "lnew = (replicate BS None, Some 0)"

text \<open>
  The first pass of the write loop: it writes to block \<open>i\<close> if there is one that is not
  full, and to a new block at the end of the file otherwise.
\<close>

definition lchunk :: "blk list \<Rightarrow> nat \<Rightarrow> nat \<Rightarrow> cell list \<Rightarrow> blk list" where
  "lchunk L i r data =
     (if i < length L \<and> snd (L ! i) \<noteq> Some (int BS) then L[i := lput r data (L ! i)]
      else L @ [lput r data lnew])"

text \<open>The passes after it find the block they last wrote full, and append.\<close>

function lrest :: "blk list \<Rightarrow> cell list \<Rightarrow> blk list" where
  "lrest L data =
     (if data = [] then L else lrest (L @ [lput 0 (take BS data) lnew]) (drop BS data))"
  by pat_completeness auto
termination by (relation "measure (\<lambda>(L, data). length data)") auto

declare lrest.simps [simp del]

definition lwrite :: "blk list \<Rightarrow> nat \<Rightarrow> cell list \<Rightarrow> blk list" where
  "lwrite L pos data =
     (let r = pos mod BS; c = BS - r
      in lrest (lchunk L (pos div BS) r (take c data)) (drop c data))"

lemma length_lput [simp]:
  "length (fst b) = BS \<Longrightarrow> r + length data \<le> BS \<Longrightarrow> length (fst (lput r data b)) = BS"
  by (simp add: lput_def)

lemma lput_new:
  "lput 0 data lnew = (data @ replicate (BS - length data) None, Some (int (length data)))"
  by (simp add: lput_def lnew_def overwrite_def)

lemma lrest_full:
  "full L \<Longrightarrow> tight (lrest L data) (BS * length L + length data) \<and>
     (\<exists>pad. raw (lrest L data) = raw L @ data @ replicate pad None)"
proof (induction L data rule: lrest.induct)
  case (1 L data)
  consider "data = []" | "data \<noteq> []" "length data < BS" | "BS \<le> length data" by force
  then show ?case
  proof cases
    case 1
    with "1.prems" show ?thesis by (simp add: lrest.simps full_tight)
  next
    case 2
    then have "lrest L data = L @ [lput 0 data lnew]" by (simp add: lrest.simps)
    with 2 "1.prems" show ?thesis by (auto simp: lput_new)
  next
    case 3
    let ?L = "L @ [lput 0 (take BS data) lnew]"
    have ne: "data \<noteq> []" using 3 by auto
    have eq: "lrest L data = lrest ?L (drop BS data)" using ne by (simp add: lrest.simps [of L])
    have put: "lput 0 (take BS data) lnew = (take BS data, Some (int BS))"
      using 3 by (simp add: lput_new min_def)
    have "full ?L" using "1.prems" 3 by (simp add: put min_def)
    from "1.IH" [OF ne this] 3 show ?thesis unfolding eq by (auto simp: put)
  qed
qed

text \<open>
  On a tight list, a write that starts in the last, partly used block or at the end of the
  file has the effect of a write on the byte sequence.
\<close>

lemma lwrite_tight:
  assumes tight: "tight L n" and pos: "pos \<le> n" "n div BS \<le> pos div BS" and data: "data \<noteq> []"
  shows "tight (lwrite L pos data) (max n (pos + length data)) \<and>
    (\<exists>pad. raw (lwrite L pos data) = overwrite (raw L @ replicate pad None) pos data)"
  using tight
proof (cases rule: tight_cases)
  case full
  with pos have p: "pos = BS * length L" by (simp add: div_le_mono)
  have "lwrite L pos data = lrest L data"
    using data p by (simp add: lwrite_def lchunk_def lrest.simps [of L])
  moreover obtain pad where "tight (lrest L data) (BS * length L + length data)"
    "raw (lrest L data) = raw L @ data @ replicate pad None"
    using lrest_full [OF full(1), of data] by blast
  moreover have "raw L @ data @ replicate pad None =
      overwrite (raw L @ replicate (length data + pad) None) pos data"
    using full(1) p by (simp add: overwrite_def length_raw full_sized)
  ultimately show ?thesis using p full(2) by (metis le_add1 max.absorb2)
next
  case (partial M m k)
  let ?r = "pos mod BS" and ?c = "BS - pos mod BS"
  from partial(5,6) have "n div BS = length M" by simp
  with pos partial(6) have i: "pos div BS = length M"
    by (metis div_le_mono le_antisym)
  then have p: "pos = BS * length M + ?r" by (metis mult_div_mod_eq)
  then have pr: "pos - BS * length M = ?r" by linarith
  from p pos partial(6) have r: "?r \<le> k" by linarith
  have chunk: "lchunk L (pos div BS) ?r (take ?c data) = M @ [lput ?r (take ?c data) (m, Some (int k))]"
    using partial by (simp add: lchunk_def i)
  have lenM: "length (raw M) = BS * length M" using partial(2) by (simp add: length_raw full_sized)
  show ?thesis
  proof (cases "length data \<le> ?c")
    case True
    then have d: "take ?c data = data" "drop ?c data = []" by simp_all
    have "lwrite L pos data = lchunk L (pos div BS) ?r data"
      by (simp add: lwrite_def Let_def d lrest.simps [of _ "[]"])
    also have "\<dots> = M @ [(overwrite m ?r data, Some (max (int k) (int (?r + length data))))]"
      using chunk unfolding d by (simp add: lput_def)
    finally have "lwrite L pos data = M @ [(overwrite m ?r data, Some (max (int k) (int (?r + length data))))]" .
    moreover have "raw M @ overwrite m ?r data = overwrite (raw M @ m) pos data"
      using p lenM pr by (simp add: overwrite_append_right)
    moreover have "max n (pos + length data) = BS * length M + max k (?r + length data)"
      using p unfolding partial(6) by linarith
    moreover have "?r + length data \<le> BS" using True by (simp add: le_diff_conv2 add.commute)
    ultimately show ?thesis
      using partial(1-5) by (intro conjI exI [of _ 0]) (simp_all add: of_nat_max)
  next
    case False
    let ?L = "M @ [lput ?r (take ?c data) (m, Some (int k))]"
    have put: "lput ?r (take ?c data) (m, Some (int k)) = (take ?r m @ take ?c data, Some (int BS))"
      using False partial(3,5) by (simp add: lput_def overwrite_def min_def max_def)
    have "full ?L" using partial(2,3) False by (simp add: put min_def)
    from lrest_full [OF this, of "drop ?c data"] obtain pad where
      rest: "tight (lrest ?L (drop ?c data)) (BS * length ?L + length (drop ?c data))"
        "raw (lrest ?L (drop ?c data)) = raw ?L @ drop ?c data @ replicate pad None" by blast
    have "lwrite L pos data = lrest ?L (drop ?c data)" by (simp add: lwrite_def Let_def chunk)
    moreover have "max n (pos + length data) = BS * length ?L + length (drop ?c data)"
      using False partial p by simp
    moreover have "raw ?L @ drop ?c data @ replicate pad None =
        overwrite (raw L @ replicate (length data - ?c + pad) None) pos data"
    proof -
      have "overwrite (raw L @ replicate (length data - ?c + pad) None) pos data =
          raw M @ overwrite (m @ replicate (length data - ?c + pad) None) ?r data"
        using p lenM pr partial(1) by (simp add: overwrite_append_right)
      moreover have "?r + length data - BS = length data - ?c" by simp
      ultimately show ?thesis
        using False partial(3) by (simp add: put overwrite_def)
    qed
    ultimately show ?thesis using rest by metis
  qed
qed

text \<open>
  A write that starts inside a full block does not change any block the file has: all the
  data goes to new blocks after the last one.
\<close>

lemma lrest_prefix: "\<exists>M. lrest L data = L @ M"
proof (induction L data rule: lrest.induct)
  case (1 L data)
  show ?case
  proof (cases "data = []")
    case True
    then show ?thesis by (simp add: lrest.simps [of L "[]"])
  next
    case False
    with "1.IH" show ?thesis by (auto simp: lrest.simps [of L data])
  qed
qed

lemma lwrite_full_block:
  assumes "pos div BS < length L" and "snd (L ! (pos div BS)) = Some (int BS)"
  shows "\<exists>M. lwrite L pos data = L @ M"
proof -
  have "lchunk L (pos div BS) (pos mod BS) d = L @ [lput (pos mod BS) d lnew]" for d
    using assms by (simp add: lchunk_def)
  then show ?thesis
    using lrest_prefix [of "L @ [lput (pos mod BS) (take (BS - pos mod BS) data) lnew]"
        "drop (BS - pos mod BS) data"]
    by (auto simp: lwrite_def Let_def)
qed

lemma tight_full_block: "tight L n \<Longrightarrow> i < n div BS \<Longrightarrow> i < length L \<and> snd (L ! i) = Some (int BS)"
proof (erule tight_cases)
  assume "i < n div BS" "full L" "n = BS * length L"
  then show ?thesis by (simp add: full_def)
next
  fix M m k assume "i < n div BS" "L = M @ [(m, Some (int k))]" "full M" "k < BS" "n = BS * length M + k"
  then show ?thesis by (simp add: full_def nth_append)
qed

lemma tight_write_lost:
  assumes "tight L n" and "pos div BS < n div BS"
  shows "\<exists>M. lwrite L pos data = L @ M"
  using tight_full_block [OF assms] by (intro lwrite_full_block) simp_all

subsection \<open>Reading\<close>

text \<open>The read loop, from the block that holds the position on.\<close>

fun lread :: "blk list \<Rightarrow> nat \<Rightarrow> nat \<Rightarrow> cell list" where
  "lread [] pos sz = []"
| "lread ((m, None) # L) pos sz = []"
| "lread ((m, Some k) # L) pos sz =
     (if sz = 0 \<or> k \<le> int (pos mod BS) then []
      else let c = min (nat k - pos mod BS) sz
           in take c (drop (pos mod BS) m) @ lread L (pos + c) (sz - c))"

lemma tight_Cons:
  "L \<noteq> [] \<Longrightarrow> tight (b # L) n \<longleftrightarrow> full [b] \<and> BS < n \<and> tight L (n - BS)"
  by (cases L rule: rev_exhaust) (auto simp flip: append_Cons)

lemma tight_drop: "tight L n \<Longrightarrow> BS * i \<le> n \<Longrightarrow> tight (drop i L) (n - BS * i)"
proof (induction i arbitrary: L n)
  case (Suc i)
  show ?case
  proof (cases L)
    case (Cons b M)
    show ?thesis
    proof (cases "M = []")
      case True
      with Suc.prems Cons have "n = BS" "i = 0" using tight_bound [OF Suc.prems(1)] by simp_all
      with True Cons show ?thesis by simp
    next
      case False
      with Suc.prems(1) Cons have "tight M (n - BS)" "BS < n" by (simp_all add: tight_Cons)
      moreover from this Suc.prems(2) have "tight (drop i M) (n - BS - BS * i)"
        by (intro Suc.IH) simp_all
      ultimately show ?thesis using Cons by (simp add: algebra_simps)
    qed
  qed (use Suc.prems in simp)
qed simp

lemma lread_0 [simp]: "lread L pos 0 = []"
  by (cases "(L, pos, 0::nat)" rule: lread.cases) auto

lemma up_to_boundary: "r < (B::nat) \<Longrightarrow> B * q + r = p \<Longrightarrow> p + (B - r) = B * Suc q"
  by simp

lemma lread_single:
  "length m = BS \<Longrightarrow> n \<le> BS \<Longrightarrow>
     lread [(m, Some (int n))] pos sz = take sz (drop (pos mod BS) (take n m))"
  by (cases "sz = 0 \<or> n \<le> pos mod BS") (auto simp: drop_take min.commute)

lemma lread_tight: "tight L n \<Longrightarrow> lread L pos sz = take sz (drop (pos mod BS) (take n (raw L)))"
proof (induction L arbitrary: n pos sz)
  case (Cons b L)
  obtain m k where b: "b = (m, k)" by (cases b)
  let ?r = "pos mod BS"
  show ?case
  proof (cases "L = []")
    case True
    with Cons.prems b have "k = Some (int n)" "length m = BS" "n \<le> BS"
      using tight_snoc [of "[]" b n] by simp_all
    then show ?thesis using lread_single [of m n pos sz] True b by simp
  next
    case False
    with Cons.prems b have *: "k = Some (int BS)" "length m = BS" "BS < n" "tight L (n - BS)"
      by (simp_all add: tight_Cons)
    have r: "?r < BS" by simp
    have tk: "take n (raw (b # L)) = m @ take (n - BS) (raw L)" using * b by simp
    show ?thesis
    proof (cases "sz \<le> BS - ?r")
      case True
      then have "lread (b # L) pos sz = take sz (drop ?r m)" using b * by (simp add: min_def)
      moreover have "take sz (drop ?r (m @ X)) = take sz (drop ?r m)" for X
        using True * by simp
      ultimately show ?thesis unfolding tk by metis
    next
      case False
      have "pos + (BS - ?r) = BS * Suc (pos div BS)" 
        by (rule up_to_boundary [OF r mult_div_mod_eq])
      then have "(pos + (BS - ?r)) mod BS = 0" by simp
      then have IH: "lread L (pos + (BS - ?r)) (sz - (BS - ?r)) =
          take (sz - (BS - ?r)) (take (n - BS) (raw L))"
        using Cons.IH [OF *(4), of "pos + (BS - ?r)" "sz - (BS - ?r)"] by simp
      have "lread (b # L) pos sz = drop ?r m @ lread L (pos + (BS - ?r)) (sz - (BS - ?r))"
        using b * False by (simp add: Let_def min_def iffD2 [OF not_le r])
      also have "\<dots> = take sz (drop ?r (m @ take (n - BS) (raw L)))"
        unfolding IH using False * by (simp add: less_imp_le [OF r])
      finally show ?thesis unfolding tk .
    qed
  qed
qed simp

text \<open>Reading a tight file is reading its byte sequence.\<close>

lemma lread_contents:
  assumes "tight L n" and "pos < n"
  shows "lread (drop (pos div BS) L) pos sz = take sz (drop pos (take n (raw L)))"
proof -
  let ?i = "pos div BS"
  have le: "BS * ?i \<le> pos" by simp
  have i: "?i \<le> length L" using assms tight_bound [OF assms(1)] by simp
  have raw: "raw L = raw (take ?i L) @ raw (drop ?i L)" by (simp flip: raw_simps(3))
  have "sized (take ?i L)" using tight_sized [OF assms(1)] by (auto simp: sized_def dest: in_set_takeD)
  then have len: "length (raw (take ?i L)) = BS * ?i" using i by (simp add: length_raw min_def)
  have "lread (drop ?i L) pos sz = take sz (drop (pos mod BS) (take (n - BS * ?i) (raw (drop ?i L))))"
    using assms(2) le by (intro lread_tight tight_drop [OF assms(1)]) simp
  also have "\<dots> = take sz (drop pos (take n (raw L)))"
    using assms(2) le len by (subst raw) (simp add: minus_mult_div_eq_mod)
  finally show ?thesis .
qed

subsection \<open>Resizing\<close>

definition blocks_for :: "nat \<Rightarrow> nat" where
  "blocks_for n = (n + 511) div BS"

definition locc :: "nat \<Rightarrow> int" where
  "locc n = (if n mod BS = 0 then int BS else int (n mod BS))"

definition lset_last :: "int \<Rightarrow> blk list \<Rightarrow> blk list" where
  "lset_last k L = (if L = [] then [] else butlast L @ [(fst (last L), Some k)])"

definition lzero :: blk where
  "lzero = (replicate BS (Some 0), None)"

definition lcut :: "blk list \<Rightarrow> nat \<Rightarrow> nat \<Rightarrow> blk list" where
  "lcut L j n = lset_last (locc n) (take (length L - j) L)"

definition lgrow :: "blk list \<Rightarrow> blk list" where
  "lgrow L = lset_last (int BS) L @ [lzero]"

definition lextend :: "blk list \<Rightarrow> nat \<Rightarrow> nat \<Rightarrow> blk list" where
  "lextend L j n = lset_last (locc n) ((lgrow ^^ j) L)"

lemma lset_last_simps [simp]:
  "lset_last k [] = []" "lset_last k (L @ [b]) = L @ [(fst b, Some k)]"
  "lset_last k L = [] \<longleftrightarrow> L = []" "length (lset_last k L) = length L"
  by (simp_all add: lset_last_def)

lemma raw_lset_last [simp]: "raw (lset_last k L) = raw L"
  by (cases L rule: rev_exhaust) simp_all

lemma sized_lset_last [simp]: "sized (lset_last k L) \<longleftrightarrow> sized L"
  by (cases L rule: rev_exhaust) simp_all

lemma tight_length_eq: "tight L n \<Longrightarrow> length L = blocks_for n"
  by (simp add: blocks_for_def tight_length)

lemma locc_eq:
  assumes "BS * i < n" and "n \<le> BS * i + BS"
  shows "locc n = int n - int (BS * i)"
proof (cases "n = BS * i + BS")
  case False
  with assms obtain k where "n = BS * i + k" "0 < k" "k < BS"
    by (metis add_diff_inverse_nat nat_add_left_cancel_less not_less_iff_gr_or_eq le_eq_less_or_eq
        less_imp_add_positive)
  then show ?thesis by (simp add: locc_def)
qed (simp add: locc_def)

text \<open>All blocks but the last full: what is left to make a list tight is to set its last count.\<close>

lemma tight_lset_last:
  assumes "full (butlast L)" and "sized L" and "length L = blocks_for n"
  shows "tight (lset_last (locc n) L) n"
proof (cases L rule: rev_exhaust)
  case Nil
  with assms(3) show ?thesis by (simp add: blocks_for_def)
next
  case (snoc M b)
  with assms have "(n + 511) div 512 = Suc (length M)" by (simp add: blocks_for_def)
  then have "BS * length M < n" "n \<le> BS * length M + BS" by linarith+
  moreover from this have "locc n = int n - int (BS * length M)"
    using locc_eq by blast
  ultimately show ?thesis using snoc assms by simp
qed

lemma full_take: "full L \<Longrightarrow> full (take i L)"
  by (auto simp: full_def dest: in_set_takeD)

lemma tight_butlast: "tight L n \<Longrightarrow> full (butlast L)"
  by (cases L rule: rev_exhaust) simp_all

lemma lcut_tight:
  assumes "tight L n" and "n' < n" and "j = blocks_for n - blocks_for n'"
  shows "tight (lcut L j n') n' \<and> raw (lcut L j n') = take (BS * blocks_for n') (raw L)"
proof -
  have len: "length L = blocks_for n" by (rule tight_length_eq [OF assms(1)])
  have le: "blocks_for n' \<le> blocks_for n" using assms(2) by (simp add: blocks_for_def div_le_mono)
  with assms(3) len have "length L - j = blocks_for n'" by simp
  then have cut: "lcut L j n' = lset_last (locc n') (take (blocks_for n') L)" by (simp add: lcut_def)
  have "butlast (take (blocks_for n') L) = take (blocks_for n' - 1) (butlast L)"
    using le len by (simp add: butlast_take butlast_conv_take min_def)
  then have "full (butlast (take (blocks_for n') L))"
    using tight_butlast [OF assms(1)] by (simp add: full_take)
  moreover have sized: "sized (take i L)" for i
    using tight_sized [OF assms(1)] by (auto simp: sized_def dest: in_set_takeD)
  moreover have "raw (take i L) = take (BS * i) (raw L)" if "i \<le> length L" for i
  proof -
    have "raw L = raw (take i L) @ raw (drop i L)" by (simp flip: raw_simps(3))
    moreover have "length (raw (take i L)) = BS * i" using sized that by (simp add: length_raw min_def)
    ultimately show ?thesis by simp
  qed
  ultimately show ?thesis
    using le len unfolding cut by (intro conjI tight_lset_last) simp_all
qed

lemma lgrow_steps:
  assumes "tight L n" and "0 < j"
  shows "full (butlast ((lgrow ^^ j) L)) \<and> sized ((lgrow ^^ j) L) \<and>
    length ((lgrow ^^ j) L) = length L + j \<and>
    raw ((lgrow ^^ j) L) = raw L @ replicate (BS * j) (Some 0)"
  using assms(2)
proof (induction j)
  case (Suc j)
  have step: "full (lset_last (int BS) M)" if "full (butlast M)" "sized M" for M
    using that by (cases M rule: rev_exhaust) simp_all
  show ?case
  proof (cases "j = 0")
    case True
    have "full (lset_last (int BS) L)"
      using tight_butlast [OF assms(1)] tight_sized [OF assms(1)] by (rule step)
    with True show ?thesis using tight_sized [OF assms(1)] by (simp add: lgrow_def lzero_def)
  next
    case False
    with Suc show ?thesis using step
      by (simp add: lgrow_def lzero_def full_sized add.commute [of BS] replicate_add)
  qed
qed simp

lemma lextend_tight:
  assumes "tight L n" and "n < n'" and "j = blocks_for n' - blocks_for n"
  shows "tight (lextend L j n') n' \<and> raw (lextend L j n') = raw L @ replicate (BS * j) (Some 0)"
proof -
  have len: "length L = blocks_for n" by (rule tight_length_eq [OF assms(1)])
  have le: "blocks_for n \<le> blocks_for n'" using assms(2) by (simp add: blocks_for_def div_le_mono)
  let ?M = "(lgrow ^^ j) L"
  have "full (butlast ?M) \<and> sized ?M \<and> length ?M = length L + j \<and>
      raw ?M = raw L @ replicate (BS * j) (Some 0)"
    using lgrow_steps [OF assms(1), of j] tight_butlast [OF assms(1)] tight_sized [OF assms(1)]
    by (cases "j = 0") simp_all
  with le len assms(3) show ?thesis by (simp add: lextend_def tight_lset_last)
qed

end
