(* ===== verification/UserfsData.thy ===== *)
theory UserfsData
  imports UserfsClose UserfsBlocks
begin

section \<open>The file system: changing the blocks of one file\<close>

text \<open>
  What \<open>ufs_write\<close>, \<open>ufs_read\<close> and \<open>ufs_resize\<close> share. \<open>view\<close> reads the list of
  blocks of \<open>UserfsBlocks\<close> off the heap. \<open>only_file a\<close> says that a call touched nothing
  but the file \<open>a\<close>, its blocks and the offsets of its descriptors; under it the
  invariant has to be reproved for that file only. The rest is the walk from the first
  block and the two ways of adding a block at the end.
\<close>

subsection \<open>The blocks of a file\<close>

definition view :: "(addr \<rightharpoonup> block) \<Rightarrow> addr list \<Rightarrow> blk list" where
  "view bs as = map (\<lambda>b. case bs b of None \<Rightarrow> ([], None) | Some x \<Rightarrow> (memory x, occupied x)) as"

lemma view_simps [simp]:
  "view bs [] = []" "view bs (xs @ ys) = view bs xs @ view bs ys" "length (view bs as) = length as"
  "view bs (b # as) = (case bs b of None \<Rightarrow> ([], None) | Some x \<Rightarrow> (memory x, occupied x)) # view bs as"
  by (simp_all add: view_def)

lemma nth_view: "i < length as \<Longrightarrow> bs (as ! i) = Some x \<Longrightarrow> view bs as ! i = (memory x, occupied x)"
  by (simp add: view_def)

lemma raw_view: "raw_data bs as = raw (view bs as)"
proof -
  have "map (block_memory bs) as = map fst (view bs as)"
    by (simp add: view_def block_memory_def comp_def split: option.splits)
  then show ?thesis by (simp add: raw_data_def raw_def)
qed

lemma view_cong: "(\<And>b. b \<in> set as \<Longrightarrow> bs b = cs b) \<Longrightarrow> view bs as = view cs as"
  by (simp add: view_def)

lemma view_upd_other [simp]: "b \<notin> set as \<Longrightarrow> view (bs(b := x)) as = view bs as"
  by (rule view_cong) auto

lemma view_upd:
  assumes "distinct as" and "i < length as"
  shows "view (bs(as ! i \<mapsto> x)) as = (view bs as)[i := (memory x, occupied x)]"
  using assms by (intro nth_equalityI) (auto simp: view_def nth_list_update nth_eq_iff_index_eq)

definition file_view :: "ufs \<Rightarrow> ufile \<Rightarrow> blk list" where
  "file_view s f = (case walk next_block (blocks s) (first_block f) of
     None \<Rightarrow> [] | Some as \<Rightarrow> view (blocks s) as)"

lemma file_view_eq: "block_list (blocks s) f as \<Longrightarrow> file_view s f = view (blocks s) as"
  using walk_dll [of next_block prev_block "blocks s" None "first_block f" as]
  by (simp add: file_view_def block_list_def)

subsection \<open>Calls that touch one file\<close>

definition only_file :: "addr \<Rightarrow> (addr \<Rightarrow> addr list) \<Rightarrow> ufs \<Rightarrow> ufs \<Rightarrow> bool" where
  "only_file a bm s t \<longleftrightarrow>
     file_list t = file_list s \<and> file_descriptors t = file_descriptors s \<and>
     file_descriptor_capacity t = file_descriptor_capacity s \<and>
     file_descriptor_used t = file_descriptor_used s \<and> ufs_error_code t = ufs_error_code s \<and>
     fresh_addr s \<le> fresh_addr t \<and>
     (\<forall>d. map_option desc_file (descs t d) = map_option desc_file (descs s d)) \<and>
     (\<forall>d. map_option desc_file (descs s d) \<noteq> Some a \<longrightarrow> descs t d = descs s d) \<and>
     (\<exists>f g. files s a = Some f \<and> files t = (files s)(a \<mapsto> g) \<and> name g = name f \<and>
        is_ghost g = is_ghost f \<and> refs g = refs f \<and> next_file g = next_file f \<and> prev_file g = prev_file f) \<and>
     (\<forall>c \<in> dom (files s) - {a}. \<forall>b \<in> set (bm c). blocks t b = blocks s b)"

text \<open>What has to hold of the file itself.\<close>

definition file_part :: "addr \<Rightarrow> (addr \<Rightarrow> addr list) \<Rightarrow> addr list \<Rightarrow> ufs \<Rightarrow> bool" where
  "file_part a bm as t \<longleftrightarrow>
     (\<exists>g. files t a = Some g \<and> block_list (blocks t) g as \<and> file_size g \<le> BLOCK_SIZE * length as) \<and>
     dom (blocks t) = set as \<union> (\<Union>c \<in> dom (files t) - {a}. set (bm c)) \<and>
     (\<forall>c \<in> dom (files t) - {a}. set as \<inter> set (bm c) = {}) \<and>
     (\<forall>b \<in> set as. b < fresh_addr t) \<and>
     (\<forall>d x. descs t d = Some x \<longrightarrow> desc_file x = a \<longrightarrow> offset x \<le> BLOCK_SIZE * length as)"

lemma only_fileE:
  assumes "only_file a bm s t"
  obtains f g where "files s a = Some f" "files t = (files s)(a \<mapsto> g)"
    "name g = name f" "is_ghost g = is_ghost f" "refs g = refs f" "next_file g = next_file f"
    "prev_file g = prev_file f"
  using assms unfolding only_file_def by (elim conjE exE) (rule that)

lemma only_file_dom: "only_file a bm s t \<Longrightarrow> dom (files t) = dom (files s)"
  by (elim only_fileE) (simp add: insert_absorb domI)

lemma only_fileI:
  assumes "files s a = Some f" "files t = (files s)(a \<mapsto> g)" "name g = name f"
    "is_ghost g = is_ghost f" "refs g = refs f" "next_file g = next_file f"
    "prev_file g = prev_file f"
    and "file_list t = file_list s" "file_descriptors t = file_descriptors s"
    "file_descriptor_capacity t = file_descriptor_capacity s"
    "file_descriptor_used t = file_descriptor_used s" "ufs_error_code t = ufs_error_code s"
    "fresh_addr s \<le> fresh_addr t"
    and "\<And>d. map_option desc_file (descs t d) = map_option desc_file (descs s d)"
    and "\<And>d. map_option desc_file (descs s d) \<noteq> Some a \<Longrightarrow> descs t d = descs s d"
    and "\<And>c b. c \<in> dom (files s) - {a} \<Longrightarrow> b \<in> set (bm c) \<Longrightarrow> blocks t b = blocks s b"
  shows "only_file a bm s t"
  unfolding only_file_def using assms by (intro conjI) (blast | simp)+

lemma only_file_refl: "files s a = Some f \<Longrightarrow> only_file a bm s s"
  by (rule only_fileI [of s a f s f]) (simp_all add: fun_upd_idem)

lemma only_file_trans:
  assumes "only_file a bm s t" and "only_file a (bm(a := as)) t u"
  shows "only_file a bm s u"
proof -
  from assms(1) obtain f g where fg: "files s a = Some f" "files t = (files s)(a \<mapsto> g)"
    "name g = name f" "is_ghost g = is_ghost f" "refs g = refs f" "next_file g = next_file f"
    "prev_file g = prev_file f" by (rule only_fileE)
  from assms(2) fg obtain h where h: "files u = (files s)(a \<mapsto> h)"
    "name h = name f" "is_ghost h = is_ghost f" "refs h = refs f" "next_file h = next_file f"
    "prev_file h = prev_file f" by (elim only_fileE) simp
  have dom: "dom (files t) = dom (files s)" using fg(1,2) by auto
  have "blocks u b = blocks s b" if "c \<in> dom (files s) - {a}" "b \<in> set (bm c)" for c b
    using assms that dom unfolding only_file_def by (metis DiffD2 fun_upd_other singletonI)
  moreover have "descs u d = descs s d" if "map_option desc_file (descs s d) \<noteq> Some a" for d
    using assms that unfolding only_file_def by metis
  ultimately show ?thesis using assms fg(1) h unfolding only_file_def by auto
qed

lemma only_file_openers:
  assumes "only_file a bm s t" shows "openers (descs t) c = openers (descs s) c"
proof -
  from assms have "map_option desc_file (descs t d) = map_option desc_file (descs s d)" for d
    by (simp add: only_file_def)
  then have "descs t d \<noteq> None \<and> desc_file (the (descs t d)) = c \<longleftrightarrow>
      descs s d \<noteq> None \<and> desc_file (the (descs s d)) = c" for d
    by (metis map_option_is_None option.map_sel)
  moreover have "openers ds c = {d. ds d \<noteq> None \<and> desc_file (the (ds d)) = c}" for ds
    by (auto simp: openers_def)
  ultimately show ?thesis by simp
qed

lemma only_file_dom_descs: "only_file a bm s t \<Longrightarrow> dom (descs t) = dom (descs s)"
  unfolding only_file_def dom_def by (metis option.map_disc_iff)

lemma only_file_core:
  assumes core: "core_rel fl bm s" and only: "only_file a bm s t" and part: "file_part a bm as t"
  shows "core_rel fl (bm(a := as)) t"
proof -
  from only obtain f g where fg: "files s a = Some f" "files t = (files s)(a \<mapsto> g)"
    "name g = name f" "is_ghost g = is_ghost f" "refs g = refs f" "next_file g = next_file f"
    "prev_file g = prev_file f" by (rule only_fileE)
  have dom: "dom (files t) = dom (files s)" using fg(1,2) by auto
  from part have g: "block_list (blocks t) g as" "file_size g \<le> BLOCK_SIZE * length as"
    using fg(2) by (auto simp: file_part_def)
  have other: "files t c = files s c" if "c \<noteq> a" for c using that fg(2) by simp
  have same: "blocks t b = blocks s b" if "files s c = Some h" "c \<noteq> a" "b \<in> set (bm c)" for c h b
    using only that unfolding only_file_def by auto
  have "files_rel fl (files t) (file_list t)"
    using only files_rel_upd [OF core_relD(1) [OF core] fg(1,6,7)] fg(2) by (simp add: only_file_def)
  moreover have "blocks_rel (bm(a := as)) (files t) (blocks t)"
    unfolding blocks_rel_def
  proof (intro conjI allI impI)
    fix c h assume h: "files t c = Some h"
    show "block_list (blocks t) h ((bm(a := as)) c)"
    proof (cases "c = a")
      case False
      then have h': "files s c = Some h" using h other by simp
      have "dll next_block prev_block (blocks t) None (first_block h) (bm c) None \<longleftrightarrow>
          dll next_block prev_block (blocks s) None (first_block h) (bm c) None"
        by (rule dll_cong) (simp add: same [OF h' False])
      with False blocks_relD(1) [OF core_relD(2) [OF core] h'] show ?thesis
        by (simp add: block_list_def)
    qed (use g h fg(2) in simp)
  next
    fix c e assume "c \<in> dom (files t)" "e \<in> dom (files t)" "c \<noteq> e"
    with part blocks_relD(2) [OF core_relD(2) [OF core], of c e] dom
    show "set ((bm(a := as)) c) \<inter> set ((bm(a := as)) e) = {}"
      unfolding file_part_def by (cases "c = a"; cases "e = a") auto
  next
    have "(\<Union>c \<in> dom (files t). set ((bm(a := as)) c)) =
        set as \<union> (\<Union>c \<in> dom (files t) - {a}. set (bm c))"
      using fg(2) by (auto split: if_splits)
    with part show "dom (blocks t) = (\<Union>c \<in> dom (files t). set ((bm(a := as)) c))"
      by (simp add: file_part_def)
  qed
  moreover have "table_rel t"
  proof -
    have "dom (descs t) = dom (descs s)" by (rule only_file_dom_descs [OF only])
    with core_relD(3) [OF core] only show ?thesis
      by (simp add: table_rel_def only_file_def desc_table_def)
  qed
  moreover have "descs_rel (bm(a := as)) (files t) (descs t)"
    unfolding descs_rel_def
  proof (intro allI impI)
    fix d x assume x: "descs t d = Some x"
    show "desc_file x \<in> dom (files t) \<and> offset x \<le> BLOCK_SIZE * length ((bm(a := as)) (desc_file x))"
    proof (cases "desc_file x = a")
      case True
      with part x fg(2) show ?thesis by (auto simp: file_part_def)
    next
      case False
      with only x have "descs s d = Some x" unfolding only_file_def by (metis option.map_sel option.sel option.simps(3) option.simps(9))
      with core_relD(4) [OF core] False dom show ?thesis by (auto simp: descs_rel_def)
    qed
  qed
  moreover have "refs_rel (files t) (descs t)"
    using refs_relD [OF core_relD(5) [OF core]] fg
    by (auto simp: refs_rel_def only_file_openers [OF only])
  moreover have "sizes_rel (bm(a := as)) (files t)"
    using core_relD(6) [OF core] g(2) fg(2) by (simp add: sizes_rel_def)
  moreover have "names_rel (files t)"
    using names_rel_upd [OF core_relD(7) [OF core] fg(1)] fg by simp
  moreover have "fresh_rel t"
  proof -
    have fr: "fresh_addr s \<le> fresh_addr t" using only by (simp add: only_file_def)
    have dd: "dom (descs t) = dom (descs s)" by (rule only_file_dom_descs [OF only])
    have "b < fresh_addr t" if live: "b \<in> dom (blocks t)" for b
    proof -
      from live have "b \<in> set as \<union> (\<Union>c \<in> dom (files s) - {a}. set (bm c))"
        using part dom unfolding file_part_def by simp
      then consider "b \<in> set as" | c where "c \<in> dom (files s)" "b \<in> set (bm c)"
        by blast
      then show ?thesis
      proof cases
        case 1
        with part show ?thesis by (simp add: file_part_def)
      next
        case 2
        then have "b \<in> dom (blocks s)" using blocks_relD(3) [OF core_relD(2) [OF core]] by auto
        then have "b < fresh_addr s" using core_relD(8) [OF core] by (simp add: fresh_rel_def)
        with fr show ?thesis by simp
      qed
    qed
    moreover have "b < fresh_addr t" if "b \<in> dom (files s) \<union> dom (descs s)" for b
      using that core_relD(8) [OF core] fr unfolding fresh_rel_def by (meson UnI1 UnI2 Un_iff order_less_le_trans)
    ultimately show ?thesis unfolding fresh_rel_def dom dd by blast
  qed
  ultimately show ?thesis by (simp add: core_rel_def)
qed

lemma only_file_ghosts:
  assumes "only_file a bm s t" and "ghosts_rel (files s) (descs s)"
  shows "ghosts_rel (files t) (descs t)"
proof -
  from assms(1) obtain f g where "files s a = Some f" "files t = (files s)(a \<mapsto> g)"
    "is_ghost g = is_ghost f" by (rule only_fileE)
  with assms(2) show ?thesis
    unfolding ghosts_rel_def only_file_openers [OF assms(1)] by simp
qed

lemma only_file_ok:
  assumes core: "core_rel fl bm s" and only: "only_file a bm s t" and part: "file_part a bm as t"
    and ok: "blocks_ok (blocks s)" and "\<And>b x. b \<in> set as \<Longrightarrow> blocks t b = Some x \<Longrightarrow> block_ok x"
  shows "blocks_ok (blocks t)"
  unfolding blocks_ok_def
proof
  fix x assume "x \<in> ran (blocks t)"
  then obtain b where b: "blocks t b = Some x" by (auto simp: ran_def)
  have "dom (files t) = dom (files s)" by (rule only_file_dom [OF only])
  then have "b \<in> set as \<union> (\<Union>c \<in> dom (files s) - {a}. set (bm c))"
    using b part unfolding file_part_def by (metis domI)
  then consider "b \<in> set as" | c where "c \<in> dom (files s) - {a}" "b \<in> set (bm c)" by blast
  then show "block_ok x"
  proof cases
    case 2
    then have "blocks s b = Some x" using only b unfolding only_file_def by metis
    with ok show ?thesis by (auto simp: blocks_ok_def ran_def)
  qed (use b assms(5) in simp)
qed

lemma only_file_rel:
  assumes "ufs_rel fl bm s" and "only_file a bm s t" and "file_part a bm as t"
    and "\<And>b x. b \<in> set as \<Longrightarrow> blocks t b = Some x \<Longrightarrow> block_ok x"
  shows "ufs_rel fl (bm(a := as)) t"
  using only_file_core [OF ufs_rel_coreD [OF assms(1)] assms(2,3)]
    only_file_ghosts [OF assms(2) ufs_rel_ghostsD [OF assms(1)]]
    only_file_ok [OF ufs_rel_coreD [OF assms(1)] assms(2,3) ufs_rel_okD [OF assms(1)] assms(4)]
  by (simp add: ufs_rel_def)

text \<open>The parts of the invariant that speak about one file.\<close>

lemma core_file_part:
  assumes "core_rel fl bm s" and "files s a = Some f"
  shows "file_part a bm (bm a) s"
proof -
  have "(\<Union>c \<in> dom (files s). set (bm c)) = set (bm a) \<union> (\<Union>c \<in> dom (files s) - {a}. set (bm c))"
    using assms(2) by auto
  moreover have "b < fresh_addr s" if "b \<in> set (bm a)" for b
  proof -
    have "b \<in> dom (blocks s)" using that assms(2) blocks_relD(3) [OF core_relD(2) [OF assms(1)]] by auto
    with core_relD(8) [OF assms(1)] show ?thesis by (simp add: fresh_rel_def)
  qed
  moreover have "set (bm a) \<inter> set (bm c) = {}" if "c \<in> dom (files s) - {a}" for c
    using that assms(2) blocks_relD(2) [OF core_relD(2) [OF assms(1)], of a c] by auto
  moreover have "offset x \<le> BLOCK_SIZE * length (bm a)"
    if "descs s d = Some x" "desc_file x = a" for d x
    using core_relD(4) [OF assms(1)] that by (auto simp: descs_rel_def)
  ultimately show ?thesis
    using blocks_relD(1,3) [OF core_relD(2) [OF assms(1)]] core_relD(6) [OF assms(1)] assms(2)
    by (simp add: file_part_def sizes_rel_def)
qed

text \<open>The abstract state afterwards: the other files are as they were.\<close>

lemma only_file_abs:
  assumes rel: "core_rel fl bm s" and only: "only_file a bm s t" and part: "file_part a bm as t"
    and f: "files s a = Some f" and g: "files t a = Some g"
  shows "a_files (abs_ufs t) = (a_files (abs_ufs s))(a \<mapsto>
      (abs_file (blocks s) f)\<lparr>a_size := file_size g, a_data := raw (view (blocks t) as)\<rparr>)"
proof
  fix c
  from only f g have fg: "files t = (files s)(a \<mapsto> g)" "name g = name f" "is_ghost g = is_ghost f"
    by (auto elim!: only_fileE)
  from part g have bl: "block_list (blocks t) g as" by (auto simp: file_part_def)
  show "a_files (abs_ufs t) c = ((a_files (abs_ufs s))(a \<mapsto>
      (abs_file (blocks s) f)\<lparr>a_size := file_size g, a_data := raw (view (blocks t) as)\<rparr>)) c"
  proof (cases "c = a \<or> files s c = None")
    case True
    with fg abs_file_data [OF bl] show ?thesis by (auto simp: raw_view abs_file_def)
  next
    case False
    then obtain h where h: "files s c = Some h" "c \<noteq> a" by auto
    have same: "blocks t b = blocks s b" if "b \<in> set (bm c)" for b
      using only h that unfolding only_file_def by auto
    have bs: "block_list (blocks s) h (bm c)" by (rule blocks_relD(1) [OF core_relD(2) [OF rel] h(1)])
    moreover have "dll next_block prev_block (blocks t) None (first_block h) (bm c) None \<longleftrightarrow>
        dll next_block prev_block (blocks s) None (first_block h) (bm c) None"
      by (rule dll_cong) (simp add: same)
    ultimately have "block_list (blocks t) h (bm c)" by (simp add: block_list_def)
    then have "a_data (abs_file (blocks t) h) = a_data (abs_file (blocks s) h)"
      using abs_file_data [OF bs] abs_file_data [of "blocks t" h "bm c"]
        view_cong [of "bm c" "blocks t" "blocks s"] same by (simp add: raw_view)
    then have "abs_file (blocks t) h = abs_file (blocks s) h" by simp
    with h fg show ?thesis by simp
  qed
qed

subsection \<open>The offset of one descriptor\<close>

lemma slots_inj:
  "distinct (slots t) \<Longrightarrow> i < length t \<Longrightarrow> j < length t \<Longrightarrow> t ! i = Some d \<Longrightarrow> t ! j = Some d \<Longrightarrow> i = j"
proof (induction t arbitrary: i j)
  case (Cons p t)
  have "d \<in> set (slots t)" if "k < length t" "t ! k = Some d" for k
    using that by (metis mem_Collect_eq nth_mem set_slots)
  with Cons show ?case by (cases i; cases j) (auto split: option.splits)
qed simp

lemma fd_lookup_set_desc:
  assumes rel: "table_rel s" and i: "i < length (desc_table s)" "desc_table s ! i = Some d"
    and t: "desc_table t = desc_table s" "descs t = (descs s)(d \<mapsto> y)"
  shows "fd_lookup t = (fd_lookup s)(int i + 1 \<mapsto> y)"
proof
  fix fd
  have dist: "distinct (slots (desc_table s))" using rel by (simp add: table_rel_def)
  show "fd_lookup t fd = ((fd_lookup s)(int i + 1 \<mapsto> y)) fd"
  proof (cases "1 \<le> fd \<and> fd \<le> int (length (desc_table s))")
    case True
    then obtain j where j: "fd = int j + 1" "j < length (desc_table s)"
      using positive_fd [of fd "length (desc_table s)"] by auto
    show ?thesis
    proof (cases "j = i")
      case True
      with i t j show ?thesis by (simp add: fd_lookup_def)
    next
      case False
      with slots_inj [OF dist i(1) j(2) i(2)] have "desc_table s ! j \<noteq> Some d" by auto
      with t j False show ?thesis by (auto simp: fd_lookup_def split: option.split)
    qed
  next
    case False
    with i t show ?thesis by (auto simp: fd_lookup_def)
  qed
qed

subsection \<open>Walking\<close>

lemma seek_block_eq:
  "dll next_block prev_block (blocks s) q p as None \<Longrightarrow> i \<le> length as \<Longrightarrow>
   seek_block i p s = Some (first_ptr (drop i as) None)"
proof (induction i arbitrary: q p as)
  case 0
  then show ?case by (auto dest: dll_first)
next
  case (Suc i)
  then obtain b bs where as: "as = b # bs" by (cases as) auto
  with Suc.prems obtain x where "p = Some b" "blocks s b = Some x"
    "dll next_block prev_block (blocks s) (Some b) (next_block x) bs None"
    by (auto split: option.splits)
  with Suc.IH [of "Some b" "next_block x" bs] Suc.prems as show ?case by simp
qed

lemma seek_block_read_eq:
  "dll next_block prev_block (blocks s) q p as None \<Longrightarrow>
   seek_block_read i p s = Some (if i \<le> length as then Some (first_ptr (drop i as) None) else None)"
proof (induction i arbitrary: q p as)
  case 0
  then show ?case by (auto dest: dll_first)
next
  case (Suc i)
  show ?case
  proof (cases as)
    case (Cons b bs)
    with Suc.prems obtain x where "p = Some b" "blocks s b = Some x"
      "dll next_block prev_block (blocks s) (Some b) (next_block x) bs None"
      by (auto split: option.splits)
    with Suc.IH [of "Some b" "next_block x" bs] Cons show ?thesis by simp
  qed (use Suc.prems in simp)
qed

subsection \<open>A new block at the end\<close>

text \<open>
  What \<open>ufs_write\<close> and \<open>ufs_resize\<close> both do to add a block; \<open>g\<close> is what happens to
  the data of the block that was the last.
\<close>

definition appended ::
  "(block \<Rightarrow> block) \<Rightarrow> addr \<Rightarrow> ufile \<Rightarrow> cell list \<Rightarrow> int option \<Rightarrow> ufs \<Rightarrow> ufs" where
  "appended g a f mem occ s = s\<lparr>
     blocks := (case last_block f of None \<Rightarrow> blocks s
        | Some l \<Rightarrow> (blocks s)(l := map_option (\<lambda>b. (g b)\<lparr>next_block := Some (fresh_addr s)\<rparr>) (blocks s l)))
        (fresh_addr s \<mapsto> \<lparr>memory = mem, occupied = occ, next_block = None, prev_block = last_block f\<rparr>),
     files := (files s)(a \<mapsto> f\<lparr>
        first_block := (if first_block f = None then Some (fresh_addr s) else first_block f),
        last_block := Some (fresh_addr s)\<rparr>),
     fresh_addr := Suc (fresh_addr s)\<rparr>"

lemma appended_sel [simp]:
  "descs (appended g a f mem occ s) = descs s"
  "fresh_addr (appended g a f mem occ s) = Suc (fresh_addr s)"
  "files (appended g a f mem occ s) = (files s)(a \<mapsto> f\<lparr>
     first_block := (if first_block f = None then Some (fresh_addr s) else first_block f),
     last_block := Some (fresh_addr s)\<rparr>)"
  by (simp_all add: appended_def)

lemma block_list_appended:
  assumes bl: "block_list (blocks s) f as" and new: "blocks s (fresh_addr s) = None"
    and g: "\<And>b. next_block (g b) = next_block b" "\<And>b. prev_block (g b) = prev_block b"
  shows "block_list (blocks (appended g a f mem occ s))
    (f\<lparr>first_block := (if first_block f = None then Some (fresh_addr s) else first_block f),
       last_block := Some (fresh_addr s)\<rparr>) (as @ [fresh_addr s])"
proof (cases as rule: rev_exhaust)
  case Nil
  with bl show ?thesis by (simp add: block_list_def appended_def)
next
  case (snoc xs l)
  let ?c = "fresh_addr s"
  let ?n = "\<lparr>memory = mem, occupied = occ, next_block = None, prev_block = Some l\<rparr>"
  from bl snoc have dll: "dll next_block prev_block (blocks s) None (first_block f) (xs @ [l]) None"
    and l: "last_block f = Some l" by (simp_all add: block_list_def)
  from dll obtain x where x: "blocks s l = Some x" by (meson dll_live in_set_conv_decomp)
  have c: "?c \<notin> set (xs @ [l])" using dll_live [OF dll] new by fastforce
  from dll_distinct [OF dll] have dist: "distinct (xs @ [l])" .
  have "dll next_block prev_block ((blocks s)(l \<mapsto> g x)) None (first_block f) (xs @ [l]) None"
    using dll dll_upd_data [of "blocks s" l x next_block "g x" prev_block] x g by simp
  from bl.dll_snoc [OF this dist c, of "g x" ?n]
  have "dll next_block prev_block ((blocks s)(l \<mapsto> g x, ?c \<mapsto> ?n, l \<mapsto> set_next_block (Some ?c) (g x)))
      None (first_block f) (xs @ [l, ?c]) None" by simp
  moreover have "blocks (appended g a f mem occ s) =
      (blocks s)(l \<mapsto> g x, ?c \<mapsto> ?n, l \<mapsto> set_next_block (Some ?c) (g x))"
    using c l x by (auto simp: appended_def fun_eq_iff)
  moreover have "first_block f \<noteq> None" using dll by (cases xs) auto
  moreover have "last_ptr None (xs @ [l, ?c]) = Some ?c" by (simp add: last_ptr_def)
  ultimately show ?thesis using snoc by (auto simp: block_list_def)
qed

lemma appended_only_file:
  assumes "core_rel fl bm s" and f: "files s a = Some f"
  shows "only_file a bm s (appended g a f mem occ s)"
proof -
  note rel = core_relD [OF assms(1)]
  have "blocks (appended g a f mem occ s) b = blocks s b"
    if c: "c \<in> dom (files s) - {a}" "b \<in> set (bm c)" for c b
  proof -
    have "b \<in> dom (blocks s)" using c blocks_relD(3) [OF rel(2)] by auto
    then have "b \<noteq> fresh_addr s" using fresh_not_live(2) [OF rel(8)] by auto
    moreover have "last_block f \<noteq> Some b"
    proof
      assume "last_block f = Some b"
      with blocks_relD(1) [OF rel(2) f] have "b \<in> set (bm a)"
        by (metis block_list_def last_in_set last_ptr_SomeD)
      with blocks_relD(2) [OF rel(2), of a c] c f show False by auto
    qed
    ultimately show ?thesis by (simp add: appended_def split: option.split)
  qed
  then show ?thesis
    by (intro only_fileI [OF f appended_sel(3)]) (simp_all, simp_all add: appended_def)
qed

text \<open>The list of the file's blocks afterwards.\<close>

definition upd_last :: "(blk \<Rightarrow> blk) \<Rightarrow> blk list \<Rightarrow> blk list" where
  "upd_last h L = (if L = [] then [] else butlast L @ [h (last L)])"

lemma view_appended:
  assumes bl: "block_list (blocks s) f as" and new: "blocks s (fresh_addr s) = None"
    and g: "\<And>b. (memory (g b), occupied (g b)) = h (memory b, occupied b)"
  shows "view (blocks (appended g a f mem occ s)) (as @ [fresh_addr s]) =
    upd_last h (view (blocks s) as) @ [(mem, occ)]"
proof (cases as rule: rev_exhaust)
  case Nil
  with bl show ?thesis by (simp add: appended_def upd_last_def)
next
  case (snoc xs l)
  let ?c = "fresh_addr s"
  from bl snoc have dll: "dll next_block prev_block (blocks s) None (first_block f) (xs @ [l]) None"
    and l: "last_block f = Some l" by (simp_all add: block_list_def)
  from dll obtain x where x: "blocks s l = Some x" by (meson dll_live in_set_conv_decomp)
  have "?c \<notin> set (xs @ [l])" using dll_live [OF dll] new by fastforce
  moreover have "l \<notin> set xs" using dll_distinct [OF dll] by simp
  ultimately show ?thesis
    using snoc l x g [of x] by (simp add: appended_def upd_last_def)
qed

lemma appended_file_part:
  assumes core: "core_rel fl bm s" and f: "files s a = Some f"
    and g: "\<And>b. next_block (g b) = next_block b" "\<And>b. prev_block (g b) = prev_block b"
  shows "file_part a bm (bm a @ [fresh_addr s]) (appended g a f mem occ s)"
proof -
  let ?t = "appended g a f mem occ s" and ?c = "fresh_addr s"
  note rel = core_relD [OF core]
  have new: "blocks s ?c = None" using fresh_not_live(2) [OF rel(8)] .
  have old: "file_part a bm (bm a) s" by (rule core_file_part [OF core f])
  have bl: "block_list (blocks s) f (bm a)" by (rule blocks_relD(1) [OF rel(2) f])
  have "block_list (blocks ?t) (the (files ?t a)) (bm a @ [?c])"
    using block_list_appended [OF bl new g] by simp
  moreover have "dom (blocks ?t) = insert ?c (dom (blocks s))"
  proof (cases "last_block f")
    case (Some l)
    with bl have "l \<in> set (bm a)" by (metis block_list_def last_in_set last_ptr_SomeD)
    then have "l \<in> dom (blocks s)" using f blocks_relD(3) [OF rel(2)] by auto
    with Some show ?thesis by (auto simp: appended_def split: if_splits)
  qed (simp add: appended_def)
  moreover have "?c \<notin> set (bm c)" if "c \<in> dom (files s)" for c
    using that new blocks_relD(3) [OF rel(2)] by auto
  moreover have "dom (files ?t) = dom (files s)" using f by auto
  moreover have "file_size f \<le> BLOCK_SIZE * length (bm a)" using rel(6) f by (simp add: sizes_rel_def)
  moreover have "offset x \<le> BLOCK_SIZE * Suc (length (bm a))"
    if "descs s d = Some x" "desc_file x = a" for d x
    using old that by (fastforce simp: file_part_def)
  ultimately show ?thesis
    using old unfolding file_part_def by (auto simp: less_SucI)
qed

subsection \<open>The size of the file\<close>

lemma set_size_step:
  assumes rel: "ufs_rel fl bm s" and f: "files s a = Some f" and n: "n \<le> BLOCK_SIZE * length (bm a)"
  defines "t \<equiv> s\<lparr>files := (files s)(a \<mapsto> f\<lparr>file_size := n\<rparr>)\<rparr>"
  shows "ufs_rel fl bm t" and "only_file a bm s t"
proof -
  note core = ufs_rel_coreD [OF rel]
  have sel: "files t = (files s)(a \<mapsto> f\<lparr>file_size := n\<rparr>)" "blocks t = blocks s" "descs t = descs s"
    "fresh_addr t = fresh_addr s" by (simp_all add: t_def)
  show only: "only_file a bm s t"
    by (rule only_fileI [of s a f t "f\<lparr>file_size := n\<rparr>"]) (use f in \<open>simp_all add: t_def\<close>)
  have dom: "dom (files t) = dom (files s)" by (rule only_file_dom [OF only])
  have "block_list (blocks s) (f\<lparr>file_size := n\<rparr>) (bm a)"
    using blocks_relD(1) [OF core_relD(2) [OF core] f] by (simp add: block_list_def)
  with core_file_part [OF core f] n have part: "file_part a bm (bm a) t"
    unfolding file_part_def dom unfolding sel by simp
  have ok: "block_ok x" if "blocks t b = Some x" for b x
    using ufs_rel_okD [OF rel] that by (auto simp: t_def blocks_ok_def ran_def)
  from only_file_rel [OF rel only part ok] show "ufs_rel fl bm t" by simp
qed

end
