(* ===== verification/UserfsWrite.thy ===== *)
theory UserfsWrite
  imports UserfsData
begin

section \<open>The file system: \<open>ufs_write\<close>\<close>

text \<open>
  The write loop computes \<open>lwrite\<close> of \<open>UserfsBlocks\<close> on the blocks of the file, never
  leaves the memory it owns, and keeps the invariant after every pass. With what was shown
  of \<open>lwrite\<close>: a write at the end of a file, or into its last block, writes the bytes where
  they belong (\<open>write_contents\<close>); a write that starts inside a full block reports success,
  moves the offset, and leaves every byte of the file as it was (\<open>write_lost\<close>).
\<close>

subsection \<open>One pass of the loop\<close>

lemma append_block_eq:
  assumes bl: "block_list (blocks s) f as" and f: "files s a = Some f"
    and new: "blocks s (fresh_addr s) = None"
  shows "append_block a s =
    Some (fresh_addr s, appended (\<lambda>b. b) a f (replicate BLOCK_SIZE None) (Some 0) s)"
proof (cases "last_block f")
  case None
  with bl have "as = []" by (metis block_list_def last_ptr_None)
  with bl have "first_block f = None" by (simp add: block_list_def)
  with None f show ?thesis
    by (simp add: append_block_def malloc_block_def new_block_def upd_file_def upd_block_def appended_def)
next
  case (Some l)
  with bl have l: "l \<in> set as" by (metis block_list_def last_in_set last_ptr_SomeD)
  with bl obtain x where x: "blocks s l = Some x" by (metis block_list_def dll_live)
  with new have lc: "l \<noteq> fresh_addr s" by auto
  have "as \<noteq> []" using l by auto
  with bl obtain e where "first_block f = Some e" by (cases as) (auto simp: block_list_def)
  with Some f x lc show ?thesis
    by (cases f) (simp add: append_block_def malloc_block_def new_block_def upd_file_def upd_block_def appended_def
        fun_upd_twist [of l "fresh_addr s"])
qed

definition put_bytes :: "addr \<Rightarrow> block \<Rightarrow> addr \<Rightarrow> filedesc \<Rightarrow> nat \<Rightarrow> cell list \<Rightarrow> ufs \<Rightarrow> ufs" where
  "put_bytes b blk d x r data s = s\<lparr>
     blocks := (blocks s)(b \<mapsto> blk\<lparr>memory := overwrite (memory blk) r data,
       occupied := map_option (\<lambda>k. max k (int (r + length data))) (occupied blk)\<rparr>),
     descs := (descs s)(d \<mapsto> x\<lparr>offset := offset x + length data\<rparr>)\<rparr>"

lemma put_bytes_sel [simp]:
  "descs (put_bytes b blk d x r data s) = (descs s)(d \<mapsto> x\<lparr>offset := offset x + length data\<rparr>)"
  "files (put_bytes b blk d x r data s) = files s"
  "fresh_addr (put_bytes b blk d x r data s) = fresh_addr s"
  "blocks (put_bytes b blk d x r data s) = (blocks s)(b \<mapsto> blk\<lparr>memory := overwrite (memory blk) r data,
     occupied := map_option (\<lambda>k. max k (int (r + length data))) (occupied blk)\<rparr>)"
  by (simp_all add: put_bytes_def)

lemma block_ok_put:
  "block_ok blk \<Longrightarrow> r + length data \<le> BLOCK_SIZE \<Longrightarrow>
   block_ok (blk\<lparr>memory := overwrite (memory blk) r data,
     occupied := map_option (\<lambda>k. max k (int (r + length data))) (occupied blk)\<rparr>)"
  by (auto simp: block_ok_def BLOCK_SIZE_def)

lemma block_list_data:
  assumes "bs b = Some blk" "next_block blk' = next_block blk" "prev_block blk' = prev_block blk"
  shows "block_list (bs(b \<mapsto> blk')) f as \<longleftrightarrow> block_list bs f as"
  using dll_upd_data [of bs b blk next_block blk' prev_block] assms by (simp add: block_list_def)

lemma put_bytes_step:
  assumes rel: "ufs_rel fl bm s" and f: "files s a = Some f"
    and j: "j < length (bm a)" "b = bm a ! j" "blocks s b = Some blk"
    and d: "descs s d = Some x" "desc_file x = a"
    and r: "r + length data \<le> BLOCK_SIZE" "offset x + length data \<le> BLOCK_SIZE * length (bm a)"
  defines "t \<equiv> put_bytes b blk d x r data s"
  shows "ufs_rel fl bm t" and "only_file a bm s t"
    and "view (blocks t) (bm a) = (view (blocks s) (bm a))[j := lput r data (view (blocks s) (bm a) ! j)]"
proof -
  note core = ufs_rel_coreD [OF rel]
  let ?blk = "blk\<lparr>memory := overwrite (memory blk) r data,
       occupied := map_option (\<lambda>k. max k (int (r + length data))) (occupied blk)\<rparr>"
  have old: "file_part a bm (bm a) s" by (rule core_file_part [OF core f])
  have bin: "b \<in> set (bm a)" using j by simp
  have other: "blocks t e = blocks s e" if "c \<in> dom (files s) - {a}" "e \<in> set (bm c)" for c e
    using blocks_relD(2) [OF ufs_relD(2) [OF rel], of a c] that f bin by (auto simp: t_def)
  show only: "only_file a bm s t"
    by (rule only_fileI [of s a f t f])
      (use f d other in \<open>auto simp: t_def put_bytes_def fun_upd_idem\<close>)
  have doms: "dom (blocks t) = dom (blocks s)" "dom (files t) = dom (files s)"
    using j(3) by (auto simp: t_def)
  have "block_list (blocks t) f (bm a)"
    using blocks_relD(1) [OF ufs_relD(2) [OF rel] f] block_list_data [of "blocks s" b blk ?blk] j(3)
    by (simp add: t_def)
  moreover have "offset y \<le> BLOCK_SIZE * length (bm a)" if "descs t e = Some y" "desc_file y = a" for e y
    using that old d r(2) by (cases "e = d") (auto simp: file_part_def t_def)
  moreover have "fresh_addr t = fresh_addr s" "files t a = Some f" using f by (simp_all add: t_def)
  ultimately have part: "file_part a bm (bm a) t"
    using old f unfolding file_part_def doms by simp
  have ok: "block_ok y" if "e \<in> set (bm a)" "blocks t e = Some y" for e y
  proof (cases "e = b")
    case True
    have "block_ok blk" using ufs_rel_okD [OF rel] j(3) by (auto simp: blocks_ok_def ran_def)
    with True that r(1) block_ok_put [of blk r data] show ?thesis by (simp add: t_def)
  next
    case False
    with that have "blocks s e = Some y" by (simp add: t_def)
    with ufs_rel_okD [OF rel] show ?thesis by (auto simp: blocks_ok_def ran_def)
  qed
  from only_file_rel [OF rel only part ok] show "ufs_rel fl bm t" by simp
  have dist: "distinct (bm a)"
    using blocks_relD(1) [OF ufs_relD(2) [OF rel] f] by (auto simp: block_list_def dest: dll_distinct)
  show "view (blocks t) (bm a) = (view (blocks s) (bm a))[j := lput r data (view (blocks s) (bm a) ! j)]"
    using view_upd [OF dist j(1), of "blocks s" ?blk] j nth_view [OF j(1), of "blocks s" blk]
    by (simp add: t_def lput_def)
qed

text \<open>The pass: the block it uses, the bytes it moves, and what it leaves.\<close>

definition chunk_size :: "nat \<Rightarrow> nat \<Rightarrow> nat \<Rightarrow> nat" where
  "chunk_size sz bw pos = min (sz - bw) (BLOCK_SIZE - pos mod BLOCK_SIZE)"

definition chunk_data :: "byte list \<Rightarrow> nat \<Rightarrow> nat \<Rightarrow> nat \<Rightarrow> cell list" where
  "chunk_data buf sz bw pos = map Some (take (chunk_size sz bw pos) (drop bw buf))"

lemma length_chunk_data: "sz \<le> length buf \<Longrightarrow> length (chunk_data buf sz bw pos) = chunk_size sz bw pos"
  by (simp add: chunk_data_def chunk_size_def)

lemma write_chunk_put:
  assumes b: "block_for_write (desc_file x) p s = Some (b, s1)" and d: "descs s d = Some x"
    and s1: "descs s1 = descs s" "blocks s1 b = Some blk" "block_ok blk" and sz: "sz \<le> length buf" "bw \<le> sz"
  shows "write_chunk d buf sz p bw s = Some (b, bw + chunk_size sz bw (offset x),
    put_bytes b blk d x (offset x mod BLOCK_SIZE) (chunk_data buf sz bw (offset x)) s1)"
proof -
  let ?n = "chunk_size sz bw (offset x)" and ?r = "offset x mod BLOCK_SIZE"
  have n: "?n \<le> sz - bw" "?n \<le> BLOCK_SIZE - ?r" by (simp_all add: chunk_size_def)
  have "?r < BLOCK_SIZE" by (simp add: BLOCK_SIZE_def)
  then have r: "?r + ?n \<le> BLOCK_SIZE" using n(2) by linarith
  have len: "length (chunk_data buf sz bw (offset x)) = ?n" using sz by (simp add: length_chunk_data)
  obtain k where k: "occupied blk = Some k" "length (memory blk) = BLOCK_SIZE"
    using s1(3) by (auto simp: block_ok_def)
  have src: "mem_read buf bw ?n = Some (take ?n (drop bw buf))" using n(1) sz by (intro mem_read_Some) simp
  have mem: "mem_write (memory blk) ?r (map Some (take ?n (drop bw buf))) =
      Some (overwrite (memory blk) ?r (chunk_data buf sz bw (offset x)))"
    using r len k(2) unfolding chunk_data_def by (intro mem_write_Some) simp
  have occ: "max k (int (?r + ?n)) = (if int (?r + ?n) > k then int (?r + ?n) else k)" by simp
  show ?thesis
    unfolding write_chunk_def d bind.bind_lunit Let_def b prod.case
    unfolding chunk_size_def [symmetric] s1(2) src mem k(1) bind.bind_lunit
    using s1(1,2) d len
    by (simp add: put_bytes_def upd_block_def upd_desc_def k(1) occ)
qed

lemma chunk_bound:
  assumes "pos div BS < n" shows "pos + chunk_size sz bw pos \<le> BLOCK_SIZE * n"
proof -
  have "chunk_size sz bw pos \<le> BS - pos mod BS" by (simp add: chunk_size_def BLOCK_SIZE_def)
  moreover have "pos + (BS - pos mod BS) = BS * Suc (pos div BS)"
    by (rule up_to_boundary [OF _ mult_div_mod_eq]) simp
  ultimately have "pos + chunk_size sz bw pos \<le> BS * Suc (pos div BS)" by linarith
  also have "\<dots> \<le> BS * n" using assms by (intro mult_le_mono) simp_all
  finally show ?thesis by (simp add: BLOCK_SIZE_def)
qed

lemma drop_nth: "i < length xs \<Longrightarrow> first_ptr (drop i xs) None = Some (xs ! i)"
  by (simp flip: Cons_nth_drop_Suc)

lemma fun_upd_same: "f(a := f a) = f"
  by simp

lemma write_chunk_step:
  assumes rel: "ufs_rel fl bm s" and f: "files s a = Some f"
    and d: "descs s d = Some x" "desc_file x = a"
    and i: "i = offset x div BS \<or> (i < length (bm a) \<and> snd (view (blocks s) (bm a) ! i) = Some (int BS))"
    and p: "p = first_ptr (drop i (bm a)) None" and sz: "sz \<le> length buf" "bw \<le> sz"
  shows "\<exists>t as j. write_chunk d buf sz p bw s = Some (as ! j, bw + chunk_size sz bw (offset x), t) \<and>
    ufs_rel fl (bm(a := as)) t \<and> only_file a bm s t \<and> map_option file_size (files t a) = Some (file_size f) \<and>
    descs t = (descs s)(d \<mapsto> x\<lparr>offset := offset x + chunk_size sz bw (offset x)\<rparr>) \<and>
    view (blocks t) as =
      lchunk (view (blocks s) (bm a)) i (offset x mod BS) (chunk_data buf sz bw (offset x)) \<and>
    j < length as \<and>
    (offset x mod BS + chunk_size sz bw (offset x) = BS \<longrightarrow> snd (view (blocks t) as ! j) = Some (int BS))"
proof -
  let ?as = "bm a" and ?n = "chunk_size sz bw (offset x)" and ?r = "offset x mod BS"
    and ?data = "chunk_data buf sz bw (offset x)"
  note core = ufs_rel_coreD [OF rel]
  have bl: "block_list (blocks s) f ?as" by (rule blocks_relD(1) [OF ufs_relD(2) [OF rel] f])
  have len: "length ?data = ?n" using sz by (simp add: length_chunk_data)
  have "?r < BS" "?n \<le> BS - ?r" by (simp_all add: chunk_size_def BLOCK_SIZE_def)
  then have r: "?r + length ?data \<le> BLOCK_SIZE" unfolding len BLOCK_SIZE_def by linarith
  have off: "offset x \<le> BS * length ?as"
    using ufs_relD(4) [OF rel] d by (auto simp: descs_rel_def BLOCK_SIZE_def)
  have full: "snd (lput ?r ?data (m, Some k)) = Some (int BS)" if "?r + ?n = BS" "k \<le> int BS" for m k
    using that len by (simp add: lput_def)
  have conclude: ?thesis
    if s1: "block_for_write a p s = Some (bs ! j, s1)" "descs s1 = descs s"
      "ufs_rel fl (bm(a := bs)) s1" "only_file a bm s s1" "files s1 a = Some g" "file_size g = file_size f"
      and j: "j < length bs" "offset x + ?n \<le> BLOCK_SIZE * length bs"
      and v: "(view (blocks s1) bs)[j := lput ?r ?data (view (blocks s1) bs ! j)] =
        lchunk (view (blocks s) ?as) i ?r ?data" for bs j s1 g
  proof -
    have "bs ! j \<in> dom (blocks s1)"
      using blocks_relD(3) [OF ufs_relD(2) [OF s1(3)]] s1(5) j(1) by fastforce
    then obtain blk where blk: "blocks s1 (bs ! j) = Some blk" by auto
    have ok: "block_ok blk" using ufs_rel_okD [OF s1(3)] blk by (auto simp: blocks_ok_def ran_def)
    then obtain k where k: "occupied blk = Some k" "k \<le> int BS"
      by (auto simp: block_ok_def BLOCK_SIZE_def)
    let ?t = "put_bytes (bs ! j) blk d x ?r ?data s1"
    have ds: "descs s1 d = Some x" using s1(2) d(1) by simp
    note step = put_bytes_step [OF s1(3,5), of j "bs ! j" blk d x ?r ?data]
    have jb: "j < length ((bm(a := bs)) a)" "bs ! j = (bm(a := bs)) a ! j"
      "offset x + length ?data \<le> BLOCK_SIZE * length ((bm(a := bs)) a)" using j len by simp_all
    note put = step [OF jb(1,2) blk ds d(2) r jb(3)]
    have "write_chunk d buf sz p bw s = Some (bs ! j, bw + ?n, ?t)"
      using write_chunk_put [of x p s "bs ! j" s1 d blk sz buf bw] s1(1,2) d blk ok sz
      by (simp add: BLOCK_SIZE_def)
    moreover have "only_file a bm s ?t" by (rule only_file_trans [OF s1(4) put(2)])
    moreover have "view (blocks ?t) bs = lchunk (view (blocks s) ?as) i ?r ?data"
      using put(3) v by simp
    moreover have "snd (view (blocks ?t) bs ! j) = Some (int BS)" if "?r + ?n = BS"
    proof -
      have "view (blocks s1) bs ! j = (memory blk, Some k)" using nth_view [OF j(1), of "blocks s1" blk] blk k(1) by simp
      with full [OF that k(2)] put(3) j(1) show ?thesis by simp
    qed
    ultimately show ?thesis
      using put(1) s1(2,5,6) len j(1) by (intro exI [of _ ?t] exI [of _ bs] exI [of _ j]) simp
  qed
  show ?thesis
  proof (cases "i < length ?as \<and> snd (view (blocks s) ?as ! i) \<noteq> Some (int BS)")
    case True
    then have i': "i = offset x div BS" using i by auto
    have "?as ! i \<in> dom (blocks s)" using blocks_relD(3) [OF ufs_relD(2) [OF rel]] f True by fastforce
    then obtain blk where blk: "blocks s (?as ! i) = Some blk" by auto
    moreover have "block_ok blk" using ufs_rel_okD [OF rel] blk by (auto simp: blocks_ok_def ran_def)
    then obtain k where k: "occupied blk = Some k" by (auto simp: block_ok_def)
    ultimately have "k \<noteq> int BLOCK_SIZE" using True nth_view [of i ?as "blocks s" blk] by (simp add: BLOCK_SIZE_def)
    then have "block_for_write a p s = Some (?as ! i, s)"
      using blk k p True by (simp add: block_for_write_def drop_nth)
    moreover have "offset x + ?n \<le> BLOCK_SIZE * length ?as" using chunk_bound i' True by blast
    moreover have "(view (blocks s) ?as)[i := lput ?r ?data (view (blocks s) ?as ! i)] =
        lchunk (view (blocks s) ?as) i ?r ?data" using True by (simp add: lchunk_def)
    ultimately show ?thesis
      using conclude [of ?as i s f] rel f True only_file_refl [of s a f bm] by simp
  next
    case False
    let ?c = "fresh_addr s"
    let ?s1 = "appended (\<lambda>b. b) a f (replicate BLOCK_SIZE None) (Some 0) s"
    have new: "blocks s ?c = None" using fresh_not_live(2) [OF ufs_relD(8) [OF rel]] .
    note only = appended_only_file [OF core f, of "\<lambda>b. b" "replicate BLOCK_SIZE None" "Some 0"]
    have v: "view (blocks ?s1) (?as @ [?c]) = view (blocks s) ?as @ [(replicate BLOCK_SIZE None, Some 0)]"
      using view_appended [OF bl new, of "\<lambda>b. b" "\<lambda>b. b"] by (simp add: upd_last_def append_butlast_last_id)
    have "block_for_write a p s = append_block a s"
    proof (cases "i < length ?as")
      case True
      with False have occ: "snd (view (blocks s) ?as ! i) = Some (int BS)" by simp
      have "?as ! i \<in> dom (blocks s)" using blocks_relD(3) [OF ufs_relD(2) [OF rel]] f True by fastforce
      then obtain blk where blk: "blocks s (?as ! i) = Some blk" by auto
      with True occ have "occupied blk = Some (int BLOCK_SIZE)"
        using nth_view [of i ?as "blocks s" blk] by (simp add: BLOCK_SIZE_def)
      with blk True p show ?thesis by (simp add: block_for_write_def drop_nth)
    qed (simp add: block_for_write_def p)
    with append_block_eq [OF bl f new] have bw: "block_for_write a p s = Some ((?as @ [?c]) ! length ?as, ?s1)"
      by simp
    have ok: "block_ok y" if "e \<in> set (?as @ [?c])" "blocks ?s1 e = Some y" for e y
    proof (cases "e = ?c")
      case True
      with that show ?thesis by (auto simp: appended_def block_ok_def)
    next
      case False
      have *: "block_ok z" if "blocks s e = Some z" for z
        using ufs_rel_okD [OF rel] that by (auto simp: blocks_ok_def ran_def)
      with False that(2) show ?thesis
        by (auto simp: appended_def block_ok_def split: option.splits if_splits)
    qed
    have rel1: "ufs_rel fl (bm(a := ?as @ [?c])) ?s1"
      using only_file_rel [OF rel only appended_file_part [OF core f] ok] by simp
    have "offset x div BS \<le> length ?as" using off by (metis div_le_mono nonzero_mult_div_cancel_left zero_neq_numeral)
    then have "offset x + ?n \<le> BLOCK_SIZE * Suc (length ?as)" by (intro chunk_bound) simp
    moreover have "(view (blocks ?s1) (?as @ [?c]))[length ?as := lput ?r ?data (view (blocks ?s1) (?as @ [?c]) ! length ?as)]
        = lchunk (view (blocks s) ?as) i ?r ?data"
      unfolding v using False by (auto simp: lchunk_def lnew_def BLOCK_SIZE_def nth_append list_update_append)
    ultimately show ?thesis
      using conclude [OF bw _ rel1 only] f by simp
  qed
qed

subsection \<open>The loop\<close>

definition write_data :: "byte list \<Rightarrow> nat \<Rightarrow> nat \<Rightarrow> cell list" where
  "write_data buf sz bw = map Some (drop bw (take sz buf))"

lemma write_data_chunk:
  assumes "sz \<le> length buf"
  shows "chunk_data buf sz bw pos = take (BS - pos mod BS) (write_data buf sz bw)"
    and "write_data buf sz (bw + chunk_size sz bw pos) = drop (BS - pos mod BS) (write_data buf sz bw)"
  using assms by (auto simp: chunk_data_def write_data_def chunk_size_def BLOCK_SIZE_def take_map drop_map
      drop_take min_def add.commute)

lemma write_data_Nil: "sz \<le> length buf \<Longrightarrow> write_data buf sz bw = [] \<longleftrightarrow> sz \<le> bw"
  by (simp add: write_data_def)

lemma chunk_to_boundary:
  assumes "bw + chunk_size sz bw pos < sz"
  shows "pos mod BS + chunk_size sz bw pos = BS" "(pos + chunk_size sz bw pos) mod BS = 0"
proof -
  have n: "chunk_size sz bw pos = BS - pos mod BS"
    using assms by (auto simp: chunk_size_def BLOCK_SIZE_def)
  have "pos mod BS < BS" by simp
  then show "pos mod BS + chunk_size sz bw pos = BS" unfolding n by linarith
  have "pos + (BS - pos mod BS) = BS * Suc (pos div BS)"
    by (rule up_to_boundary [OF _ mult_div_mod_eq]) simp
  then show "(pos + chunk_size sz bw pos) mod BS = 0" unfolding n by simp
qed

lemma chunk_progress: "bw < sz \<Longrightarrow> 0 < chunk_size sz bw pos"
  by (simp add: chunk_size_def BLOCK_SIZE_def)

lemma chunk_le: "bw \<le> sz \<Longrightarrow> bw + chunk_size sz bw pos \<le> sz"
  by (simp add: chunk_size_def)

text \<open>What the loop has done when it returns.\<close>

definition written ::
  "addr list \<Rightarrow> (addr \<Rightarrow> addr list) \<Rightarrow> addr \<Rightarrow> ufile \<Rightarrow> addr \<Rightarrow> filedesc \<Rightarrow> nat \<Rightarrow> blk list \<Rightarrow> ufs \<Rightarrow> ufs \<Rightarrow> bool" where
  "written fl bm a f d x n L s t \<longleftrightarrow>
     (\<exists>as. ufs_rel fl (bm(a := as)) t \<and> only_file a bm s t \<and>
        map_option file_size (files t a) = Some (file_size f) \<and>
        descs t = (descs s)(d \<mapsto> x\<lparr>offset := offset x + n\<rparr>) \<and> view (blocks t) as = L)"

lemma written_trans:
  assumes "only_file a bm s t" and "descs t = (descs s)(d \<mapsto> x\<lparr>offset := offset x + n\<rparr>)"
    and "file_size g = file_size f"
    and "written fl (bm(a := as)) a g d (x\<lparr>offset := offset x + n\<rparr>) m L t u" and "n + m = k"
  shows "written fl bm a f d x k L s u"
proof -
  from assms(4) obtain bs where u: "ufs_rel fl (bm(a := bs)) u" "only_file a (bm(a := as)) t u"
    "map_option file_size (files u a) = Some (file_size g)"
    "descs u = (descs t)(d \<mapsto> x\<lparr>offset := offset x + n + m\<rparr>)" "view (blocks u) bs = L"
    by (auto simp: written_def)
  have "offset x + n + m = offset x + k" using assms(5) by simp
  with u(4) assms(2) have "descs u = (descs s)(d \<mapsto> x\<lparr>offset := offset x + k\<rparr>)" by simp
  with u only_file_trans [OF assms(1) u(2)] assms(3) show ?thesis
    unfolding written_def by metis
qed

lemma write_rest:
  assumes "ufs_rel fl bm s" and "files s a = Some f"
    and "descs s d = Some x" "desc_file x = a"
    and "i < length (bm a)" "p = Some (bm a ! i)" and "sz \<le> length buf" "bw \<le> sz"
    and "bw < sz \<Longrightarrow> offset x mod BS = 0 \<and> snd (view (blocks s) (bm a) ! i) = Some (int BS)"
  shows "\<exists>t. write_loop d buf sz p bw s = Some (sz, t) \<and>
    written fl bm a f d x (sz - bw) (lrest (view (blocks s) (bm a)) (write_data buf sz bw)) s t"
  using assms
proof (induction "sz - bw" arbitrary: bw s bm f x i p rule: less_induct)
  case less
  show ?case
  proof (cases "bw < sz")
    case False
    with less.prems(7,8) have bw: "bw = sz" "write_data buf sz bw = []" by (simp_all add: write_data_Nil)
    have "written fl bm a f d x 0 (view (blocks s) (bm a)) s s"
      unfolding written_def using less.prems(1-4) only_file_refl [OF less.prems(2), of bm]
      by (intro exI [of _ "bm a"]) (simp add: fun_upd_idem)
    with bw show ?thesis by (simp add: write_loop.simps [of d buf sz p] lrest.simps [of _ "[]"])
  next
    case True
    let ?n = "chunk_size sz bw (offset x)"
    from less.prems(9) [OF True] have off: "offset x mod BS = 0"
      and occ: "snd (view (blocks s) (bm a) ! i) = Some (int BS)" by simp_all
    have p: "p = first_ptr (drop i (bm a)) None" using less.prems(5,6) by (simp add: drop_nth)
    obtain t as j where step: "write_chunk d buf sz p bw s = Some (as ! j, bw + ?n, t)"
      "ufs_rel fl (bm(a := as)) t" "only_file a bm s t"
      "map_option file_size (files t a) = Some (file_size f)"
      "descs t = (descs s)(d \<mapsto> x\<lparr>offset := offset x + ?n\<rparr>)"
      "view (blocks t) as = lchunk (view (blocks s) (bm a)) i (offset x mod BS) (chunk_data buf sz bw (offset x))"
      "j < length as" "offset x mod BS + ?n = BS \<longrightarrow> snd (view (blocks t) as ! j) = Some (int BS)"
      using write_chunk_step [OF less.prems(1-4) disjI2 [OF conjI [OF less.prems(5) occ]] p less.prems(7,8)]
      by blast
    from step(4) obtain g where g: "files t a = Some g" "file_size g = file_size f" by auto
    have dx: "descs t d = Some (x\<lparr>offset := offset x + ?n\<rparr>)" using step(5) by simp
    have "sz - (bw + ?n) < sz - bw" using chunk_progress [OF True, of "offset x"] True by simp
    moreover have "offset x mod BS + ?n = BS \<and> (offset x + ?n) mod BS = 0" if "bw + ?n < sz"
      using chunk_to_boundary [OF that] by simp
    ultimately obtain u where u: "write_loop d buf sz (Some (as ! j)) (bw + ?n) t = Some (sz, u)"
      "written fl (bm(a := as)) a g d (x\<lparr>offset := offset x + ?n\<rparr>) (sz - (bw + ?n))
         (lrest (view (blocks t) as) (write_data buf sz (bw + ?n))) t u"
      using less.hyps [of "bw + ?n" "bm(a := as)" t g "x\<lparr>offset := offset x + ?n\<rparr>" j "Some (as ! j)"]
        step(2,7,8) g(1) dx less.prems(4,7) chunk_le [OF less.prems(8)] by auto
    have "write_loop d buf sz p bw s = Some (sz, u)"
      using True step(1) u(1) by (simp add: write_loop.simps [of d buf sz p])
    moreover have "lrest (view (blocks t) as) (write_data buf sz (bw + ?n)) =
        lrest (view (blocks s) (bm a)) (write_data buf sz bw)"
      using True occ less.prems(5,7) off
      by (simp add: step(6) write_data_chunk lchunk_def write_data_Nil lrest.simps [of "view (blocks s) (bm a)"])
    moreover have "?n + (sz - (bw + ?n)) = sz - bw"
      using chunk_le [OF less.prems(8), of "offset x"] by simp
    ultimately show ?thesis using written_trans [OF step(3,5) g(2) u(2)] by metis
  qed
qed

lemma write_loop_eq:
  assumes rel: "ufs_rel fl bm s" and f: "files s a = Some f"
    and d: "descs s d = Some x" "desc_file x = a"
    and p: "p = first_ptr (drop (offset x div BS) (bm a)) None" and sz: "sz \<le> length buf" "0 < sz"
  shows "\<exists>t. write_loop d buf sz p 0 s = Some (sz, t) \<and>
    written fl bm a f d x sz (lwrite (view (blocks s) (bm a)) (offset x) (write_data buf sz 0)) s t"
proof -
  let ?n = "chunk_size sz 0 (offset x)" and ?i = "offset x div BS"
  obtain t as j where step: "write_chunk d buf sz p 0 s = Some (as ! j, ?n, t)"
    "ufs_rel fl (bm(a := as)) t" "only_file a bm s t"
    "map_option file_size (files t a) = Some (file_size f)"
    "descs t = (descs s)(d \<mapsto> x\<lparr>offset := offset x + ?n\<rparr>)"
    "view (blocks t) as = lchunk (view (blocks s) (bm a)) ?i (offset x mod BS) (chunk_data buf sz 0 (offset x))"
    "j < length as" "offset x mod BS + ?n = BS \<longrightarrow> snd (view (blocks t) as ! j) = Some (int BS)"
    using write_chunk_step [OF rel f d disjI1 [OF refl] p sz(1), of 0] by auto
  from step(4) obtain g where g: "files t a = Some g" "file_size g = file_size f" by auto
  have "offset x mod BS + ?n = BS \<and> (offset x + ?n) mod BS = 0" if "?n < sz"
    using chunk_to_boundary [of 0 sz "offset x"] that by simp
  then obtain u where u: "write_loop d buf sz (Some (as ! j)) ?n t = Some (sz, u)"
    "written fl (bm(a := as)) a g d (x\<lparr>offset := offset x + ?n\<rparr>) (sz - ?n)
       (lrest (view (blocks t) as) (write_data buf sz ?n)) t u"
    using write_rest [of fl "bm(a := as)" t a g d "x\<lparr>offset := offset x + ?n\<rparr>" j "Some (as ! j)" sz buf ?n]
      step(2,5,7,8) g(1) d(2) sz chunk_le [of 0 sz "offset x"] by auto
  have "write_loop d buf sz p 0 s = Some (sz, u)"
    using step(1) u(1) sz(2) by (simp add: write_loop.simps [of d buf sz p])
  moreover have "lrest (view (blocks t) as) (write_data buf sz ?n) =
      lwrite (view (blocks s) (bm a)) (offset x) (write_data buf sz 0)"
    using write_data_chunk [OF sz(1), of 0 "offset x"] by (simp add: step(6) lwrite_def Let_def)
  moreover have "?n + (sz - ?n) = sz" using chunk_le [of 0 sz "offset x"] by simp
  ultimately show ?thesis using written_trans [OF step(3,5) g(2) u(2)] by metis
qed

subsection \<open>The call\<close>

definition may_write :: "32 word \<Rightarrow> bool" where
  "may_write flags \<longleftrightarrow> has_flag flags UFS_WRITE_ONLY \<or> has_flag flags UFS_READ_WRITE"

lemma write_call:
  assumes rel: "ufs_rel fl bm s" and found: "find_desc fd s = Some (Some (i, d))"
    and d: "descs s d = Some x" "desc_file x = a" and f: "files s a = Some f"
    and ok: "may_write (open_flags x)" and sz: "0 < sz" "sz \<le> length buf" "file_size f + sz \<le> MAX_FILE_SIZE"
  shows "\<exists>t as. ufs_write fd buf sz s = Some (int sz, t) \<and> ufs_rel fl (bm(a := as)) t \<and>
    only_file a bm s t \<and> map_option file_size (files t a) = Some (max (file_size f) (offset x + sz)) \<and>
    descs t = (descs s)(d \<mapsto> x\<lparr>offset := offset x + sz\<rparr>) \<and>
    view (blocks t) as = lwrite (view (blocks s) (bm a)) (offset x) (write_data buf sz 0)"
proof -
  let ?p = "first_ptr (drop (offset x div BS) (bm a)) None"
  have bl: "block_list (blocks s) f (bm a)" by (rule blocks_relD(1) [OF ufs_relD(2) [OF rel] f])
  have "offset x \<le> BS * length (bm a)"
    using ufs_relD(4) [OF rel] d by (auto simp: descs_rel_def BLOCK_SIZE_def)
  then have "offset x div BS \<le> length (bm a)"
    by (metis div_le_mono nonzero_mult_div_cancel_left zero_neq_numeral)
  with bl have seek: "seek_block (offset x div BLOCK_SIZE) (first_block f) s = Some ?p"
    using seek_block_eq [of s None "first_block f" "bm a" "offset x div BLOCK_SIZE"]
    by (simp add: block_list_def BLOCK_SIZE_def)
  obtain u as where u: "write_loop d buf sz ?p 0 s = Some (sz, u)"
    "ufs_rel fl (bm(a := as)) u" "only_file a bm s u"
    "map_option file_size (files u a) = Some (file_size f)"
    "descs u = (descs s)(d \<mapsto> x\<lparr>offset := offset x + sz\<rparr>)"
    "view (blocks u) as = lwrite (view (blocks s) (bm a)) (offset x) (write_data buf sz 0)"
    using write_loop_eq [OF rel f d refl sz(2,1)] unfolding written_def by blast
  from u(4) obtain g where g: "files u a = Some g" "file_size g = file_size f" by auto
  have du: "descs u d = Some (x\<lparr>offset := offset x + sz\<rparr>)" using u(5) by simp
  have n: "offset x + sz \<le> BLOCK_SIZE * length ((bm(a := as)) a)"
    using ufs_relD(4) [OF u(2), unfolded descs_rel_def, rule_format, OF du] d(2) by simp
  let ?t = "u\<lparr>files := (files u)(a \<mapsto> g\<lparr>file_size := offset x + sz\<rparr>)\<rparr>"
  note grown = set_size_step [OF u(2) g(1) n]
  define t where "t = (if offset x + sz > file_size f then ?t else u)"
  have "ufs_write fd buf sz s = Some (int sz, t)"
  proof -
    have "sz \<le> MAX_FILE_SIZE" using sz(3) by simp
    then have small: "cast_ssize sz = int sz" "size_add (file_size f) sz = file_size f + sz"
      using sz(3) by (simp_all add: MAX_FILE_SIZE_def)
    have "(if offset x + sz > file_size f
           then upd_file a (\<lambda>f. f\<lparr>file_size := offset x + sz\<rparr>) u else Some u) = Some t"
      using g by (simp add: t_def upd_file_def)
    moreover have perm: "\<not> (\<not> has_flag (open_flags x) UFS_WRITE_ONLY \<and> \<not> has_flag (open_flags x) UFS_READ_WRITE)"
      using ok by (simp add: may_write_def)
    ultimately show ?thesis
      using found d f sz seek u(1) du g small
      by (cases "offset x + sz > file_size f") (simp_all add: ufs_write_def if_not_P [OF perm])
  qed
  moreover have "ufs_rel fl (bm(a := as)) t" "only_file a bm s t"
    "map_option file_size (files t a) = Some (max (file_size f) (offset x + sz))"
    "descs t = descs u" "blocks t = blocks u"
    using u(2,3) grown g only_file_trans [OF u(3) grown(2)]
    by (simp_all add: t_def del: fun_upd_apply) simp_all
  ultimately show ?thesis using u(5,6) by metis
qed

text \<open>What the call promises on abstract states; the bytes are the subject of the lemmas after it.\<close>

definition write_spec :: "int \<Rightarrow> nat \<Rightarrow> afs \<Rightarrow> int \<Rightarrow> afs \<Rightarrow> bool" where
  "write_spec fd sz A r A' \<longleftrightarrow>
     (case a_fds A fd of
        None \<Rightarrow> r = -1 \<and> A' = A\<lparr>a_errno := UFS_ERR_NO_FILE\<rparr>
      | Some d \<Rightarrow>
          if \<not> may_write (open_flags d) then r = -1 \<and> A' = A\<lparr>a_errno := UFS_ERR_NO_PERMISSION\<rparr>
          else if sz = 0 then r = 0 \<and> A' = A
          else (case a_files A (desc_file d) of
             None \<Rightarrow> False
           | Some f \<Rightarrow>
               if a_size f + sz > MAX_FILE_SIZE then r = -1 \<and> A' = A\<lparr>a_errno := UFS_ERR_NO_MEM\<rparr>
               else r = int sz \<and>
                 (\<exists>data. A' = A\<lparr>
                    a_files := (a_files A)(desc_file d \<mapsto>
                      f\<lparr>a_size := max (a_size f) (offset d + sz), a_data := data\<rparr>),
                    a_fds := (a_fds A)(fd \<mapsto> d\<lparr>offset := offset d + sz\<rparr>)\<rparr>)))"

text \<open>All files have less than \<open>n\<close> bytes in their blocks.\<close>

definition files_below :: "nat \<Rightarrow> ufs \<Rightarrow> bool" where
  "files_below n s \<longleftrightarrow> (\<forall>a f. a_files (abs_ufs s) a = Some f \<longrightarrow> length (a_data f) < n)"

lemma length_a_data:
  assumes "ufs_rel fl bm s" and "files s a = Some f"
  shows "length (a_data (abs_file (blocks s) f)) = BS * length (bm a)"
proof -
  have bl: "block_list (blocks s) f (bm a)" by (rule blocks_relD(1) [OF ufs_relD(2) [OF assms(1)] assms(2)])
  have "sized (view (blocks s) (bm a))"
    unfolding sized_def view_def
  proof clarsimp
    fix b assume "b \<in> set (bm a)"
    then obtain blk where blk: "blocks s b = Some blk"
      using bl by (metis block_list_def dll_live)
    then have "block_ok blk" using ufs_rel_okD [OF assms(1)] by (auto simp: blocks_ok_def ran_def)
    with blk show "length (fst (case blocks s b of None \<Rightarrow> ([], None) | Some x \<Rightarrow> (memory x, occupied x))) = BS"
      by (simp add: block_ok_def BLOCK_SIZE_def)
  qed
  then show ?thesis by (simp add: abs_file_data [OF bl] raw_view length_raw)
qed

lemma abs_write:
  assumes rel: "ufs_rel fl bm s" and f: "files s a = Some f"
    and i: "i < length (desc_table s)" "desc_table s ! i = Some d"
    and t: "only_file a bm s t" "ufs_rel fl (bm(a := as)) t" "descs t = (descs s)(d \<mapsto> y)"
      "map_option file_size (files t a) = Some n"
  shows "abs_ufs t = (abs_ufs s)\<lparr>
    a_files := (a_files (abs_ufs s))(a \<mapsto>
      (abs_file (blocks s) f)\<lparr>a_size := n, a_data := raw (view (blocks t) as)\<rparr>),
    a_fds := (a_fds (abs_ufs s))(int i + 1 \<mapsto> y)\<rparr>"
proof -
  from t(4) obtain g where g: "files t a = Some g" "file_size g = n" by auto
  have "file_part a (bm(a := as)) ((bm(a := as)) a) t" by (rule core_file_part [OF ufs_rel_coreD [OF t(2)] g(1)])
  then have part: "file_part a bm as t" by (simp add: file_part_def)
  have "desc_table t = desc_table s" "ufs_error_code t = ufs_error_code s"
    using t(1) by (simp_all add: only_file_def desc_table_def)
  with fd_lookup_set_desc [OF ufs_relD(3) [OF rel] i _ t(3)]
    only_file_abs [OF ufs_rel_coreD [OF rel] t(1) part f g(1)] g(2)
  show ?thesis by (simp add: abs_ufs_def)
qed

lemma write_call_refines:
  assumes inv: "ufs_inv s" and fd: "fd_arg fd" and sz: "sz \<le> length buf" "sz < 2 ^ 63"
    and small: "files_below (2 ^ 63) s"
  shows "\<exists>r t. ufs_write fd buf sz s = Some (r, t) \<and> ufs_inv t \<and> write_spec fd sz (abs_ufs s) r (abs_ufs t)"
proof -
  from inv obtain fl bm where rel: "ufs_rel fl bm s" by (auto simp: ufs_inv_def)
  note table = ufs_relD(3) [OF rel]
  from table fd_argD [OF fd] show ?thesis
  proof (cases rule: find_desc_inv)
    case none
    with inv show ?thesis by (simp add: ufs_write_def fail_with_def write_spec_def abs_errno)
  next
    case (found i d x)
    let ?a = "desc_file x"
    obtain f where f: "files s ?a = Some f" using ufs_relD(4) [OF rel] found(5) by (auto simp: descs_rel_def)
    have size: "file_size f < 2 ^ 63"
    proof -
      have "length (a_data (abs_file (blocks s) f)) < 2 ^ 63"
        using small f unfolding files_below_def by (metis abs_ufs_sel(2) option.map(2))
      moreover have "file_size f \<le> BLOCK_SIZE * length (bm ?a)"
        using ufs_relD(6) [OF rel] f by (simp add: sizes_rel_def)
      ultimately show ?thesis using length_a_data [OF rel f] by (simp add: BLOCK_SIZE_def)
    qed
    consider "\<not> may_write (open_flags x)" | "may_write (open_flags x)" "sz = 0"
      | "may_write (open_flags x)" "0 < sz" "file_size f + sz > MAX_FILE_SIZE"
      | "may_write (open_flags x)" "0 < sz" "file_size f + sz \<le> MAX_FILE_SIZE" by force
    then show ?thesis
    proof cases
      case 4
      obtain t as where t: "ufs_write fd buf sz s = Some (int sz, t)" "ufs_rel fl (bm(?a := as)) t"
        "only_file ?a bm s t" "map_option file_size (files t ?a) = Some (max (file_size f) (offset x + sz))"
        "descs t = (descs s)(d \<mapsto> x\<lparr>offset := offset x + sz\<rparr>)"
        using write_call [OF rel found(1,5) refl f 4(1,2) sz(1) 4(3)] by blast
      have "write_spec fd sz (abs_ufs s) (int sz) (abs_ufs t)"
        unfolding abs_write [OF rel f found(3,4) t(3,2,5,4)] using 4 found(2,6) f
        by (auto simp: write_spec_def)
      with t(1,2) show ?thesis by (blast intro: ufs_invI)
    qed (use inv found f size sz in \<open>auto simp: ufs_write_def may_write_def fail_with_def write_spec_def abs_errno\<close>)
  qed
qed

subsection \<open>The bytes\<close>

text \<open>The file is stored without gaps: all blocks but the last are full.\<close>

definition tight_file :: "ufs \<Rightarrow> addr \<Rightarrow> bool" where
  "tight_file s a \<longleftrightarrow> (case files s a of None \<Rightarrow> False | Some f \<Rightarrow> tight (file_view s f) (file_size f))"

definition file_bytes :: "ufs \<Rightarrow> addr \<Rightarrow> cell list option" where
  "file_bytes s a = map_option contents (a_files (abs_ufs s) a)"

lemma file_view_rel:
  "ufs_rel fl bm s \<Longrightarrow> files s a = Some f \<Longrightarrow> file_view s f = view (blocks s) (bm a)"
  by (rule file_view_eq [OF blocks_relD(1) [OF ufs_relD(2)]])

lemma file_bytes_rel:
  assumes "ufs_rel fl bm s" and "files s a = Some f"
  shows "file_bytes s a = Some (take (file_size f) (raw (view (blocks s) (bm a))))"
  using assms abs_file_data [OF blocks_relD(1) [OF ufs_relD(2) [OF assms(1)] assms(2)]]
  by (simp add: file_bytes_def contents_def raw_view)

lemma write_effect:
  assumes inv: "ufs_inv s" and fd: "fd_arg fd" "fd_lookup s fd = Some x" and ok: "may_write (open_flags x)"
    and f: "files s (desc_file x) = Some f"
    and sz: "0 < sz" "sz \<le> length buf" "file_size f + sz \<le> MAX_FILE_SIZE"
  obtains t fl bm as g where "ufs_write fd buf sz s = Some (int sz, t)" "ufs_rel fl bm s"
    "ufs_rel fl (bm(desc_file x := as)) t" "files t (desc_file x) = Some g"
    "file_size g = max (file_size f) (offset x + sz)" "file_view s f = view (blocks s) (bm (desc_file x))"
    "view (blocks t) as = lwrite (file_view s f) (offset x) (map Some (take sz buf))"
proof -
  from inv obtain fl bm where rel: "ufs_rel fl bm s" by (auto simp: ufs_inv_def)
  from ufs_relD(3) [OF rel] fd_argD [OF fd(1)] show thesis
  proof (cases rule: find_desc_inv)
    case none
    with fd(2) show thesis by simp
  next
    case (found i d y)
    then have y: "descs s d = Some x" using fd(2) by simp
    show thesis
      using write_call [OF rel found(1) y refl f ok sz] that [OF _ rel]
        file_view_rel [OF rel f] by (auto simp: write_data_def)
  qed
qed

lemma write_contents:
  assumes inv: "ufs_inv s" and fd: "fd_arg fd" "fd_lookup s fd = Some x" and ok: "may_write (open_flags x)"
    and f: "files s (desc_file x) = Some f"
    and sz: "0 < sz" "sz \<le> length buf" "file_size f + sz \<le> MAX_FILE_SIZE"
    and tight: "tight_file s (desc_file x)"
    and pos: "offset x \<le> file_size f" "file_size f div BLOCK_SIZE \<le> offset x div BLOCK_SIZE"
  shows "\<exists>t. ufs_write fd buf sz s = Some (int sz, t) \<and> tight_file t (desc_file x) \<and>
    file_bytes t (desc_file x) =
      map_option (\<lambda>bytes. overwrite bytes (offset x) (map Some (take sz buf))) (file_bytes s (desc_file x))"
proof -
  let ?a = "desc_file x" and ?data = "map Some (take sz buf)"
  obtain t fl bm as g where t: "ufs_write fd buf sz s = Some (int sz, t)" "ufs_rel fl bm s"
    "ufs_rel fl (bm(?a := as)) t" "files t ?a = Some g" "file_size g = max (file_size f) (offset x + sz)"
    "file_view s f = view (blocks s) (bm ?a)" "view (blocks t) as = lwrite (file_view s f) (offset x) ?data"
    by (rule write_effect [OF inv fd ok f sz])
  let ?L = "view (blocks s) (bm ?a)" and ?n = "file_size f"
  have tL: "tight ?L ?n" using tight f t(6) by (simp add: tight_file_def)
  have len: "length ?data = sz" "?data \<noteq> []" using sz by auto
  from lwrite_tight [OF tL pos(1) pos(2) [unfolded BLOCK_SIZE_def] len(2)] obtain pad where
    w: "tight (view (blocks t) as) (max ?n (offset x + sz))"
       "raw (view (blocks t) as) = overwrite (raw ?L @ replicate pad None) (offset x) ?data"
    unfolding t(7,6) len(1) by blast
  have n: "?n \<le> length (raw ?L)" using tight_bound [OF tL] length_raw [OF tight_sized [OF tL]] by simp
  have "take (max ?n (offset x + sz)) (raw (view (blocks t) as)) = overwrite (take ?n (raw ?L)) (offset x) ?data"
    using take_overwrite_max [OF pos(1), of "raw ?L @ replicate pad None" ?data] n
    unfolding w(2) len(1) by simp
  moreover have "file_view t g = view (blocks t) as" using file_view_rel [OF t(3,4)] by simp
  ultimately show ?thesis
    using t w(1) file_bytes_rel [OF t(2) f] file_bytes_rel [OF t(3,4)]
    by (simp add: tight_file_def)
qed

lemma write_lost:
  assumes inv: "ufs_inv s" and fd: "fd_arg fd" "fd_lookup s fd = Some x" and ok: "may_write (open_flags x)"
    and f: "files s (desc_file x) = Some f"
    and sz: "0 < sz" "sz \<le> length buf" "file_size f + sz \<le> MAX_FILE_SIZE"
    and tight: "tight_file s (desc_file x)"
    and pos: "offset x div BLOCK_SIZE < file_size f div BLOCK_SIZE" "offset x + sz \<le> file_size f"
  shows "\<exists>t. ufs_write fd buf sz s = Some (int sz, t) \<and>
    file_bytes t (desc_file x) = file_bytes s (desc_file x)"
proof -
  let ?a = "desc_file x" and ?data = "map Some (take sz buf)"
  obtain t fl bm as g where t: "ufs_write fd buf sz s = Some (int sz, t)" "ufs_rel fl bm s"
    "ufs_rel fl (bm(?a := as)) t" "files t ?a = Some g" "file_size g = max (file_size f) (offset x + sz)"
    "file_view s f = view (blocks s) (bm ?a)" "view (blocks t) as = lwrite (file_view s f) (offset x) ?data"
    by (rule write_effect [OF inv fd ok f sz])
  let ?L = "view (blocks s) (bm ?a)" and ?n = "file_size f"
  have tL: "tight ?L ?n" using tight f t(6) by (simp add: tight_file_def)
  obtain M where M: "view (blocks t) as = ?L @ M"
    using tight_write_lost [OF tL pos(1) [unfolded BLOCK_SIZE_def], of ?data] t(6,7) by auto
  have "?n \<le> length (raw ?L)" using tight_bound [OF tL] length_raw [OF tight_sized [OF tL]] by simp
  then have "take (file_size g) (raw (view (blocks t) as)) = take ?n (raw ?L)"
    using pos(2) by (simp add: t(5) M max_def)
  then show ?thesis
    using t(1) file_bytes_rel [OF t(2) f] file_bytes_rel [OF t(3,4)] by simp
qed

end
