(* ===== verification/UserfsRead.thy ===== *)
theory UserfsRead
  imports UserfsWrite
begin

section \<open>The file system: \<open>ufs_read\<close>\<close>

text \<open>
  The read loop computes \<open>lread\<close> of \<open>UserfsBlocks\<close> and moves the offset of its descriptor,
  nothing else. The offset is cast to \<open>int\<close> before the remainder by 512 is taken, so the
  result needs the blocks of each file to have less than \<open>2 ^ 31\<close> bytes; with more, the cast
  can give a negative remainder and an access before the block.
\<close>

subsection \<open>The loop\<close>

lemma smod_nonneg: "0 \<le> a \<Longrightarrow> 0 < b \<Longrightarrow> a smod b = a mod (b::int)"
  by (cases "a = 0") (simp_all add: smod_int_alt_def)

lemma block_offset: "n < 2 ^ 31 \<Longrightarrow> cast_int n smod int BLOCK_SIZE = int (n mod BS)"
  by (simp add: smod_nonneg BLOCK_SIZE_def zmod_int)

definition used_ok :: "blk list \<Rightarrow> bool" where
  "used_ok L \<longleftrightarrow> (\<forall>b \<in> set L. length (fst b) = BS \<and> (\<exists>k. snd b = Some k \<and> 0 \<le> k \<and> k \<le> int BS))"

lemma next_boundary:
  assumes "c \<le> BS - pos mod BS"
  shows "pos + c \<le> BS * Suc (pos div BS)" and "(pos + c) div BS \<le> Suc (pos div BS)"
proof -
  have "pos + (BS - pos mod BS) = BS * Suc (pos div BS)"
    by (rule up_to_boundary [OF _ mult_div_mod_eq]) simp
  with assms show le: "pos + c \<le> BS * Suc (pos div BS)" by linarith
  show "(pos + c) div BS \<le> Suc (pos div BS)"
    using div_le_mono [OF le, of BS] by simp
qed

lemma lread_bound:
  "used_ok L \<Longrightarrow> L \<noteq> [] \<Longrightarrow> pos + length (lread L pos sz) \<le> BS * (pos div BS + length L)"
proof (induction L pos sz rule: lread.induct)
  case (3 m k L pos sz)
  have k: "k \<le> int BS" "length m = BS" using "3.prems"(1) by (auto simp: used_ok_def)
  show ?case
  proof (cases "sz = 0 \<or> k \<le> int (pos mod BS)")
    case True
    have "pos \<le> BS * Suc (pos div BS)" using next_boundary(1) [of 0 pos] by simp
    also have "\<dots> \<le> BS * (pos div BS + length ((m, Some k) # L))" by (intro mult_le_mono) simp_all
    finally show ?thesis using True by simp
  next
    case False
    define c where "c = min (nat k - pos mod BS) sz"
    have c: "c \<le> BS - pos mod BS" unfolding c_def using k(1) by linarith
    note nb = next_boundary [OF c]
    have "lread ((m, Some k) # L) pos sz = take c (drop (pos mod BS) m) @ lread L (pos + c) (sz - c)"
      unfolding lread.simps if_not_P [OF False] Let_def c_def by (rule refl)
    moreover have "length (take c (drop (pos mod BS) m)) = c" using c k(2) by simp
    ultimately have len: "length (lread ((m, Some k) # L) pos sz) = c + length (lread L (pos + c) (sz - c))"
      by (simp only: length_append)
    show ?thesis
    proof (cases "L = []")
      case True
      then have "pos + length (lread ((m, Some k) # L) pos sz) = pos + c" unfolding len by simp
      with nb(1) True show ?thesis by (simp only: list.size One_nat_def add_Suc_right add_0_right)
    next
      case L: False
      have "used_ok L" using "3.prems"(1) by (simp add: used_ok_def)
      then have "pos + c + length (lread L (pos + c) (sz - c)) \<le> BS * ((pos + c) div BS + length L)"
        using "3.IH" [OF False c_def _ L] by blast
      also have "\<dots> \<le> BS * (Suc (pos div BS) + length L)" using nb(2) by (intro mult_le_mono) simp_all
      finally show ?thesis unfolding len list.size by (simp only: add.assoc add_Suc add_Suc_right One_nat_def add_0_right)
    qed
  qed
qed (simp_all add: used_ok_def)

lemma length_lread: "length (lread L pos sz) \<le> sz"
proof (induction L pos sz rule: lread.induct)
  case (3 m k L pos sz)
  show ?case
  proof (cases "sz = 0 \<or> k \<le> int (pos mod BS)")
    case False
    let ?c = "min (nat k - pos mod BS) sz"
    have "length (lread L (pos + ?c) (sz - ?c)) \<le> sz - ?c" by (rule "3.IH" [OF False refl])
    then show ?thesis
      unfolding lread.simps if_not_P [OF False] Let_def length_append length_take by linarith
  qed (simp only: lread.simps if_True list.size)
qed simp_all

definition moved :: "addr \<Rightarrow> filedesc \<Rightarrow> nat \<Rightarrow> ufs \<Rightarrow> ufs" where
  "moved d x n s = s\<lparr>descs := (descs s)(d \<mapsto> x\<lparr>offset := offset x + n\<rparr>)\<rparr>"

lemma moved_sel [simp]:
  "descs (moved d x n s) = (descs s)(d \<mapsto> x\<lparr>offset := offset x + n\<rparr>)"
  "files (moved d x n s) = files s" "blocks (moved d x n s) = blocks s"
  "fresh_addr (moved d x n s) = fresh_addr s"
  by (simp_all add: moved_def)

lemma moved_0 [simp]: "descs s d = Some x \<Longrightarrow> moved d x 0 s = s"
  by (simp add: moved_def fun_upd_idem)

lemma moved_moved: "moved d (x\<lparr>offset := offset x + n\<rparr>) k (moved d x n s) = moved d x (n + k) s"
  by (simp add: moved_def add.assoc)

lemma read_loop_eq:
  "dll next_block prev_block (blocks s) q p bs None \<Longrightarrow> used_ok (view (blocks s) bs) \<Longrightarrow>
   descs s d = Some x \<Longrightarrow> sz < 2 ^ 63 \<Longrightarrow> length out \<le> sz \<Longrightarrow>
   offset x div BS + length bs \<le> N \<Longrightarrow> BS * N < 2 ^ 31 \<Longrightarrow>
   read_loop d sz p out s =
     Some (out @ lread (view (blocks s) bs) (offset x) (sz - length out),
       moved d x (length (lread (view (blocks s) bs) (offset x) (sz - length out))) s)"
proof (induction bs arbitrary: q p s x out)
  case Nil
  then show ?case by (simp add: read_loop.simps)
next
  case (Cons b bs)
  then obtain blk where p: "p = Some b" and blk: "blocks s b = Some blk"
    and dll: "dll next_block prev_block (blocks s) (Some b) (next_block blk) bs None"
    by (auto split: option.splits)
  from Cons.prems(2) blk obtain k where k: "occupied blk = Some k" "0 \<le> k" "k \<le> int BS"
    and mem: "length (memory blk) = BS" and used: "used_ok (view (blocks s) bs)"
    by (auto simp: used_ok_def)
  define r where "r = offset x mod BS"
  let ?n = "sz - length out"
  have sz: "cast_ssize sz = int sz" using Cons.prems(4) by simp
  have "offset x \<le> BS * Suc (offset x div BS)" using next_boundary(1) [of 0 "offset x"] by simp
  also have "\<dots> \<le> BS * N" using Cons.prems(6) by (intro mult_le_mono) simp_all
  finally have off: "cast_int (offset x) smod int BLOCK_SIZE = int r"
    unfolding r_def using Cons.prems(7) by (intro block_offset) simp
  note unfold = read_loop.simps [of d sz "Some b" out s]
  have view: "view (blocks s) (b # bs) = (memory blk, Some k) # view (blocks s) bs"
    by (simp add: blk k(1))
  show ?case
  proof (cases "?n = 0 \<or> k \<le> int r")
    case True
    then have "lread (view (blocks s) (b # bs)) (offset x) ?n = []"
      unfolding view lread.simps r_def by (rule if_P)
    moreover have "read_loop d sz p out s = Some (out, s)"
      using True Cons.prems(3) blk k(1) by (auto simp: p unfold off sz)
    ultimately show ?thesis using Cons.prems(3) by simp
  next
    case False
    define c where "c = min (nat k - r) ?n"
    let ?cs = "take c (drop r (memory blk))"
    let ?s = "moved d x c s" and ?x = "x\<lparr>offset := offset x + c\<rparr>"
    have c: "c \<le> BS - r" "c \<le> ?n" unfolding c_def using k(3) by linarith+
    have cs: "length ?cs = c" using c mem by simp
    have rd: "mem_read (memory blk) r c = Some ?cs"
      unfolding c_def using False k(2,3) mem by (intro mem_read_Some) linarith
    have "int (length out) < int sz" "\<not> 0 \<le> int r - k" "nat (k - int r) = nat k - r"
      using False Cons.prems(5) k(2) by auto
    then have step: "read_loop d sz p out s = read_loop d sz (next_block blk) (out @ ?cs) ?s"
      using Cons.prems(3) rd unfolding p
      by (subst unfold) (simp add: off sz blk k(1) Let_def upd_desc_def moved_def c_def [symmetric])
    have len: "sz - length (out @ ?cs) = ?n - c" unfolding length_append cs by simp
    have "read_loop d sz (next_block blk) (out @ ?cs) ?s =
        Some ((out @ ?cs) @ lread (view (blocks s) bs) (offset ?x) (?n - c),
          moved d ?x (length (lread (view (blocks s) bs) (offset ?x) (?n - c))) ?s)"
    proof -
      have out: "length (out @ ?cs) \<le> sz" unfolding length_append cs using Cons.prems(5) c(2) by linarith
      have "(offset x + c) div BS + length bs \<le> N"
        using next_boundary(2) [of c "offset x"] c(1) Cons.prems(6) by (simp add: r_def)
      then have N: "offset ?x div BS + length bs \<le> N" by simp
      have "descs ?s d = Some ?x" "dll next_block prev_block (blocks ?s) (Some b) (next_block blk) bs None"
        "used_ok (view (blocks ?s) bs)" using dll used by simp_all
      from Cons.IH [OF this(2,3,1) Cons.prems(4) out N Cons.prems(7)]
      show ?thesis unfolding len moved_sel(3) .
    qed
    moreover have "lread (view (blocks s) (b # bs)) (offset x) ?n =
        ?cs @ lread (view (blocks s) bs) (offset ?x) (?n - c)"
      using False unfolding view lread.simps r_def [symmetric] by (simp add: Let_def c_def)
    ultimately show ?thesis unfolding step by (simp only: append_assoc length_append cs moved_moved)
  qed
qed

subsection \<open>The call\<close>

definition may_read :: "32 word \<Rightarrow> bool" where
  "may_read flags \<longleftrightarrow> has_flag flags UFS_READ_ONLY \<or> has_flag flags UFS_READ_WRITE"

lemma view_used_ok:
  assumes "ufs_rel fl bm s" and "files s a = Some f"
  shows "used_ok (view (blocks s) (bm a))"
  unfolding used_ok_def
proof
  fix c assume "c \<in> set (view (blocks s) (bm a))"
  then obtain b where b: "b \<in> set (bm a)"
    "c = (case blocks s b of None \<Rightarrow> ([], None) | Some x \<Rightarrow> (memory x, occupied x))"
    by (auto simp: view_def)
  then obtain blk where blk: "blocks s b = Some blk"
    using blocks_relD(1) [OF ufs_relD(2) [OF assms(1)] assms(2)] by (metis block_list_def dll_live)
  then have "block_ok blk" using ufs_rel_okD [OF assms(1)] by (auto simp: blocks_ok_def ran_def)
  with b(2) blk show "length (fst c) = BS \<and> (\<exists>k. snd c = Some k \<and> 0 \<le> k \<and> k \<le> int BS)"
    by (simp add: block_ok_def BLOCK_SIZE_def)
qed

lemma moved_rel:
  assumes rel: "ufs_rel fl bm s" and f: "files s (desc_file x) = Some f" and d: "descs s d = Some x"
    and n: "offset x + n \<le> BLOCK_SIZE * length (bm (desc_file x))"
  shows "ufs_rel fl bm (moved d x n s)" and "only_file (desc_file x) bm s (moved d x n s)"
proof -
  let ?a = "desc_file x"
  show only: "only_file ?a bm s (moved d x n s)"
    by (rule only_fileI [of s ?a f _ f]) (use f d in \<open>auto simp: moved_def fun_upd_idem\<close>)
  have old: "file_part ?a bm (bm ?a) s" by (rule core_file_part [OF ufs_rel_coreD [OF rel] f])
  have "offset y \<le> BLOCK_SIZE * length (bm ?a)"
    if "descs (moved d x n s) e = Some y" "desc_file y = ?a" for e y
    using that old n by (cases "e = d") (auto simp: file_part_def)
  with old have part: "file_part ?a bm (bm ?a) (moved d x n s)"
    unfolding file_part_def moved_sel(2-4) by blast
  have ok: "block_ok y" if "blocks (moved d x n s) b = Some y" for b y
    using ufs_rel_okD [OF rel] that by (auto simp: blocks_ok_def ran_def)
  from only_file_rel [OF rel only part ok] show "ufs_rel fl bm (moved d x n s)" by simp
qed

lemma read_call:
  assumes rel: "ufs_rel fl bm s" and found: "find_desc fd s = Some (Some (i, d))"
    and d: "descs s d = Some x" and f: "files s (desc_file x) = Some f"
    and ok: "may_read (open_flags x)" and pos: "offset x < file_size f" and sz: "sz < 2 ^ 63"
    and small: "BS * length (bm (desc_file x)) < 2 ^ 31"
    and out: "out = lread (drop (offset x div BS) (file_view s f)) (offset x) sz"
  shows "ufs_read fd sz s = Some (int (length out), out, moved d x (length out) s)"
    and "ufs_rel fl bm (moved d x (length out) s)"
    and "only_file (desc_file x) bm s (moved d x (length out) s)"
proof -
  let ?as = "bm (desc_file x)"
  let ?bs = "drop (offset x div BS) ?as"
  have bl: "block_list (blocks s) f ?as" by (rule blocks_relD(1) [OF ufs_relD(2) [OF rel] f])
  have "file_size f \<le> BS * length ?as" using ufs_relD(6) [OF rel] f by (simp add: sizes_rel_def BLOCK_SIZE_def)
  with pos have off: "offset x div BS < length ?as" by (simp add: less_mult_imp_div_less mult.commute)
  let ?p = "first_ptr ?bs None"
  have seek: "seek_block_read (offset x div BLOCK_SIZE) (first_block f) s = Some (Some ?p)"
    using seek_block_read_eq [of s None "first_block f" ?as "offset x div BLOCK_SIZE"] bl off
    by (simp add: block_list_def BLOCK_SIZE_def)
  have "dll next_block prev_block (blocks s) None (first_block f)
      (take (offset x div BS) ?as @ ?bs) None"
    using bl by (simp add: block_list_def)
  then have dll: "dll next_block prev_block (blocks s) (last_ptr None (take (offset x div BS) ?as)) ?p ?bs None"
    unfolding dll_append by blast
  have vw: "view (blocks s) ?bs = drop (offset x div BS) (file_view s f)"
    by (simp add: file_view_rel [OF rel f] view_def drop_map)
  have used: "used_ok (view (blocks s) ?bs)"
    using view_used_ok [OF rel f] unfolding vw file_view_rel [OF rel f] used_ok_def by (meson in_set_dropD)
  have N: "offset x div BS + length ?bs \<le> length ?as" using off by simp
  have loop: "read_loop d sz ?p [] s = Some (out, moved d x (length out) s)"
    using read_loop_eq [OF dll used d sz _ N small, of "[]"] unfolding vw out by simp
  have perm: "\<not> (\<not> has_flag (open_flags x) UFS_READ_ONLY \<and> \<not> has_flag (open_flags x) UFS_READ_WRITE)"
    using ok by (simp add: may_read_def)
  show "ufs_read fd sz s = Some (int (length out), out, moved d x (length out) s)"
    using found d f seek loop pos by (simp add: ufs_read_def if_not_P [OF perm])
  have "offset x + length out \<le> BS * (offset x div BS + length ?bs)"
    using lread_bound [OF used, of "offset x" sz] off unfolding out vw [symmetric] by fastforce
  also have "\<dots> \<le> BS * length ?as" using N by (intro mult_le_mono) simp_all
  finally have "offset x + length out \<le> BLOCK_SIZE * length ?as" by (simp add: BLOCK_SIZE_def)
  from moved_rel [OF rel f d this] show "ufs_rel fl bm (moved d x (length out) s)"
    "only_file (desc_file x) bm s (moved d x (length out) s)" by blast+
qed

definition read_spec :: "int \<Rightarrow> nat \<Rightarrow> afs \<Rightarrow> int \<Rightarrow> cell list \<Rightarrow> afs \<Rightarrow> bool" where
  "read_spec fd sz A r out A' \<longleftrightarrow>
     (case a_fds A fd of
        None \<Rightarrow> r = -1 \<and> out = [] \<and> A' = A\<lparr>a_errno := UFS_ERR_NO_FILE\<rparr>
      | Some d \<Rightarrow>
          if \<not> may_read (open_flags d)
          then r = -1 \<and> out = [] \<and> A' = A\<lparr>a_errno := UFS_ERR_NO_PERMISSION\<rparr>
          else (case a_files A (desc_file d) of
             None \<Rightarrow> False
           | Some f \<Rightarrow>
               r = int (length out) \<and> length out \<le> sz \<and> (a_size f \<le> offset d \<longrightarrow> out = []) \<and>
               A' = A\<lparr>a_fds := (a_fds A)(fd \<mapsto> d\<lparr>offset := offset d + length out\<rparr>)\<rparr>))"

lemma files_belowD:
  assumes "files_below n s" and "ufs_rel fl bm s" and "files s a = Some f"
  shows "BS * length (bm a) < n"
  using assms(1) length_a_data [OF assms(2,3)] assms(3) unfolding files_below_def
  by (metis abs_ufs_sel(2) option.map(2))

lemma abs_moved:
  assumes rel: "ufs_rel fl bm s" and i: "i < length (desc_table s)" "desc_table s ! i = Some d"
  shows "abs_ufs (moved d x n s) =
    (abs_ufs s)\<lparr>a_fds := (a_fds (abs_ufs s))(int i + 1 \<mapsto> x\<lparr>offset := offset x + n\<rparr>)\<rparr>"
proof -
  have "fd_lookup (moved d x n s) = (fd_lookup s)(int i + 1 \<mapsto> x\<lparr>offset := offset x + n\<rparr>)"
    by (rule fd_lookup_set_desc [OF ufs_relD(3) [OF rel] i]) (simp_all add: moved_def desc_table_def)
  then show ?thesis by (simp add: abs_ufs_def) (simp add: moved_def)
qed

lemma read_call_refines:
  assumes inv: "ufs_inv s" and fd: "fd_arg fd" and sz: "sz < 2 ^ 63" and small: "files_below (2 ^ 31) s"
  shows "\<exists>r out t. ufs_read fd sz s = Some (r, out, t) \<and> ufs_inv t \<and>
    read_spec fd sz (abs_ufs s) r out (abs_ufs t)"
proof -
  from inv obtain fl bm where rel: "ufs_rel fl bm s" by (auto simp: ufs_inv_def)
  from ufs_relD(3) [OF rel] fd_argD [OF fd] show ?thesis
  proof (cases rule: find_desc_inv)
    case none
    with inv show ?thesis by (simp add: ufs_read_def read_spec_def abs_errno)
  next
    case (found i d x)
    let ?a = "desc_file x"
    obtain f where f: "files s ?a = Some f" using ufs_relD(4) [OF rel] found(5) by (auto simp: descs_rel_def)
    consider "\<not> may_read (open_flags x)" | "may_read (open_flags x)" "file_size f \<le> offset x"
      | "may_read (open_flags x)" "offset x < file_size f" by force
    then show ?thesis
    proof cases
      case 1
      with inv found show ?thesis by (auto simp: ufs_read_def may_read_def read_spec_def abs_errno)
    next
      case 2
      let ?q = "if offset x div BLOCK_SIZE \<le> length (bm ?a)
        then Some (first_ptr (drop (offset x div BLOCK_SIZE) (bm ?a)) None) else None"
      have seek: "seek_block_read (offset x div BLOCK_SIZE) (first_block f) s = Some ?q"
        using seek_block_read_eq [of s None "first_block f" "bm ?a" "offset x div BLOCK_SIZE"]
          blocks_relD(1) [OF ufs_relD(2) [OF rel] f] by (simp add: block_list_def)
      have "ufs_read fd sz s = Some (0, [], s)"
        using found f seek 2 by (simp add: ufs_read_def may_read_def)
      moreover have "read_spec fd sz (abs_ufs s) 0 [] (abs_ufs s)"
        using 2 found(6) f by (simp add: read_spec_def fun_upd_idem)
      ultimately show ?thesis using inv by blast
    next
      case 3
      define out where "out = lread (drop (offset x div BS) (file_view s f)) (offset x) sz"
      note call = read_call [OF rel found(1,5) f 3 sz files_belowD [OF small rel f] out_def]
      have "read_spec fd sz (abs_ufs s) (int (length out)) out (abs_ufs (moved d x (length out) s))"
        unfolding abs_moved [OF rel found(3,4)]
        using 3 found(2,6) f length_lread [of _ _ sz] by (simp add: read_spec_def out_def)
      with call(1,2) show ?thesis by (blast intro: ufs_invI)
    qed
  qed
qed

text \<open>The bytes read from a file without gaps.\<close>

lemma read_contents:
  assumes inv: "ufs_inv s" and fd: "fd_arg fd" "fd_lookup s fd = Some x" and ok: "may_read (open_flags x)"
    and sz: "sz < 2 ^ 63"
    and tight: "tight_file s (desc_file x)" and bytes: "file_bytes s (desc_file x) = Some bytes"
    and small: "length bytes < 2 ^ 30"
  shows "\<exists>t. ufs_read fd sz s =
      Some (int (min sz (length bytes - offset x)), take sz (drop (offset x) bytes), t) \<and>
    file_bytes t = file_bytes s \<and>
    fd_lookup t = (fd_lookup s)(fd \<mapsto> x\<lparr>offset := offset x + min sz (length bytes - offset x)\<rparr>)"
proof -
  let ?a = "desc_file x"
  from inv obtain fl bm where rel: "ufs_rel fl bm s" by (auto simp: ufs_inv_def)
  from tight obtain f where f: "files s ?a = Some f" and tL: "tight (file_view s f) (file_size f)"
    by (auto simp: tight_file_def split: option.splits)
  have bytes': "bytes = take (file_size f) (raw (file_view s f))"
    using file_bytes_rel [OF rel f] bytes by (simp add: file_view_rel [OF rel f])
  have len: "length bytes = file_size f"
    using tight_bound [OF tL] length_raw [OF tight_sized [OF tL]] by (simp add: bytes')
  have below: "BS * length (bm ?a) < 2 ^ 31"
  proof -
    have "length (bm ?a) = (file_size f + 511) div BS"
      using tight_length [OF tL] by (simp add: file_view_rel [OF rel f])
    then have "BS * length (bm ?a) \<le> file_size f + 511" by simp
    with small len show ?thesis by simp
  qed
  from ufs_relD(3) [OF rel] fd_argD [OF fd(1)] show ?thesis
  proof (cases rule: find_desc_inv)
    case none
    with fd(2) show ?thesis by simp
  next
    case (found i d y)
    then have y: "y = x" using fd(2) by simp
    have abs: "abs_ufs (moved d x n s) = (abs_ufs s)\<lparr>a_fds := (fd_lookup s)(fd \<mapsto> x\<lparr>offset := offset x + n\<rparr>)\<rparr>"
      for n using abs_moved [OF rel found(3,4)] found(2) by simp
    have t: "file_bytes (moved d x n s) = file_bytes s"
      "fd_lookup (moved d x n s) = (fd_lookup s)(fd \<mapsto> x\<lparr>offset := offset x + n\<rparr>)" for n
      using abs [of n] by (auto simp: file_bytes_def fun_eq_iff abs_ufs_def)
    show ?thesis
    proof (cases "offset x < file_size f")
      case True
      note call = read_call [OF rel found(1) found(5) [unfolded y] f ok True sz
          below refl]
      have "lread (drop (offset x div BS) (file_view s f)) (offset x) sz = take sz (drop (offset x) bytes)"
        unfolding bytes' by (rule lread_contents [OF tL True])
      with call(1) t show ?thesis by (auto simp: min.commute)
    next
      case False
      then have "ufs_read fd sz s = Some (0, [], s)"
        using found y f ok seek_block_read_eq [of s None "first_block f" "bm ?a" "offset x div BLOCK_SIZE"]
          blocks_relD(1) [OF ufs_relD(2) [OF rel] f]
        by (auto simp: ufs_read_def may_read_def block_list_def)
      with False len fd(2) show ?thesis by (simp add: fun_upd_idem)
    qed
  qed
qed

text \<open>What one descriptor appends, another one reads.\<close>

lemma length_file_bytes:
  assumes "ufs_inv s" and "tight_file s a" and "files s a = Some f"
  shows "\<exists>bytes. file_bytes s a = Some bytes \<and> length bytes = file_size f"
proof -
  from assms(1) obtain fl bm where rel: "ufs_rel fl bm s" by (auto simp: ufs_inv_def)
  have tL: "tight (view (blocks s) (bm a)) (file_size f)"
    using assms(2,3) by (simp add: tight_file_def file_view_rel [OF rel assms(3)])
  then show ?thesis
    using file_bytes_rel [OF rel assms(3)] tight_bound [OF tL] length_raw [OF tight_sized [OF tL]] by simp
qed

lemma write_spec_fds:
  assumes "write_spec fd sz A r A'" and "a_fds A fd = Some x" and "may_write (open_flags x)" and "0 < sz"
    and "a_files A (desc_file x) = Some f" and "a_size f + sz \<le> MAX_FILE_SIZE"
  shows "a_fds A' = (a_fds A)(fd \<mapsto> x\<lparr>offset := offset x + sz\<rparr>)"
  using assms by (auto simp: write_spec_def)

lemma append_then_read:
  assumes inv: "ufs_inv s" and fd: "fd_arg fd" "fd_lookup s fd = Some x" "may_write (open_flags x)"
    and fd2: "fd_arg fd2" "fd_lookup s fd2 = Some y" "may_read (open_flags y)"
    and two: "fd2 \<noteq> fd" "desc_file y = desc_file x" and f: "files s (desc_file x) = Some f"
    and sz: "0 < sz" "sz \<le> length buf" "file_size f + sz \<le> MAX_FILE_SIZE"
    and tight: "tight_file s (desc_file x)" and pos: "offset x = file_size f" "offset y = file_size f"
    and small: "files_below (2 ^ 63) s"
  shows "\<exists>t u. ufs_write fd buf sz s = Some (int sz, t) \<and>
    ufs_read fd2 sz t = Some (int sz, map Some (take sz buf), u)"
proof -
  let ?a = "desc_file x" and ?data = "map Some (take sz buf)"
  have sz63: "sz < 2 ^ 63" using sz(3) by (simp add: MAX_FILE_SIZE_def)
  obtain bytes where bytes: "file_bytes s ?a = Some bytes" "length bytes = file_size f"
    using length_file_bytes [OF inv tight f] by blast
  have le: "offset x \<le> file_size f" "file_size f div BLOCK_SIZE \<le> offset x div BLOCK_SIZE"
    using pos(1) by simp_all
  from write_contents [OF inv fd(1,2,3) f sz tight le] obtain t where t:
    "ufs_write fd buf sz s = Some (int sz, t)" "tight_file t ?a" "file_bytes t ?a = Some (bytes @ ?data)"
    using bytes pos(1) by (auto simp: overwrite_def)
  from write_call_refines [OF inv fd(1) sz(2) sz63 small] t(1)
  have t': "ufs_inv t" "write_spec fd sz (abs_ufs s) (int sz) (abs_ufs t)" by auto
  have "a_fds (abs_ufs t) = (a_fds (abs_ufs s))(fd \<mapsto> x\<lparr>offset := offset x + sz\<rparr>)"
    by (rule write_spec_fds [OF t'(2) _ fd(3) sz(1), where f = "abs_file (blocks s) f"]) (use fd(2) f sz(3) in simp_all)
  then have y: "fd_lookup t fd2 = Some y" using fd2(2) two(1) by simp
  have len: "length (bytes @ ?data) = file_size f + sz" using bytes(2) sz(2) by simp
  then have "length (bytes @ ?data) < 2 ^ 30" using sz(3) by (simp add: MAX_FILE_SIZE_def)
  from read_contents [OF t'(1) fd2(1) y fd2(3) sz63 _ _ this] t(2,3) two(2) len pos(2)
  obtain u where "ufs_read fd2 sz t = Some (int sz, take sz (drop (file_size f) (bytes @ ?data)), u)" by auto
  moreover have "take sz (drop (file_size f) (bytes @ ?data)) = ?data" using bytes(2) by simp
  ultimately show ?thesis using t(1) by metis
qed

end
