(* ===== verification/UserfsResize.thy ===== *)
theory UserfsResize
  imports UserfsRead
begin

section \<open>The file system: \<open>ufs_resize\<close>\<close>

text \<open>
  Shrinking frees blocks from the end, sets the used count of the new last block and moves
  the offsets that stood behind the new end back to it: the file keeps its first bytes.
  Growing adds zeroed blocks. It does not clear what the old last block holds behind the
  old size, so the bytes gained up to the end of that block are whatever was there, and
  only the bytes after them are zero.
\<close>

subsection \<open>Freeing blocks from the end\<close>

lemma relink_next_view:
  "view (bl.relink_next c r bs) as = view bs as"
  by (auto simp: view_def bl.relink_next_def split: option.splits)

lemma cut_blocks_eq:
  "dll next_block prev_block (blocks s) None p (ys @ zs) None \<Longrightarrow>
   \<exists>bs. cut_blocks (length zs) (last_ptr None (ys @ zs)) s = Some (last_ptr None ys, s\<lparr>blocks := bs\<rparr>) \<and>
     dll next_block prev_block bs None (first_ptr ys None) ys None \<and>
     (\<forall>b. b \<notin> set (ys @ zs) \<longrightarrow> bs b = blocks s b) \<and> dom bs = dom (blocks s) - set zs \<and>
     view bs ys = view (blocks s) ys"
proof (induction zs arbitrary: s p rule: rev_induct)
  case Nil
  then show ?case by (intro exI [of _ "blocks s"]) (auto dest: dll_first)
next
  case (snoc z ws)
  let ?xs = "ys @ ws" and ?c = "last_ptr None (ys @ ws)"
  from snoc.prems have dll: "dll next_block prev_block (blocks s) None p (?xs @ z # []) None" by simp
  then obtain blk where blk: "blocks s z = Some blk" "prev_block blk = ?c"
    by (rule dll_node) auto
  from dll_distinct [OF dll] have dist: "distinct ?xs" "z \<notin> set ?xs" by auto
  have seg: "dll next_block prev_block (blocks s) None p ?xs (Some z)"
    using dll unfolding dll_append by simp
  let ?h = "bl.relink_next ?c None (blocks s)"
  let ?s = "s\<lparr>blocks := ?h(z := None)\<rparr>"
  have "dll next_block prev_block ?h None (first_ptr ?xs None) ?xs None"
    by (rule bl.relink_next_segment [OF seg dist(1)])
  then have dll': "dll next_block prev_block (blocks ?s) None (first_ptr ?xs None) ?xs None"
    using dist(2) by (simp add: link_simps)
  have zc: "?c \<noteq> Some z" using dist(2) by (metis last_in_set last_ptr_SomeD)
  have step: "cut_blocks (length (ws @ [z])) (last_ptr None (ys @ ws @ [z])) s = cut_blocks (length ws) ?c ?s"
  proof (cases ?c)
    case None
    with blk show ?thesis
      by (simp add: last_ptr_append free_block_def bl.relink_next_def)
  next
    case (Some c)
    then have "c \<in> set ?xs" by (metis last_in_set last_ptr_SomeD)
    then obtain cb where "blocks s c = Some cb" using dll_live [OF seg] by auto
    with Some blk zc show ?thesis
      by (simp add: last_ptr_append free_block_def upd_block_def bl.relink_next_def)
  qed
  obtain bs where bs: "cut_blocks (length ws) ?c ?s = Some (last_ptr None ys, ?s\<lparr>blocks := bs\<rparr>)"
    "dll next_block prev_block bs None (first_ptr ys None) ys None"
    "\<And>b. b \<notin> set ?xs \<Longrightarrow> bs b = blocks ?s b" "dom bs = dom (blocks ?s) - set ws"
    "view bs ys = view (blocks ?s) ys"
    using snoc.IH [OF dll'] by blast
  have other: "?h b = blocks s b" if "b \<notin> set ?xs" for b
    using that last_ptr_SomeD [of ?xs b] by (metis bl.relink_next_other last_in_set)
  have "bs b = blocks s b" if "b \<notin> set (ys @ ws @ [z])" for b
    using that bs(3) [of b] other [of b] by simp
  moreover have "dom ?h = dom (blocks s)"
    by (auto simp: bl.relink_next_def split: option.splits if_splits)
  then have "dom bs = dom (blocks s) - set (ws @ [z])" using bs(4) by auto
  moreover have "view bs ys = view (blocks s) ys"
    using bs(5) dist(2) by (simp add: relink_next_view)
  ultimately show ?case
    using bs(1,2) unfolding step by (intro exI [of _ bs]) simp
qed

subsection \<open>Moving the offsets\<close>

definition clamped :: "addr \<Rightarrow> nat \<Rightarrow> filedesc \<Rightarrow> filedesc" where
  "clamped a n x = (if desc_file x = a \<and> offset x > n then x\<lparr>offset := n\<rparr> else x)"

lemma clamped_file [simp]: "desc_file (clamped a n x) = desc_file x"
  by (simp add: clamped_def)

lemma clamp_loop_eq:
  assumes t: "file_descriptors s = Some t" "\<And>e. e \<in> set (slots t) \<Longrightarrow> e \<in> dom (descs s)" "distinct (slots t)"
    and d: "descs s d = Some x" "desc_file x = a"
  shows "m \<le> length t \<Longrightarrow> for_each [0..<m] (clamp_desc d n) s =
    Some (s\<lparr>descs := \<lambda>e. if e \<in> set (slots (take m t)) then map_option (clamped a n) (descs s e) else descs s e\<rparr>)"
proof (induction m)
  case 0
  then show ?case by simp
next
  case (Suc m)
  let ?f = "\<lambda>e. if e \<in> set (slots (take m t)) then map_option (clamped a n) (descs s e) else descs s e"
  let ?s = "s\<lparr>descs := ?f\<rparr>"
  from Suc have IH: "for_each [0..<m] (clamp_desc d n) s = Some ?s" and m: "m < length t" by simp_all
  have tk: "take (Suc m) t = take m t @ [t ! m]" using m by (rule take_Suc_conv_app_nth)
  have slot: "fd_slot ?s m = Some (t ! m)" using t(1) m by (simp add: fd_slot_def)
  have "\<exists>y. descs ?s d = Some y \<and> desc_file y = a" using d by simp
  then obtain y where y: "descs ?s d = Some y" "desc_file y = a" by blast
  show ?case
  proof (cases "t ! m")
    case None
    then have "clamp_desc d n m ?s = Some ?s" using slot by (simp add: clamp_desc_def)
    with None IH show ?thesis by (simp add: for_each_append tk)
  next
    case (Some e)
    have "slots t = slots (take m t) @ slots (drop m t)" by (simp flip: slots_append)
    also have "drop m t = t ! m # drop (Suc m) t" using m by (rule Cons_nth_drop_Suc [symmetric])
    finally have split: "slots t = slots (take m t) @ e # slots (drop (Suc m) t)" using Some by simp
    then have new: "e \<notin> set (slots (take m t))" "e \<in> dom (descs s)" using t(2,3) by auto
    then obtain z where z: "descs s e = Some z" by auto
    with new(1) have ze: "descs ?s e = Some z" by simp
    have "clamp_desc d n m ?s = Some (?s\<lparr>descs := ?f(e \<mapsto> clamped a n z)\<rparr>)"
    proof (cases "desc_file z = a \<and> offset z > n")
      case True
      then show ?thesis using slot Some ze y
        by (simp add: clamp_desc_def upd_desc_def clamped_def)
    next
      case False
      then have "clamped a n z = z" by (simp add: clamped_def)
      moreover have "?f(e \<mapsto> z) = ?f" using z new(1) by (simp add: fun_eq_iff)
      moreover have "clamp_desc d n m ?s = Some ?s"
        using False slot Some ze y by (auto simp: clamp_desc_def)
      ultimately show ?thesis by simp
    qed
    moreover have "?f(e \<mapsto> clamped a n z) =
        (\<lambda>c. if c \<in> set (slots (take (Suc m) t)) then map_option (clamped a n) (descs s c) else descs s c)"
      using z new(1) Some by (auto simp: fun_eq_iff tk)
    ultimately show ?thesis using IH by (simp add: for_each_append)
  qed
qed

lemma clamp_all:
  assumes "table_rel s" and "descs s d = Some x" "desc_file x = a"
  shows "for_each [0..<nat (file_descriptor_capacity s)] (clamp_desc d n) s =
    Some (s\<lparr>descs := \<lambda>e. map_option (clamped a n) (descs s e)\<rparr>)"
proof -
  have "desc_table s \<noteq> []" using assms(1,2) by (auto simp: table_rel_def)
  with assms(1) obtain t where t: "file_descriptors s = Some t" "desc_table s = t"
    by (auto simp: table_rel_def desc_table_def split: option.splits)
  with assms(1) have rel: "nat (file_descriptor_capacity s) = length t" "distinct (slots t)"
    "set (slots t) = dom (descs s)" by (auto simp: table_rel_def)
  have "(\<lambda>e. if e \<in> set (slots (take (length t) t)) then map_option (clamped a n) (descs s e) else descs s e)
      = (\<lambda>e. map_option (clamped a n) (descs s e))"
    using rel(3) by (auto simp: fun_eq_iff domIff)
  with clamp_loop_eq [OF t(1) _ rel(2) assms(2,3), of "length t" n] rel(1,3) show ?thesis by simp
qed

subsection \<open>Shrinking\<close>

lemma block_ok_view:
  "used_ok (view bs as) \<Longrightarrow> b \<in> set as \<Longrightarrow> bs b = Some x \<Longrightarrow> block_ok x"
  by (fastforce simp: used_ok_def view_def block_ok_def BLOCK_SIZE_def)

lemma used_ok_set_last: "used_ok L \<Longrightarrow> 0 \<le> k \<Longrightarrow> k \<le> int BS \<Longrightarrow> used_ok (lset_last k L)"
  by (cases L rule: rev_exhaust) (auto simp: used_ok_def)

lemma used_ok_take: "used_ok L \<Longrightarrow> used_ok (take n L)"
  by (auto simp: used_ok_def dest: in_set_takeD)

lemma last_occupied_locc: "last_occupied n = locc n"
proof -
  have "n mod BS < 2 ^ 31" using mod_less_divisor [of BS n] by simp
  then have "cast_int (n mod BS) = int (n mod BS)" by (rule cast_int_small)
  then show ?thesis unfolding last_occupied_def locc_def BLOCK_SIZE_def Let_def by simp
qed

lemma locc_bounds: "0 \<le> locc n" "locc n \<le> int BS"
proof -
  have "n mod BS < BS" by simp
  then show "0 \<le> locc n" "locc n \<le> int BS" unfolding locc_def by (simp_all, linarith?)
qed

lemma block_count_eq: "n < 2 ^ 63 \<Longrightarrow> block_count n = blocks_for n"
  by (simp add: block_count_def blocks_for_def BLOCK_SIZE_def)

lemma blocks_for_le: "n \<le> BS * m \<Longrightarrow> blocks_for n \<le> m"
proof -
  assume "n \<le> BS * m"
  then have "(n + 511) div BS \<le> (BS * m + 511) div BS" by (intro div_le_mono) simp
  then show ?thesis by (simp add: blocks_for_def)
qed

lemma blocks_for_enough: "n \<le> BS * blocks_for n"
proof -
  have "n + 511 = BS * blocks_for n + (n + 511) mod BS" unfolding blocks_for_def by simp
  moreover have "(n + 511) mod BS < BS" by simp
  ultimately show ?thesis by linarith
qed

definition cut_file :: "nat \<Rightarrow> addr list \<Rightarrow> ufile \<Rightarrow> ufile" where
  "cut_file n ys f = f\<lparr>first_block := first_ptr ys None, last_block := last_ptr None ys, file_size := n\<rparr>"

lemma shrink_blocks:
  assumes core: "core_rel fl bm s" and f: "files s a = Some f" and as: "bm a = ys @ zs"
    and n: "ys = [] \<Longrightarrow> n = 0"
  shows "\<exists>bs t. cut_blocks (length zs) (last_block f) s = Some (last_ptr None ys, s\<lparr>blocks := bs\<rparr>) \<and>
    (case last_ptr None ys of
       None \<Rightarrow> if n \<noteq> 0 \<or> blocks_for n \<noteq> 0 then None
         else upd_file a (\<lambda>f. f\<lparr>first_block := None, last_block := None, file_size := 0\<rparr>) (s\<lparr>blocks := bs\<rparr>)
     | Some b \<Rightarrow> do {
         s \<leftarrow> upd_block b (\<lambda>c. c\<lparr>occupied := Some (locc n)\<rparr>) (s\<lparr>blocks := bs\<rparr>);
         upd_file a (\<lambda>f. f\<lparr>last_block := Some b, file_size := n\<rparr>) s }) = Some t \<and>
    (\<exists>cs. t = s\<lparr>blocks := cs, files := (files s)(a \<mapsto> cut_file n ys f)\<rparr> \<and>
       block_list cs (cut_file n ys f) ys \<and> (\<forall>b. b \<notin> set (bm a) \<longrightarrow> cs b = blocks s b) \<and>
       dom cs = dom (blocks s) - set zs \<and> view cs ys = lset_last (locc n) (view (blocks s) ys))"
proof -
  have bl: "block_list (blocks s) f (ys @ zs)"
    using blocks_relD(1) [OF core_relD(2) [OF core] f] as by simp
  then have dll: "dll next_block prev_block (blocks s) None (first_block f) (ys @ zs) None"
    and last: "last_block f = last_ptr None (ys @ zs)" by (simp_all add: block_list_def)
  obtain bs where bs: "cut_blocks (length zs) (last_ptr None (ys @ zs)) s = Some (last_ptr None ys, s\<lparr>blocks := bs\<rparr>)"
    "dll next_block prev_block bs None (first_ptr ys None) ys None"
    "\<And>b. b \<notin> set (ys @ zs) \<Longrightarrow> bs b = blocks s b" "dom bs = dom (blocks s) - set zs"
    "view bs ys = view (blocks s) ys"
    using cut_blocks_eq [OF dll] by blast
  show ?thesis
  proof (cases ys rule: rev_exhaust)
    case Nil
    let ?t = "s\<lparr>blocks := bs, files := (files s)(a \<mapsto> cut_file n ys f)\<rparr>"
    have "upd_file a (\<lambda>f. f\<lparr>first_block := None, last_block := None, file_size := 0\<rparr>) (s\<lparr>blocks := bs\<rparr>) = Some ?t"
      using f n Nil by (simp add: upd_file_def cut_file_def)
    moreover have "blocks_for n = 0" "n = 0" using n Nil by (simp_all add: blocks_for_def)
    moreover have "block_list bs (cut_file n ys f) ys" using Nil by (simp add: block_list_def cut_file_def)
    ultimately show ?thesis
      using bs(1,3,4) last as Nil
      by (intro exI [of _ bs] exI [of _ ?t] conjI exI [of _ bs]) simp_all
  next
    case (snoc us b)
    let ?cs = "\<lambda>blk. bs(b \<mapsto> blk\<lparr>occupied := Some (locc n)\<rparr>)"
    from bs(2) snoc obtain blk where blk: "bs b = Some blk" by (meson dll_live in_set_conv_decomp)
    let ?t = "s\<lparr>blocks := ?cs blk, files := (files s)(a \<mapsto> cut_file n ys f)\<rparr>"
    have "first_block f = first_ptr ys None"
      using dll snoc by (auto dest!: dll_first simp: first_ptr_append)
    then have cf: "cut_file n ys f = f\<lparr>last_block := Some b, file_size := n\<rparr>"
      using snoc by (cases f) (simp add: cut_file_def)
    have "dll next_block prev_block (?cs blk) None (first_ptr ys None) ys None"
      using bs(2) dll_upd_data [of bs b blk next_block "blk\<lparr>occupied := Some (locc n)\<rparr>" prev_block] blk by simp
    then have "block_list (?cs blk) (cut_file n ys f) ys" by (simp add: block_list_def cut_file_def)
    moreover have "view (?cs blk) ys = lset_last (locc n) (view (blocks s) ys)"
    proof -
      have "b \<notin> set us" using dll_distinct [OF bs(2)] snoc by simp
      moreover have "view bs us @ [(memory blk, occupied blk)] = view (blocks s) ys"
        using bs(5) snoc blk by simp
      then have "lset_last (locc n) (view (blocks s) ys) = view bs us @ [(memory blk, Some (locc n))]"
        by (metis fst_conv lset_last_simps(2))
      ultimately show ?thesis using snoc by simp
    qed
    moreover have "\<forall>c. c \<notin> set (bm a) \<longrightarrow> ?cs blk c = blocks s c" using bs(3) as snoc by auto
    moreover have "dom (?cs blk) = dom (blocks s) - set zs" using bs(4) blk by auto
    ultimately have "\<exists>cs. ?t = s\<lparr>blocks := cs, files := (files s)(a \<mapsto> cut_file n ys f)\<rparr> \<and>
       block_list cs (cut_file n ys f) ys \<and> (\<forall>b. b \<notin> set (bm a) \<longrightarrow> cs b = blocks s b) \<and>
       dom cs = dom (blocks s) - set zs \<and> view cs ys = lset_last (locc n) (view (blocks s) ys)"
      by (intro exI [of _ "?cs blk"]) (simp only: simp_thms)
    then show ?thesis
      using bs(1) last snoc blk f cf
      by - (rule exI [of _ bs], rule exI [of _ ?t], intro conjI,
          simp, simp add: upd_block_def upd_file_def, assumption)
  qed
qed

lemma clamped_map: "map_option desc_file (map_option (clamped a n) q) = map_option desc_file q"
  by (cases q) simp_all

lemma clamped_other: "map_option desc_file q \<noteq> Some a \<Longrightarrow> map_option (clamped a n) q = q"
  by (cases q) (auto simp: clamped_def)

lemma cut_dom:
  "Y \<inter> Z = {} \<Longrightarrow> A = Y \<union> Z \<Longrightarrow> (\<And>c. c \<in> C \<Longrightarrow> A \<inter> f c = {}) \<Longrightarrow>
   A \<union> (\<Union>c \<in> C. f c) - Z = Y \<union> (\<Union>c \<in> C. f c)"
  by fast

lemma shrink_call:
  assumes rel: "ufs_rel fl bm s" and d: "descs s d = Some x" "desc_file x = a" and f: "files s a = Some f"
    and n: "n < file_size f" and small: "BS * length (bm a) < 2 ^ 63"
    and j: "j = blocks_for (file_size f) - blocks_for n"
  shows "\<exists>t as. shrink_file d n s = Some (0, t) \<and> ufs_rel fl (bm(a := as)) t \<and> only_file a bm s t \<and>
    map_option file_size (files t a) = Some n \<and>
    descs t = (\<lambda>e. map_option (clamped a n) (descs s e)) \<and>
    view (blocks t) as = lcut (view (blocks s) (bm a)) j n \<and> n \<le> BS * length as"
proof -
  note core = ufs_rel_coreD [OF rel]
  have size: "file_size f \<le> BS * length (bm a)"
    using ufs_relD(6) [OF rel] f by (simp add: sizes_rel_def BLOCK_SIZE_def)
  let ?ys = "take (length (bm a) - j) (bm a)" and ?zs = "drop (length (bm a) - j) (bm a)"
  have le: "blocks_for (file_size f) \<le> length (bm a)" by (rule blocks_for_le [OF size])
  then have jle: "j \<le> length (bm a)" unfolding j by simp
  have mono: "blocks_for n \<le> blocks_for (file_size f)"
    using n unfolding blocks_for_def by (intro div_le_mono) simp
  have keep: "blocks_for n \<le> length ?ys" using le mono unfolding j by simp
  have n_le: "n \<le> BS * length ?ys"
    by (rule order_trans [OF blocks_for_enough]) (use keep in \<open>intro mult_le_mono order_refl\<close>)
  have as: "bm a = ?ys @ ?zs" by simp
  have n0: "?ys = [] \<Longrightarrow> n = 0" using n_le by (metis le_zero_eq list.size(3) mult_0_right)
  obtain bs u cs where u: "cut_blocks (length ?zs) (last_block f) s = Some (last_ptr None ?ys, s\<lparr>blocks := bs\<rparr>)"
    "(case last_ptr None ?ys of
       None \<Rightarrow> if n \<noteq> 0 \<or> blocks_for n \<noteq> 0 then None
         else upd_file a (\<lambda>f. f\<lparr>first_block := None, last_block := None, file_size := 0\<rparr>) (s\<lparr>blocks := bs\<rparr>)
     | Some b \<Rightarrow> do {
         s \<leftarrow> upd_block b (\<lambda>c. c\<lparr>occupied := Some (locc n)\<rparr>) (s\<lparr>blocks := bs\<rparr>);
         upd_file a (\<lambda>f. f\<lparr>last_block := Some b, file_size := n\<rparr>) s }) = Some u"
    and ueq: "u = s\<lparr>blocks := cs, files := (files s)(a \<mapsto> cut_file n ?ys f)\<rparr>"
    and cs: "block_list cs (cut_file n ?ys f) ?ys" "\<And>b. b \<notin> set (bm a) \<Longrightarrow> cs b = blocks s b"
      "dom cs = dom (blocks s) - set ?zs" "view cs ?ys = lset_last (locc n) (view (blocks s) ?ys)"
    using shrink_blocks [OF core f as n0] by blast
  define t where "t = u\<lparr>descs := \<lambda>e. map_option (clamped a n) (descs u e)\<rparr>"
  have sel: "files t = (files s)(a \<mapsto> cut_file n ?ys f)" "blocks t = cs" "fresh_addr t = fresh_addr s"
    "descs t = (\<lambda>e. map_option (clamped a n) (descs s e))" by (simp_all add: t_def ueq)
  have table: "table_rel u" using ufs_relD(3) [OF rel] by (simp add: ueq table_rel_def desc_table_def)
  have du: "descs u d = Some x" using d(1) by (simp add: ueq)
  have "file_size f < 2 ^ 63" "n < 2 ^ 63" using size small n by linarith+
  then have bc: "block_count (file_size f) = blocks_for (file_size f)" "block_count n = blocks_for n"
    by (simp_all only: block_count_eq)
  have lz: "length ?zs = j" using jle by simp
  have "shrink_file d n s = Some (0, t)"
    unfolding shrink_file_def d(1) bind.bind_lunit d(2) f bc Let_def j [symmetric]
      u(1) [unfolded lz] prod.case last_occupied_locc u(2) clamp_all [OF table du d(2)] t_def ..
  moreover have only: "only_file a bm s t"
  proof (rule only_fileI [of s a f t "cut_file n ?ys f", OF f sel(1)])
    fix c b assume "c \<in> dom (files s) - {a}" "b \<in> set (bm c)"
    then have "b \<notin> set (bm a)" using blocks_relD(2) [OF ufs_relD(2) [OF rel], of c a] f by auto
    then show "blocks t b = blocks s b" using cs(2) sel(2) by simp
  qed (simp_all add: sel clamped_map clamped_other, simp_all add: cut_file_def t_def ueq)
  moreover have "ufs_rel fl (bm(a := ?ys)) t"
  proof (rule only_file_rel [OF rel only])
    have old: "file_part a bm (bm a) s" by (rule core_file_part [OF core f])
    have "distinct (?ys @ ?zs)"
      using blocks_relD(1) [OF ufs_relD(2) [OF rel] f] as by (metis block_list_def dll_distinct)
    moreover have dom_s: "dom (blocks s) = set (bm a) \<union> (\<Union>c \<in> dom (files s) - {a}. set (bm c))"
      using old by (simp add: file_part_def)
    ultimately have "set ?ys \<inter> set ?zs = {}" by (metis distinct_append)
    moreover have "set (bm a) = set ?ys \<union> set ?zs" by (metis as set_append)
    moreover have "set (bm a) \<inter> set (bm c) = {}" if "c \<in> dom (files s) - {a}" for c
      using old that by (auto simp: file_part_def)
    ultimately have dom: "dom cs = set ?ys \<union> (\<Union>c \<in> dom (files s) - {a}. set (bm c))"
      unfolding cs(3) dom_s by (intro cut_dom) simp_all
    have ys: "set ?ys \<subseteq> set (bm a)" by (rule set_take_subset)
    have disj: "\<forall>c \<in> dom (files s) - {a}. set ?ys \<inter> set (bm c) = {}"
      using old ys unfolding file_part_def only_file_dom [OF only] by blast
    have fresh: "\<forall>b \<in> set ?ys. b < fresh_addr s" using old ys unfolding file_part_def by blast
    have filep: "\<exists>g. files t a = Some g \<and> block_list cs g ?ys \<and> file_size g \<le> BS * length ?ys"
      using cs(1) n_le by (intro exI [of _ "cut_file n ?ys f"]) (simp add: sel(1) cut_file_def)
    have doms: "dom (files t) = dom (files s)" by (rule only_file_dom [OF only])
    have offs: "offset y \<le> BS * length ?ys" if y: "descs t e = Some y" "desc_file y = a" for e y
    proof -
      from y(1) obtain z where "y = clamped a n z" unfolding sel(4) by auto
      with y(2) have "offset y \<le> n" by (auto simp: clamped_def split: if_splits)
      then show ?thesis using n_le by (rule order_trans)
    qed
    show "file_part a bm ?ys t"
      unfolding file_part_def doms sel(2,3) BLOCK_SIZE_def
      using filep dom disj fresh offs by blast
    have "used_ok (view cs ?ys)"
      unfolding cs(4) using view_used_ok [OF rel f] locc_bounds [of n]
      by (intro used_ok_set_last) (simp_all add: view_def used_ok_def, meson in_set_takeD)
    then show "block_ok y" if "b \<in> set ?ys" "blocks t b = Some y" for b y
      using that block_ok_view unfolding sel(2) by blast
  qed
  moreover have "view (blocks t) ?ys = lcut (view (blocks s) (bm a)) j n"
    unfolding sel(2) cs(4) lcut_def view_simps(3) by (simp add: view_def take_map)
  moreover have "map_option file_size (files t a) = Some n" by (simp add: sel(1) cut_file_def)
  ultimately show ?thesis using sel(4) n_le by blast
qed

subsection \<open>Growing\<close>

lemma grow_block_eq:
  assumes bl: "block_list (blocks s) f as" and f: "files s a = Some f"
    and new: "blocks s (fresh_addr s) = None"
  shows "grow_block a s = Some (appended (\<lambda>b. b\<lparr>occupied := Some (int BLOCK_SIZE)\<rparr>) a f
    (replicate BLOCK_SIZE (Some 0)) None s)"
proof (cases "last_block f")
  case None
  with bl have "as = []" by (metis block_list_def last_ptr_None)
  with bl have "first_block f = None" by (simp add: block_list_def)
  with None f show ?thesis
    by (cases f) (simp add: grow_block_def malloc_block_def new_block_def upd_file_def upd_block_def appended_def)
next
  case (Some l)
  with bl have l: "l \<in> set as" by (metis block_list_def last_in_set last_ptr_SomeD)
  with bl obtain x where x: "blocks s l = Some x" by (metis block_list_def dll_live)
  with new have lc: "l \<noteq> fresh_addr s" by auto
  have "as \<noteq> []" using l by auto
  with bl obtain e where "first_block f = Some e" by (cases as) (auto simp: block_list_def)
  with Some f x lc show ?thesis
    by (cases f; cases x) (simp add: grow_block_def malloc_block_def new_block_def upd_file_def upd_block_def appended_def
        fun_upd_twist [of l "fresh_addr s"])
qed

lemma upd_last_set: "upd_last (\<lambda>b. (fst b, Some k)) L = lset_last k L"
  by (simp add: upd_last_def lset_last_def)

text \<open>What the loop keeps while it adds blocks to file \<open>a\<close> of state \<open>s\<close>.\<close>

definition growing ::
  "addr list \<Rightarrow> (addr \<Rightarrow> addr list) \<Rightarrow> addr \<Rightarrow> ufile \<Rightarrow> ufs \<Rightarrow> blk list \<Rightarrow> addr list \<Rightarrow> ufs \<Rightarrow> bool" where
  "growing fl bm a f s L as t \<longleftrightarrow>
     core_rel fl (bm(a := as)) t \<and> only_file a bm s t \<and> descs t = descs s \<and>
     map_option file_size (files t a) = Some (file_size f) \<and> view (blocks t) as = L"

lemma grow_step:
  assumes "growing fl bm a f s L as t"
  shows "\<exists>u. grow_block a t = Some u \<and> growing fl bm a f s (lgrow L) (as @ [fresh_addr t]) u"
proof -
  let ?g = "\<lambda>b. b\<lparr>occupied := Some (int BLOCK_SIZE)\<rparr>" and ?bm = "bm(a := as)"
  have t: "core_rel fl ?bm t" "only_file a bm s t" "descs t = descs s" "view (blocks t) as = L"
    using assms by (simp_all add: growing_def)
  obtain g where g: "files t a = Some g" "file_size g = file_size f"
    using assms by (auto simp: growing_def)
  let ?u = "appended ?g a g (replicate BLOCK_SIZE (Some 0)) None t"
  have bl: "block_list (blocks t) g as" using blocks_relD(1) [OF core_relD(2) [OF t(1)] g(1)] by simp
  have new: "blocks t (fresh_addr t) = None" using fresh_not_live(2) [OF core_relD(8) [OF t(1)]] .
  note only = appended_only_file [OF t(1) g(1), of ?g "replicate BLOCK_SIZE (Some 0)" None]
  have "file_part a ?bm (?bm a @ [fresh_addr t]) ?u" by (rule appended_file_part [OF t(1) g(1)]) simp_all
  then have part: "file_part a ?bm (as @ [fresh_addr t]) ?u" by simp
  have "view (blocks ?u) (as @ [fresh_addr t]) =
      upd_last (\<lambda>b. (fst b, Some (int BLOCK_SIZE))) (view (blocks t) as) @ [(replicate BLOCK_SIZE (Some 0), None)]"
    by (rule view_appended [OF bl new]) simp
  then have "view (blocks ?u) (as @ [fresh_addr t]) = lgrow L"
    unfolding upd_last_set t(4) by (simp add: lgrow_def lzero_def BLOCK_SIZE_def)
  moreover have "core_rel fl (bm(a := as @ [fresh_addr t])) ?u"
    using only_file_core [OF t(1) only part] by simp
  moreover have "only_file a bm s ?u" by (rule only_file_trans [OF t(2) only])
  ultimately have "growing fl bm a f s (lgrow L) (as @ [fresh_addr t]) ?u"
    using t(3) g by (simp add: growing_def)
  with grow_block_eq [OF bl g(1) new] show ?thesis by blast
qed

lemma grow_loop:
  assumes "ufs_rel fl bm s" and "files s a = Some f"
  shows "\<exists>as t. for_each [0..<j] (\<lambda>i. grow_block a) s = Some t \<and>
    growing fl bm a f s ((lgrow ^^ j) (view (blocks s) (bm a))) as t \<and> length as = length (bm a) + j"
proof (induction j)
  case 0
  have "growing fl bm a f s (view (blocks s) (bm a)) (bm a) s"
    unfolding growing_def fun_upd_same
    using ufs_rel_coreD [OF assms(1)] only_file_refl [OF assms(2)] assms(2) by simp
  then show ?case by (intro exI [of _ "bm a"] exI [of _ s]) simp
next
  case (Suc j)
  then obtain as t where t: "for_each [0..<j] (\<lambda>i. grow_block a) s = Some t"
    "growing fl bm a f s ((lgrow ^^ j) (view (blocks s) (bm a))) as t" "length as = length (bm a) + j"
    by blast
  obtain u where u: "grow_block a t = Some u"
    "growing fl bm a f s (lgrow ((lgrow ^^ j) (view (blocks s) (bm a)))) (as @ [fresh_addr t]) u"
    using grow_step [OF t(2)] by blast
  have "for_each [0..<Suc j] (\<lambda>i. grow_block a) s = Some u"
    using t(1) u(1) by (simp add: for_each_append)
  with u(2) t(3) show ?case by (intro exI [of _ "as @ [fresh_addr t]"] exI [of _ u]) simp
qed

lemma used_ok_butlast_grow:
  assumes "used_ok L" shows "used_ok (butlast ((lgrow ^^ j) L)) \<and> sized ((lgrow ^^ j) L)"
proof (induction j)
  case 0
  then show ?case using assms by (auto simp: used_ok_def sized_def dest: in_set_butlastD)
next
  case (Suc j)
  have "used_ok (lset_last (int BS) M)" if "used_ok (butlast M)" "sized M" for M
    using that by (cases M rule: rev_exhaust) (auto simp: used_ok_def)
  with Suc show ?case by (simp add: lgrow_def lzero_def)
qed

text \<open>Setting the used count of the last block, and the size.\<close>

definition sealed :: "addr \<Rightarrow> block \<Rightarrow> addr \<Rightarrow> ufile \<Rightarrow> nat \<Rightarrow> ufs \<Rightarrow> ufs" where
  "sealed l blk a f n s = s\<lparr>blocks := (blocks s)(l \<mapsto> blk\<lparr>occupied := Some (locc n)\<rparr>),
     files := (files s)(a \<mapsto> f\<lparr>file_size := n\<rparr>)\<rparr>"

lemma sealed_sel [simp]:
  "blocks (sealed l blk a f n s) = (blocks s)(l \<mapsto> blk\<lparr>occupied := Some (locc n)\<rparr>)"
  "files (sealed l blk a f n s) = (files s)(a \<mapsto> f\<lparr>file_size := n\<rparr>)"
  "descs (sealed l blk a f n s) = descs s" "fresh_addr (sealed l blk a f n s) = fresh_addr s"
  by (simp_all add: sealed_def)

lemma sealed_step:
  assumes core: "core_rel fl bm s" and f: "files s a = Some f" and l: "bm a = us @ [l]" "blocks s l = Some blk"
    and n: "n \<le> BS * length (bm a)"
  defines "t \<equiv> sealed l blk a f n s"
  shows "only_file a bm s t" and "file_part a bm (bm a) t"
    and "view (blocks t) (bm a) = lset_last (locc n) (view (blocks s) (bm a))"
proof -
  have old: "file_part a bm (bm a) s" by (rule core_file_part [OF core f])
  have bl: "block_list (blocks s) f (bm a)" by (rule blocks_relD(1) [OF core_relD(2) [OF core] f])
  show only: "only_file a bm s t"
  proof (rule only_fileI [of s a f t "f\<lparr>file_size := n\<rparr>", OF f])
    fix c b assume "c \<in> dom (files s) - {a}" "b \<in> set (bm c)"
    then have "b \<noteq> l" using blocks_relD(2) [OF core_relD(2) [OF core], of c a] f l(1) by auto
    then show "blocks t b = blocks s b" by (simp add: t_def)
  qed (simp_all add: t_def, simp_all add: sealed_def)
  have "block_list (blocks t) (f\<lparr>file_size := n\<rparr>) (bm a)"
    using bl block_list_data [of "blocks s" l blk "blk\<lparr>occupied := Some (locc n)\<rparr>"] l(2)
    by (simp add: t_def) (simp add: block_list_def)
  then have fp: "\<exists>g. files t a = Some g \<and> block_list (blocks t) g (bm a) \<and> file_size g \<le> BLOCK_SIZE * length (bm a)"
    using n by (simp add: t_def BLOCK_SIZE_def)
  have doms: "dom (blocks t) = dom (blocks s)" "descs t = descs s" "fresh_addr t = fresh_addr s"
    using l(2) by (auto simp: t_def)
  show "file_part a bm (bm a) t"
    using old fp unfolding file_part_def only_file_dom [OF only] doms by blast
  have "distinct (us @ [l])" using bl l(1) by (metis block_list_def dll_distinct)
  then show "view (blocks t) (bm a) = lset_last (locc n) (view (blocks s) (bm a))"
    using l by (simp add: t_def)
qed

lemma extend_call:
  assumes rel: "ufs_rel fl bm s" and f: "files s a = Some f" and n: "file_size f < n" "n \<le> MAX_FILE_SIZE"
    and j: "j = blocks_for n - blocks_for (file_size f)"
  shows "\<exists>t as. extend_file a n s = Some (0, t) \<and> ufs_rel fl (bm(a := as)) t \<and> only_file a bm s t \<and>
    map_option file_size (files t a) = Some n \<and> descs t = descs s \<and>
    view (blocks t) as = lextend (view (blocks s) (bm a)) j n \<and> n \<le> BS * length as"
proof -
  have size: "file_size f \<le> BS * length (bm a)"
    using ufs_relD(6) [OF rel] f by (simp add: sizes_rel_def BLOCK_SIZE_def)
  have mono: "blocks_for (file_size f) \<le> blocks_for n"
    using n(1) unfolding blocks_for_def by (intro div_le_mono) simp
  obtain as t where t: "for_each [0..<j] (\<lambda>i. grow_block a) s = Some t"
    "growing fl bm a f s ((lgrow ^^ j) (view (blocks s) (bm a))) as t" "length as = length (bm a) + j"
    using grow_loop [OF rel f] by blast
  have enough: "blocks_for n \<le> length as"
    using blocks_for_le [OF size] mono unfolding t(3) j by linarith
  have n_le: "n \<le> BS * length as"
    by (rule order_trans [OF blocks_for_enough]) (use enough in \<open>intro mult_le_mono order_refl\<close>)
  then have "as \<noteq> []" using n(1) by auto
  then obtain us l where as: "as = us @ [l]" by (metis append_butlast_last_id)
  have g: "core_rel fl (bm(a := as)) t" "only_file a bm s t" "descs t = descs s"
    "view (blocks t) as = (lgrow ^^ j) (view (blocks s) (bm a))"
    using t(2) by (simp_all add: growing_def)
  obtain h where h: "files t a = Some h" "file_size h = file_size f" using t(2) by (auto simp: growing_def)
  have bl: "block_list (blocks t) h as" using blocks_relD(1) [OF core_relD(2) [OF g(1)] h(1)] by simp
  then have last: "last_block h = Some l" using as by (simp add: block_list_def)
  obtain blk where blk: "blocks t l = Some blk" using bl as by (metis block_list_def dll_live in_set_conv_decomp)
  let ?t = "sealed l blk a h n t"
  have bma: "(bm(a := as)) a = us @ [l]" "n \<le> BS * length ((bm(a := as)) a)" using as n_le by simp_all
  note seal = sealed_step [OF g(1) h(1) bma(1) blk bma(2)]
  have only: "only_file a bm s ?t" by (rule only_file_trans [OF g(2) seal(1)])
  have part: "file_part a bm as ?t" using seal(2) by (simp add: file_part_def)
  have vw: "view (blocks ?t) as = lextend (view (blocks s) (bm a)) j n"
    using seal(3) g(4) by (simp add: lextend_def)
  have "used_ok (view (blocks ?t) as)"
  proof -
    have "used_ok (lset_last (locc n) M)" if "used_ok (butlast M)" "sized M" for M
      using that locc_bounds [of n] by (cases M rule: rev_exhaust) (auto simp: used_ok_def)
    then show ?thesis
      unfolding vw lextend_def using used_ok_butlast_grow [OF view_used_ok [OF rel f]] by blast
  qed
  then have ok: "block_ok x" if "b \<in> set as" "blocks ?t b = Some x" for b x
    using that block_ok_view by blast
  have "n < 2 ^ 63" "file_size f < 2 ^ 63" using n by (simp_all add: MAX_FILE_SIZE_def)
  then have bc: "block_count n = blocks_for n" "block_count (file_size f) = blocks_for (file_size f)"
    by (simp_all only: block_count_eq)
  have "extend_file a n s = Some (0, ?t)"
    unfolding extend_file_def if_not_P [OF iffD2 [OF not_less n(2)]] f bind.bind_lunit Let_def bc
      j [symmetric] t(1) h(1) last option.case last_occupied_locc
    using blk h(1) by (simp add: upd_block_def upd_file_def sealed_def)
  moreover have "ufs_rel fl (bm(a := as)) ?t" by (rule only_file_rel [OF rel only part ok])
  moreover have "map_option file_size (files ?t a) = Some n" "descs ?t = descs s" using g(3) by simp_all
  ultimately show ?thesis using only vw n_le by blast
qed

subsection \<open>The call\<close>

definition resize_spec :: "int \<Rightarrow> nat \<Rightarrow> afs \<Rightarrow> int \<Rightarrow> afs \<Rightarrow> bool" where
  "resize_spec fd n A r A' \<longleftrightarrow>
     (case a_fds A fd of
        None \<Rightarrow> r = -1 \<and> A' = A\<lparr>a_errno := UFS_ERR_NO_FILE\<rparr>
      | Some d \<Rightarrow> (case a_files A (desc_file d) of
          None \<Rightarrow> False
        | Some f \<Rightarrow>
            if n = a_size f then r = 0 \<and> A' = A
            else if n < a_size f
            then r = 0 \<and> (\<exists>m \<ge> n. A' = A\<lparr>
                a_files := (a_files A)(desc_file d \<mapsto> f\<lparr>a_size := n, a_data := take m (a_data f)\<rparr>),
                a_fds := (\<lambda>k. map_option (clamped (desc_file d) n) (a_fds A k))\<rparr>)
            else if n > MAX_FILE_SIZE then r = -1 \<and> A' = A\<lparr>a_errno := UFS_ERR_NO_MEM\<rparr>
            else r = 0 \<and> (\<exists>z. n \<le> length (a_data f) + z \<and> A' = A\<lparr>
                a_files := (a_files A)(desc_file d \<mapsto>
                  f\<lparr>a_size := n, a_data := a_data f @ replicate z (Some 0)\<rparr>)\<rparr>)))"

lemma raw_take: "sized L \<Longrightarrow> raw (take i L) = take (BS * i) (raw L)"
proof (induction L arbitrary: i)
  case (Cons b L)
  then show ?case by (cases i) simp_all
qed simp

lemma raw_lcut: "sized L \<Longrightarrow> raw (lcut L j n) = take (BS * (length L - j)) (raw L)"
  by (simp add: lcut_def raw_take)

lemma raw_lextend: "raw (lextend L j n) = raw L @ replicate (BS * j) (Some 0)"
proof -
  have "raw ((lgrow ^^ j) L) = raw L @ replicate (BS * j) (Some 0)"
  proof (induction j)
    case (Suc j)
    then show ?case by (simp add: lgrow_def lzero_def add.commute [of BS] replicate_add)
  qed simp
  then show ?thesis by (simp add: lextend_def)
qed

lemma used_ok_sized: "used_ok L \<Longrightarrow> sized L"
  by (auto simp: used_ok_def sized_def)

lemma only_file_part:
  assumes "ufs_rel fl (bm(a := as)) t" and "files t a = Some g"
  shows "file_part a bm as t"
  using core_file_part [OF ufs_rel_coreD [OF assms(1)] assms(2)] by (simp add: file_part_def)

lemma abs_resized:
  assumes rel: "ufs_rel fl bm s" and f: "files s a = Some f"
    and t: "only_file a bm s t" "ufs_rel fl (bm(a := as)) t" "map_option file_size (files t a) = Some n"
    and q: "\<And>k. fd_lookup t k = q k"
  shows "abs_ufs t = (abs_ufs s)\<lparr>
    a_files := (a_files (abs_ufs s))(a \<mapsto>
      (abs_file (blocks s) f)\<lparr>a_size := n, a_data := raw (view (blocks t) as)\<rparr>), a_fds := q\<rparr>"
proof -
  from t(3) obtain g where g: "files t a = Some g" "file_size g = n" by auto
  have "ufs_error_code t = ufs_error_code s" using t(1) by (simp add: only_file_def)
  moreover have "fd_lookup t = q" using q by blast
  ultimately show ?thesis
    using only_file_abs [OF ufs_rel_coreD [OF rel] t(1) only_file_part [OF t(2) g(1)] f g(1)] g(2)
    by (simp add: abs_ufs_def)
qed

lemma fd_lookup_map:
  assumes "only_file a bm s t" and "\<And>e. descs t e = map_option h (descs s e)"
  shows "fd_lookup t k = map_option h (fd_lookup s k)"
proof -
  have "desc_table t = desc_table s" using assms(1) by (simp add: only_file_def desc_table_def)
  then show ?thesis by (simp add: fd_lookup_def assms(2) split: option.split)
qed

lemma resize_call:
  assumes rel: "ufs_rel fl bm s" and found: "find_desc fd s = Some (Some (i, d))"
    and d: "descs s d = Some x" and f: "files s (desc_file x) = Some f"
    and small: "BS * length (bm (desc_file x)) < 2 ^ 63"
  shows "n < file_size f \<Longrightarrow> ufs_resize fd n s = shrink_file d n s"
    and "file_size f < n \<Longrightarrow> ufs_resize fd n s = extend_file (desc_file x) n s"
  using found d f by (simp_all add: ufs_resize_def)

lemma resize_call_refines:
  assumes inv: "ufs_inv s" and fd: "fd_arg fd" and small: "files_below (2 ^ 63) s"
  shows "\<exists>r t. ufs_resize fd n s = Some (r, t) \<and> ufs_inv t \<and> resize_spec fd n (abs_ufs s) r (abs_ufs t)"
proof -
  from inv obtain fl bm where rel: "ufs_rel fl bm s" by (auto simp: ufs_inv_def)
  from ufs_relD(3) [OF rel] fd_argD [OF fd] show ?thesis
  proof (cases rule: find_desc_inv)
    case none
    with inv show ?thesis by (simp add: ufs_resize_def fail_with_def resize_spec_def abs_errno)
  next
    case (found i d x)
    let ?a = "desc_file x"
    obtain f where f: "files s ?a = Some f" using ufs_relD(4) [OF rel] found(5) by (auto simp: descs_rel_def)
    note below = files_belowD [OF small rel f]
    note sized = used_ok_sized [OF view_used_ok [OF rel f]]
    note data = abs_file_data [OF blocks_relD(1) [OF ufs_relD(2) [OF rel] f], unfolded raw_view]
    have A: "a_fds (abs_ufs s) fd = Some x" "a_files (abs_ufs s) ?a = Some (abs_file (blocks s) f)"
      using found(6) f by simp_all
    consider "n = file_size f" | "n < file_size f" | "file_size f < n" "n \<le> MAX_FILE_SIZE"
      | "file_size f < n" "MAX_FILE_SIZE < n" by linarith
    then show ?thesis
    proof cases
      case 1
      then have "ufs_resize fd n s = Some (0, s)" using found f by (simp add: ufs_resize_def)
      moreover have "resize_spec fd n (abs_ufs s) 0 (abs_ufs s)"
        unfolding resize_spec_def A option.case using 1 by simp
      ultimately show ?thesis using inv by blast
    next
      case 2
      obtain t as where t: "shrink_file d n s = Some (0, t)" "ufs_rel fl (bm(?a := as)) t"
        "only_file ?a bm s t" "map_option file_size (files t ?a) = Some n"
        "descs t = (\<lambda>e. map_option (clamped ?a n) (descs s e))"
        "view (blocks t) as = lcut (view (blocks s) (bm ?a)) (blocks_for (file_size f) - blocks_for n) n"
        "n \<le> BS * length as"
        using shrink_call [OF rel found(5) refl f 2 below refl] by blast
      let ?m = "BS * (length (view (blocks s) (bm ?a)) - (blocks_for (file_size f) - blocks_for n))"
      have len: "length as = length (view (blocks s) (bm ?a)) - (blocks_for (file_size f) - blocks_for n)"
        using arg_cong [OF t(6), of length] by (simp add: lcut_def)
      have raw: "raw (view (blocks t) as) = take ?m (a_data (abs_file (blocks s) f))"
        unfolding t(6) raw_lcut [OF sized] data ..
      have "n \<le> ?m" using t(7) unfolding len .
      moreover have "abs_ufs t = (abs_ufs s)\<lparr>
          a_files := (a_files (abs_ufs s))(?a \<mapsto> (abs_file (blocks s) f)\<lparr>a_size := n,
            a_data := take ?m (a_data (abs_file (blocks s) f))\<rparr>),
          a_fds := (\<lambda>k. map_option (clamped ?a n) (a_fds (abs_ufs s) k))\<rparr>"
        unfolding raw [symmetric] abs_ufs_sel(3)
        by (rule abs_resized [OF rel f t(3,2,4)]) (rule fd_lookup_map [OF t(3)], simp add: t(5))
      moreover have "ufs_resize fd n s = Some (0, t)"
        using resize_call(1) [OF rel found(1,5) f below 2] t(1) by simp
      ultimately show ?thesis
        using t(2) 2 unfolding resize_spec_def A option.case by (auto intro: ufs_invI)
    next
      case 3
      obtain t as where t: "extend_file ?a n s = Some (0, t)" "ufs_rel fl (bm(?a := as)) t"
        "only_file ?a bm s t" "map_option file_size (files t ?a) = Some n" "descs t = descs s"
        "view (blocks t) as = lextend (view (blocks s) (bm ?a)) (blocks_for n - blocks_for (file_size f)) n"
        "n \<le> BS * length as"
        using extend_call [OF rel f 3 refl] by blast
      let ?z = "BS * (blocks_for n - blocks_for (file_size f))"
      have raw: "raw (view (blocks t) as) = a_data (abs_file (blocks s) f) @ replicate ?z (Some 0)"
        unfolding t(6) raw_lextend data ..
      obtain g where g: "files t ?a = Some g" using t(4) by auto
      have "n \<le> length (a_data (abs_file (blocks s) f)) + ?z"
        using t(7) length_a_data [OF t(2) g] arg_cong [OF raw, of length]
          length_raw [OF used_ok_sized [OF view_used_ok [OF t(2) g]]] by simp
      moreover have "abs_ufs t = (abs_ufs s)\<lparr>
          a_files := (a_files (abs_ufs s))(?a \<mapsto> (abs_file (blocks s) f)\<lparr>a_size := n,
            a_data := a_data (abs_file (blocks s) f) @ replicate ?z (Some 0)\<rparr>), a_fds := fd_lookup s\<rparr>"
        unfolding raw [symmetric]
        using fd_lookup_map [OF t(3), of id] t(5)
        by (intro abs_resized [OF rel f t(3,2,4)]) (simp add: option.map_id)
      then have "abs_ufs t = (abs_ufs s)\<lparr>
          a_files := (a_files (abs_ufs s))(?a \<mapsto> (abs_file (blocks s) f)\<lparr>a_size := n,
            a_data := a_data (abs_file (blocks s) f) @ replicate ?z (Some 0)\<rparr>)\<rparr>"
        by (simp add: abs_ufs_def)
      moreover have "ufs_resize fd n s = Some (0, t)"
        using resize_call(2) [OF rel found(1,5) f below 3(1)] t(1) by simp
      ultimately show ?thesis
        using t(2) 3 unfolding resize_spec_def A option.case by (auto intro: ufs_invI)
    next
      case 4
      then have "ufs_resize fd n s = Some (-1, s\<lparr>ufs_error_code := UFS_ERR_NO_MEM\<rparr>)"
        using found f by (simp add: ufs_resize_def extend_file_def fail_with_def)
      moreover have "resize_spec fd n (abs_ufs s) (-1) (abs_ufs (s\<lparr>ufs_error_code := UFS_ERR_NO_MEM\<rparr>))"
        unfolding resize_spec_def A option.case using 4 by (simp add: abs_errno)
      ultimately show ?thesis using inv by auto
    qed
  qed
qed

text \<open>What that means for the bytes of the file.\<close>

lemma shrink_contents:
  assumes "resize_spec fd n A r A'" and "a_fds A fd = Some d" and "a_files A (desc_file d) = Some f"
    and "n < a_size f"
  shows "\<exists>f'. a_files A' (desc_file d) = Some f' \<and> contents f' = take n (contents f)"
  using assms by (auto simp: resize_spec_def contents_def min_absorb1)

lemma grow_contents:
  assumes "resize_spec fd n A r A'" and "a_fds A fd = Some d" and "a_files A (desc_file d) = Some f"
    and "a_size f < n" "n \<le> MAX_FILE_SIZE"
  shows "\<exists>f' z. a_files A' (desc_file d) = Some f' \<and>
    contents f' = take n (a_data f @ replicate z (Some 0)) \<and> length (contents f') = n"
proof -
  have "\<not> n = a_size f" "\<not> n < a_size f" "\<not> n > MAX_FILE_SIZE" using assms(4,5) by simp_all
  with assms(1) obtain z where z: "n \<le> length (a_data f) + z"
    "A' = A\<lparr>a_files := (a_files A)(desc_file d \<mapsto>
       f\<lparr>a_size := n, a_data := a_data f @ replicate z (Some 0)\<rparr>)\<rparr>"
    unfolding resize_spec_def assms(2,3) option.case by auto
  then show ?thesis by (intro exI [of _ "f\<lparr>a_size := n, a_data := a_data f @ replicate z (Some 0)\<rparr>"] exI [of _ z])
      (simp add: contents_def)
qed

lemma resize_tight:
  assumes inv: "ufs_inv s" and fd: "fd_arg fd" "fd_lookup s fd = Some x" and f: "files s (desc_file x) = Some f"
    and small: "files_below (2 ^ 63) s" and tight: "tight_file s (desc_file x)"
    and n: "n < file_size f \<or> file_size f < n \<and> n \<le> MAX_FILE_SIZE"
  shows "\<exists>t. ufs_resize fd n s = Some (0, t) \<and> tight_file t (desc_file x)"
proof -
  let ?a = "desc_file x"
  from inv obtain fl bm where rel: "ufs_rel fl bm s" by (auto simp: ufs_inv_def)
  note below = files_belowD [OF small rel f]
  have tL: "tight (view (blocks s) (bm ?a)) (file_size f)"
    using tight f by (simp add: tight_file_def file_view_rel [OF rel f])
  have tight_t: "tight_file t ?a"
    if "ufs_rel fl (bm(?a := as)) t" "map_option file_size (files t ?a) = Some n"
      "tight (view (blocks t) as) n" for t as
    using that file_view_rel [OF that(1)] by (auto simp: tight_file_def)
  from ufs_relD(3) [OF rel] fd_argD [OF fd(1)] show ?thesis
  proof (cases rule: find_desc_inv)
    case none
    with fd(2) show ?thesis by simp
  next
    case (found i d y)
    then have y: "y = x" using fd(2) by simp
    show ?thesis
      using n
    proof
      assume n: "n < file_size f"
      from shrink_call [OF rel found(5) [unfolded y] refl f n below refl]
        lcut_tight [OF tL n refl] resize_call(1) [OF rel found(1) found(5) [unfolded y] f below n]
      show ?thesis using tight_t by metis
    next
      assume n: "file_size f < n \<and> n \<le> MAX_FILE_SIZE"
      from extend_call [OF rel f _ _ refl] lextend_tight [OF tL _ refl] n
        resize_call(2) [OF rel found(1) found(5) [unfolded y] f below]
      show ?thesis using tight_t by metis
    qed
  qed
qed

end
