(* ===== verification/UserfsSystem.thy ===== *)
theory UserfsSystem
  imports UserfsDestroy UserfsResize
begin

section \<open>The file system: any sequence of calls\<close>

text \<open>
  The program as a client sees it: a sequence of calls with arguments that respect the
  interface (\<open>call_ok\<close>), from the globals as the program starts. The invariant of
  \<open>UserfsInvariant\<close> is an invariant of this system, in the sense of the interface
  \<open>invariant_system\<close> of the prelude.
\<close>

datatype ufs_call =
    Open string "32 word"
  | Write int "byte list" nat
  | Read int nat
  | Close int
  | Delete string
  | Resize int nat
  | Destroy

definition ufs_exec :: "ufs_call \<Rightarrow> ufs \<Rightarrow> ufs option" where
  "ufs_exec c s = (case c of
      Open nm flags \<Rightarrow> map_option snd (ufs_open nm flags s)
    | Write fd buf sz \<Rightarrow> map_option snd (ufs_write fd buf sz s)
    | Read fd sz \<Rightarrow> map_option (snd \<circ> snd) (ufs_read fd sz s)
    | Close fd \<Rightarrow> map_option snd (ufs_close fd s)
    | Delete nm \<Rightarrow> map_option snd (ufs_delete nm s)
    | Resize fd n \<Rightarrow> map_option snd (ufs_resize fd n s)
    | Destroy \<Rightarrow> ufs_destroy s)"

text \<open>
  The arguments a call needs: a descriptor number other than \<open>INT_MIN\<close>, a buffer of the
  given size, and room: for another doubling of the descriptor array, and for byte
  counts and offsets to fit the types they are computed in.
\<close>

definition call_ok :: "ufs_call \<Rightarrow> ufs \<Rightarrow> bool" where
  "call_ok c s = (case c of
      Open nm flags \<Rightarrow> room s
    | Write fd buf sz \<Rightarrow> fd_arg fd \<and> sz \<le> length buf \<and> sz < 2 ^ 63 \<and> files_below (2 ^ 63) s
    | Read fd sz \<Rightarrow> fd_arg fd \<and> sz < 2 ^ 63 \<and> files_below (2 ^ 31) s
    | Close fd \<Rightarrow> fd_arg fd
    | Delete nm \<Rightarrow> True
    | Resize fd n \<Rightarrow> fd_arg fd \<and> files_below (2 ^ 63) s
    | Destroy \<Rightarrow> True)"

inductive ufs_step :: "ufs \<Rightarrow> ufs \<Rightarrow> bool" where
  ufs_call: "call_ok c s \<Longrightarrow> ufs_exec c s = Some t \<Longrightarrow> ufs_step s t"

inductive_cases ufs_stepE: "ufs_step s t"

lemma destroyed_inv: "ufs_inv (ufs_start\<lparr>ufs_error_code := e, fresh_addr := n\<rparr>)"
proof -
  have "ufs_rel [] (\<lambda>_. []) (ufs_start\<lparr>ufs_error_code := e, fresh_addr := n\<rparr>)"
    using ufs_rel_start [of "\<lambda>_. []"]
    by (simp add: ufs_rel_def core_rel_def table_rel_def fresh_rel_def desc_table_def ufs_start_def)
  then show ?thesis by (rule ufs_invI)
qed

lemma exec_ok:
  assumes "ufs_inv s" and "call_ok c s"
  shows "\<exists>t. ufs_exec c s = Some t \<and> ufs_inv t"
proof (cases c)
  case (Open nm flags)
  with assms open_call_refines [of s nm flags] show ?thesis by (auto simp: ufs_exec_def call_ok_def)
next
  case (Write fd buf sz)
  with assms write_call_refines [of s fd sz buf] show ?thesis by (auto simp: ufs_exec_def call_ok_def)
next
  case (Read fd sz)
  with assms read_call_refines [of s fd sz] show ?thesis by (auto simp: ufs_exec_def call_ok_def)
next
  case (Close fd)
  with assms close_call_refines [of s fd] show ?thesis by (auto simp: ufs_exec_def call_ok_def)
next
  case (Delete nm)
  with assms delete_call_refines [of s nm] show ?thesis by (auto simp: ufs_exec_def)
next
  case (Resize fd n)
  with assms resize_call_refines [of s fd n] show ?thesis by (auto simp: ufs_exec_def call_ok_def)
next
  case Destroy
  with assms destroy_call_frees [of s] destroyed_inv show ?thesis by (auto simp: ufs_exec_def)
qed

abbreviation ufs_init :: "ufs \<Rightarrow> bool" where
  "ufs_init s \<equiv> s = ufs_start"

interpretation fs: invariant_system ufs_init ufs_step ufs_inv
proof
  show "ufs_inv s" if "ufs_init s" for s
    using that ufs_invI [OF ufs_rel_start [of "\<lambda>_. []"]] by simp
  show "ufs_inv t" if "ufs_inv s" "ufs_step s t" for s t
    using that exec_ok by (elim ufs_stepE) force
qed

end
