(* ===== verification/UserfsCorrect.thy ===== *)
theory UserfsCorrect
  imports UserfsSystem
begin

section \<open>The file system: correctness of the calls\<close>

text \<open>
  The properties of \<open>homework-03/userfs.c\<close>. Each call, made in a state that satisfies the
  invariant, returns (no undefined behaviour, no failed assertion, no endless loop), leaves
  the invariant true, and relates the abstract states before and after as its specification
  says. \<open>demo k pos\<close> is a small state on which the properties are exercised: one file of
  \<open>k\<close> bytes, open for reading and writing under descriptor 1, which stands at \<open>pos\<close>.
\<close>

subsection \<open>A small state\<close>

definition demo :: "nat \<Rightarrow> nat \<Rightarrow> ufs" where
  "demo k pos = ufs_start\<lparr>
     blocks := [2 \<mapsto> \<lparr>memory = replicate k (Some 65) @ replicate (512 - k) None,
                     occupied = Some (int k), next_block = None, prev_block = None\<rparr>],
     files := [0 \<mapsto> \<lparr>first_block = Some 2, last_block = Some 2, refs = 1, is_ghost = False,
                    file_size = k, name = ''f'', next_file = None, prev_file = None\<rparr>],
     descs := [1 \<mapsto> \<lparr>desc_file = 0, open_flags = UFS_READ_WRITE, offset = pos\<rparr>],
     fresh_addr := 3, file_list := Some 0,
     file_descriptors := Some (Some 1 # replicate 9 None),
     file_descriptor_used := 1, file_descriptor_capacity := 10\<rparr>"

lemma demo_openers: "openers [Suc 0 \<mapsto> \<lparr>desc_file = 0, open_flags = fl, offset = pos\<rparr>] a = (if a = 0 then {1} else {})"
  by (auto simp: openers_def)

lemma demo_inv:
  assumes "k \<le> 512" "pos \<le> 512" shows "ufs_inv (demo k pos)"
proof -
  have "ufs_rel [0] (\<lambda>a. [2]) (demo k pos)"
    using assms unfolding ufs_rel_def core_rel_def
    by (simp add: demo_def ufs_start_def files_rel_def blocks_rel_def block_list_def table_rel_def
        desc_table_def descs_rel_def refs_rel_def demo_openers sizes_rel_def names_rel_def
        fresh_rel_def ghosts_rel_def blocks_ok_def block_ok_def BLOCK_SIZE_def)
  then show ?thesis by (rule ufs_invI)
qed

lemma demo_room: "room (demo k pos)"
  by (simp add: room_def demo_def)

lemma demo_fd: "fd_lookup (demo k pos) 1 = Some \<lparr>desc_file = 0, open_flags = UFS_READ_WRITE, offset = pos\<rparr>"
  by (simp add: fd_lookup_def demo_def desc_table_def)

lemma demo_fd_arg: "fd_arg 1"
  by (auto simp: fd_arg_def int_min_def)

lemma demo_file: "files (demo k pos) 0 = Some \<lparr>first_block = Some 2, last_block = Some 2, refs = 1,
    is_ghost = False, file_size = k, name = ''f'', next_file = None, prev_file = None\<rparr>"
  by (simp add: demo_def)

lemma demo_view: "file_view (demo k pos) (the (files (demo k pos) 0)) =
    [(replicate k (Some 65) @ replicate (512 - k) None, Some (int k))]"
  by (simp add: file_view_def demo_def walk.simps)

lemma demo_tight: "0 < k \<Longrightarrow> k \<le> 512 \<Longrightarrow> tight_file (demo k pos) 0"
  using demo_view [of k pos] tight_snoc [of "[]"] by (simp add: tight_file_def demo_file)

lemma demo_below: "2 ^ 31 \<le> n \<Longrightarrow> k \<le> 512 \<Longrightarrow> files_below n (demo k pos)"
  by (simp add: files_below_def demo_def abs_file_def walk.simps raw_data_def block_memory_def)

lemma demo_rw: "may_write UFS_READ_WRITE"
  by (simp add: may_write_def has_flag_def UFS_READ_WRITE_def)

subsection \<open>Opening, closing, deleting, destroying\<close>

text \<open>
  C1: \<open>ufs_open\<close>, in any state that satisfies the invariant and whose descriptor array
  can still grow, returns, keeps the invariant, and does what \<open>open_spec\<close> says: it opens
  the visible file of that name, or with \<open>UFS_CREATE\<close> a new empty one, under the smallest
  free descriptor number with offset 0; without the flag a missing file is reported.
\<close>

theorem ufs_open_refines:
  assumes "ufs_inv s" and "room s"
  shows "\<exists>r t. ufs_open nm flags s = Some (r, t) \<and> ufs_inv t \<and>
    open_spec nm flags (abs_ufs s) r (abs_ufs t)"
  using assms by (rule open_call_refines)

theorem ufs_open_refines_witness:
  "\<exists>r t. ufs_open ''g'' UFS_CREATE (demo 3 0) = Some (r, t) \<and> ufs_inv t \<and>
    open_spec ''g'' UFS_CREATE (abs_ufs (demo 3 0)) r (abs_ufs t)"
  by (rule ufs_open_refines) (simp_all add: demo_inv demo_room)

text \<open>
  C2: \<open>ufs_close\<close> returns for every descriptor number (\<open>INT_MIN\<close> excepted, for which
  \<open>fd - 1\<close> overflows), keeps the invariant, removes exactly that descriptor, and frees the
  file exactly when it is a deleted file that no other descriptor refers to.
\<close>

theorem ufs_close_refines:
  assumes "ufs_inv s" and "fd_arg fd"
  shows "\<exists>r t. ufs_close fd s = Some (r, t) \<and> ufs_inv t \<and> close_spec fd (abs_ufs s) r (abs_ufs t)"
  using assms by (rule close_call_refines)

theorem ufs_close_refines_witness:
  "\<exists>r t. ufs_close 1 (demo 3 0) = Some (r, t) \<and> ufs_inv t \<and>
    close_spec 1 (abs_ufs (demo 3 0)) r (abs_ufs t)"
  by (rule ufs_close_refines) (simp_all add: demo_inv demo_fd_arg)

text \<open>
  C3: \<open>ufs_delete\<close> returns, keeps the invariant, and hides the file of that name: it is
  freed at once when no descriptor refers to it, and stays readable through its
  descriptors otherwise; a missing name is reported.
\<close>

theorem ufs_delete_refines:
  assumes "ufs_inv s"
  shows "\<exists>r t. ufs_delete nm s = Some (r, t) \<and> ufs_inv t \<and> delete_spec nm (abs_ufs s) r (abs_ufs t)"
  using assms by (rule delete_call_refines)

theorem ufs_delete_refines_witness:
  "\<exists>r t. ufs_delete ''f'' (demo 3 0) = Some (r, t) \<and> ufs_inv t \<and>
    delete_spec ''f'' (abs_ufs (demo 3 0)) r (abs_ufs t)"
  by (rule ufs_delete_refines) (simp add: demo_inv)

text \<open>
  C4: \<open>ufs_destroy\<close> returns and frees everything: no file, block or descriptor stays
  allocated, and the globals are as at the start (but for the errno).
\<close>

theorem ufs_destroy_frees:
  assumes "ufs_inv s"
  shows "ufs_destroy s =
    Some (ufs_start\<lparr>ufs_error_code := ufs_error_code s, fresh_addr := fresh_addr s\<rparr>)"
  using assms by (rule destroy_call_frees)

theorem ufs_destroy_frees_witness:
  "ufs_destroy (demo 3 0) = Some (ufs_start\<lparr>ufs_error_code := UFS_ERR_NO_ERR, fresh_addr := 3\<rparr>)"
  using ufs_destroy_frees [of "demo 3 0"] by (simp add: demo_inv) (simp add: demo_def ufs_start_def)

subsection \<open>Writing\<close>

text \<open>
  C5: \<open>ufs_write\<close> returns, keeps the invariant, and does what \<open>write_spec\<close> says of
  errors, result, size and offset, and of all other files and descriptors, which it leaves
  alone; in particular every \<open>memcpy\<close> stays inside its block and inside the buffer.
\<close>

theorem ufs_write_refines:
  assumes "ufs_inv s" and "fd_arg fd" and "sz \<le> length buf" and "sz < 2 ^ 63" and "files_below (2 ^ 63) s"
  shows "\<exists>r t. ufs_write fd buf sz s = Some (r, t) \<and> ufs_inv t \<and>
    write_spec fd sz (abs_ufs s) r (abs_ufs t)"
  using assms by (rule write_call_refines)

theorem ufs_write_refines_witness:
  "\<exists>r t. ufs_write 1 [66, 67] 2 (demo 3 0) = Some (r, t) \<and> ufs_inv t \<and>
    write_spec 1 2 (abs_ufs (demo 3 0)) r (abs_ufs t)"
  by (rule ufs_write_refines) (simp_all add: demo_inv demo_fd_arg demo_below)

text \<open>
  C6: In a file stored without gaps, a write that starts at its end, or in its last block when
  that block is not full, replaces and extends the bytes at the offset by the buffer's, over any
  number of blocks, and leaves the file stored without gaps. (The hypothesis says that all full
  blocks lie before the offset; of writes into a full block see the next property.)
\<close>

theorem ufs_write_contents:
  assumes "ufs_inv s" and "fd_arg fd" and "fd_lookup s fd = Some x" and "may_write (open_flags x)"
    and "files s (desc_file x) = Some f" and "0 < sz" and "sz \<le> length buf"
    and "file_size f + sz \<le> MAX_FILE_SIZE" and "tight_file s (desc_file x)"
    and "offset x \<le> file_size f" and "file_size f div BLOCK_SIZE \<le> offset x div BLOCK_SIZE"
  shows "\<exists>t. ufs_write fd buf sz s = Some (int sz, t) \<and> tight_file t (desc_file x) \<and>
    file_bytes t (desc_file x) =
      map_option (\<lambda>bytes. overwrite bytes (offset x) (map Some (take sz buf))) (file_bytes s (desc_file x))"
  using assms by (rule write_contents)

theorem ufs_write_contents_witness:
  "\<exists>t. ufs_write 1 [66, 67] 2 (demo 3 2) = Some (2, t) \<and> tight_file t 0 \<and>
    file_bytes t 0 = Some [Some 65, Some 65, Some 66, Some 67]"
proof -
  have "file_bytes (demo 3 2) 0 = Some [Some 65, Some 65, Some 65]"
    by (simp add: file_bytes_def contents_def demo_def abs_file_def walk.simps raw_data_def
        block_memory_def eval_nat_numeral)
  then show ?thesis
    using ufs_write_contents [of "demo 3 2" 1 _ _ 2 "[66, 67]", OF demo_inv demo_fd_arg demo_fd _ _ _ _ _ _ _ _]
    by (simp add: demo_rw demo_file demo_tight MAX_FILE_SIZE_def BLOCK_SIZE_def overwrite_def)
qed

text \<open>
  C7: A write that starts inside a block that is full reports success but stores the
  bytes in new blocks behind the end of the file: what the file holds does not change.
  (The header promises that the bytes are written at the descriptor's offset.)
\<close>

theorem ufs_write_full_block_lost:
  assumes "ufs_inv s" and "fd_arg fd" and "fd_lookup s fd = Some x" and "may_write (open_flags x)"
    and "files s (desc_file x) = Some f" and "0 < sz" and "sz \<le> length buf"
    and "file_size f + sz \<le> MAX_FILE_SIZE" and "tight_file s (desc_file x)"
    and "offset x div BLOCK_SIZE < file_size f div BLOCK_SIZE" and "offset x + sz \<le> file_size f"
  shows "\<exists>t. ufs_write fd buf sz s = Some (int sz, t) \<and>
    file_bytes t (desc_file x) = file_bytes s (desc_file x)"
  using assms by (rule write_lost)

theorem ufs_write_full_block_lost_witness:
  "\<exists>t. ufs_write 1 [66, 67] 2 (demo 512 0) = Some (2, t) \<and>
    file_bytes t 0 = file_bytes (demo 512 0) 0"
  using ufs_write_full_block_lost [of "demo 512 0" 1 _ _ 2 "[66, 67]", OF demo_inv demo_fd_arg demo_fd]
  by (simp add: demo_rw demo_file demo_tight MAX_FILE_SIZE_def BLOCK_SIZE_def)

subsection \<open>Reading\<close>

lemma demo_may_read: "may_read UFS_READ_WRITE"
  by (simp add: may_read_def has_flag_def UFS_READ_WRITE_def)

lemma demo_bytes: "file_bytes (demo 3 pos) 0 = Some [Some 65, Some 65, Some 65]"
  by (simp add: file_bytes_def contents_def demo_def abs_file_def walk.simps raw_data_def
      block_memory_def eval_nat_numeral)

text \<open>
  C8: \<open>ufs_read\<close> returns, keeps the invariant, never reads outside a block, returns at
  most \<open>sz\<close> bytes and their number, moves the offset by it, and changes nothing else; the
  errors are those of \<open>read_spec\<close>. (The offset is cast to \<open>int\<close>, hence the bound on the
  blocks of a file.)
\<close>

theorem ufs_read_refines:
  assumes "ufs_inv s" and "fd_arg fd" and "sz < 2 ^ 63" and "files_below (2 ^ 31) s"
  shows "\<exists>r out t. ufs_read fd sz s = Some (r, out, t) \<and> ufs_inv t \<and>
    read_spec fd sz (abs_ufs s) r out (abs_ufs t)"
  using assms by (rule read_call_refines)

theorem ufs_read_refines_witness:
  "\<exists>r out t. ufs_read 1 2 (demo 3 0) = Some (r, out, t) \<and> ufs_inv t \<and>
    read_spec 1 2 (abs_ufs (demo 3 0)) r out (abs_ufs t)"
  by (rule ufs_read_refines) (simp_all add: demo_inv demo_fd_arg demo_below)

text \<open>
  C9: Reading a file that is stored without gaps returns its bytes from the offset on,
  as many as asked for and available, and moves the offset behind them.
\<close>

theorem ufs_read_contents:
  assumes "ufs_inv s" and "fd_arg fd" and "fd_lookup s fd = Some x" and "may_read (open_flags x)"
    and "sz < 2 ^ 63" and "tight_file s (desc_file x)" and "file_bytes s (desc_file x) = Some bytes"
    and "length bytes < 2 ^ 30"
  shows "\<exists>t. ufs_read fd sz s =
      Some (int (min sz (length bytes - offset x)), take sz (drop (offset x) bytes), t) \<and>
    file_bytes t = file_bytes s \<and>
    fd_lookup t = (fd_lookup s)(fd \<mapsto> x\<lparr>offset := offset x + min sz (length bytes - offset x)\<rparr>)"
  using assms by (rule read_contents)

theorem ufs_read_contents_witness:
  "\<exists>t. ufs_read 1 5 (demo 3 1) = Some (2, [Some 65, Some 65], t)"
  using ufs_read_contents [of "demo 3 1" 1 _ 5, OF demo_inv demo_fd_arg demo_fd _ _ _ _]
  by (auto simp: demo_may_read demo_tight demo_bytes)

text \<open>
  C10: Round trip: what one descriptor appends to a file stored without gaps, another
  descriptor that stands at the old end reads back, byte for byte.
\<close>

definition demo2 :: ufs where
  "demo2 = ufs_start\<lparr>
     files := [0 \<mapsto> (new_file ''f'')\<lparr>refs := 2\<rparr>],
     descs := [1 \<mapsto> \<lparr>desc_file = 0, open_flags = UFS_READ_WRITE, offset = 0\<rparr>,
               2 \<mapsto> \<lparr>desc_file = 0, open_flags = UFS_READ_ONLY, offset = 0\<rparr>],
     fresh_addr := 3, file_list := Some 0,
     file_descriptors := Some (Some 1 # Some 2 # replicate 8 None),
     file_descriptor_used := 2, file_descriptor_capacity := 10\<rparr>"

lemma demo2_openers: "openers (descs demo2) a = (if a = 0 then {1, 2} else {})"
  by (auto simp: openers_def demo2_def)

lemma demo2_inv: "ufs_inv demo2"
proof -
  have "refs_rel (files demo2) (descs demo2)" "ghosts_rel (files demo2) (descs demo2)"
    by (simp_all add: refs_rel_def ghosts_rel_def demo2_openers) (simp_all add: demo2_def new_file_def)
  then have "ufs_rel [0] (\<lambda>a. []) demo2"
    unfolding ufs_rel_def core_rel_def
    by (simp add: demo2_def ufs_start_def files_rel_def blocks_rel_def block_list_def table_rel_def
        desc_table_def descs_rel_def sizes_rel_def names_rel_def fresh_rel_def blocks_ok_def
        new_file_def insert_commute)
  then show ?thesis by (rule ufs_invI)
qed

theorem ufs_append_read_roundtrip:
  assumes "ufs_inv s" and "fd_arg fd" and "fd_lookup s fd = Some x" and "may_write (open_flags x)"
    and "fd_arg fd2" and "fd_lookup s fd2 = Some y" and "may_read (open_flags y)"
    and "fd2 \<noteq> fd" and "desc_file y = desc_file x" and "files s (desc_file x) = Some f"
    and "0 < sz" and "sz \<le> length buf" and "file_size f + sz \<le> MAX_FILE_SIZE"
    and "tight_file s (desc_file x)" and "offset x = file_size f" and "offset y = file_size f"
    and "files_below (2 ^ 63) s"
  shows "\<exists>t u. ufs_write fd buf sz s = Some (int sz, t) \<and>
    ufs_read fd2 sz t = Some (int sz, map Some (take sz buf), u)"
  using assms by (rule append_then_read)

theorem ufs_append_read_roundtrip_witness:
  "\<exists>t u. ufs_write 1 (replicate 700 66) 700 demo2 = Some (700, t) \<and>
    ufs_read 2 700 t = Some (700, replicate 700 (Some 66), u)"
proof -
  have look: "fd_lookup demo2 1 = Some \<lparr>desc_file = 0, open_flags = UFS_READ_WRITE, offset = 0\<rparr>"
    "fd_lookup demo2 2 = Some \<lparr>desc_file = 0, open_flags = UFS_READ_ONLY, offset = 0\<rparr>"
    by (simp_all add: fd_lookup_def demo2_def desc_table_def)
  have arg: "fd_arg 2" by (auto simp: fd_arg_def int_min_def)
  have f: "files demo2 0 = Some ((new_file ''f'')\<lparr>refs := 2\<rparr>)" by (simp add: demo2_def)
  have "tight_file demo2 0"
    by (simp add: tight_file_def f) (simp add: file_view_def new_file_def walk.simps)
  moreover have "files_below (2 ^ 63) demo2"
    by (simp add: files_below_def demo2_def)
  moreover have "may_read UFS_READ_ONLY" by (simp add: may_read_def has_flag_def UFS_READ_ONLY_def)
  ultimately show ?thesis
    using ufs_append_read_roundtrip [OF demo2_inv demo_fd_arg look(1) _ arg look(2), of _ 700 "replicate 700 66"] f
    by (simp add: demo_rw MAX_FILE_SIZE_def) (simp add: new_file_def)
qed

subsection \<open>Resizing\<close>

text \<open>
  C11: \<open>ufs_resize\<close> returns, keeps the invariant, and does what \<open>resize_spec\<close> says:
  shrinking cuts the data and moves the offsets behind the new end of every descriptor of
  the file back to it, growing appends zeroed blocks, more than 100 MB is refused.
\<close>

theorem ufs_resize_refines:
  assumes "ufs_inv s" and "fd_arg fd" and "files_below (2 ^ 63) s"
  shows "\<exists>r t. ufs_resize fd n s = Some (r, t) \<and> ufs_inv t \<and> resize_spec fd n (abs_ufs s) r (abs_ufs t)"
  using assms by (rule resize_call_refines)

theorem ufs_resize_refines_witness:
  "\<exists>r t. ufs_resize 1 1000 (demo 3 0) = Some (r, t) \<and> ufs_inv t \<and>
    resize_spec 1 1000 (abs_ufs (demo 3 0)) r (abs_ufs t)"
  by (rule ufs_resize_refines) (simp_all add: demo_inv demo_fd_arg demo_below)

text \<open>
  C12: Growing a file does not clear the unused tail of its old last block: the bytes the
  file gains are what the blocks held behind the old size, and zero only after that. (The
  header promises that new empty blocks are created.)
\<close>

theorem ufs_grow_contents:
  assumes "ufs_inv s" and "fd_arg fd" and "files_below (2 ^ 63) s"
    and "fd_lookup s fd = Some x" and "a_files (abs_ufs s) (desc_file x) = Some f"
    and "a_size f < n" and "n \<le> MAX_FILE_SIZE"
  shows "\<exists>r t z. ufs_resize fd n s = Some (r, t) \<and>
    file_bytes t (desc_file x) = Some (take n (a_data f @ replicate z (Some 0))) \<and>
    n \<le> length (a_data f) + z"
proof -
  obtain r t where t: "ufs_resize fd n s = Some (r, t)" "resize_spec fd n (abs_ufs s) r (abs_ufs t)"
    using resize_call_refines [OF assms(1,2,3)] by blast
  have fdx: "a_fds (abs_ufs s) fd = Some x" using assms(4) by simp
  from grow_contents [OF t(2) fdx assms(5-7)] obtain f' z where
    "a_files (abs_ufs t) (desc_file x) = Some f'" "contents f' = take n (a_data f @ replicate z (Some 0))"
    "length (contents f') = n" by blast
  with t(1) show ?thesis unfolding file_bytes_def by (intro exI [of _ r] exI [of _ t] exI [of _ z]) auto
qed

theorem ufs_grow_contents_witness:
  "\<exists>r t z. ufs_resize 1 4 (demo 3 0) = Some (r, t) \<and>
    file_bytes t 0 = Some (take 4 ((replicate 3 (Some 65) @ replicate 509 None) @ replicate z (Some 0)))"
proof -
  have "a_files (abs_ufs (demo 3 0)) 0 =
      Some \<lparr>a_name = ''f'', a_ghost = False, a_size = 3, a_data = replicate 3 (Some 65) @ replicate 509 None\<rparr>"
    by (simp add: demo_def abs_file_def walk.simps raw_data_def block_memory_def)
  with ufs_grow_contents [of "demo 3 0" 1 _ _ 4, OF demo_inv demo_fd_arg demo_below demo_fd] show ?thesis
    by (fastforce simp: MAX_FILE_SIZE_def)
qed

subsection \<open>Sequences of calls\<close>

text \<open>
  C13: After any sequence of calls from the start of the program, every further call that
  respects the interface returns: it is never undefined, fails no assertion and does not
  run forever; and the invariant holds again after it.
\<close>

theorem ufs_never_stuck:
  assumes "reach ufs_init ufs_step s" and "call_ok c s"
  shows "\<exists>t. ufs_exec c s = Some t \<and> ufs_inv t"
  using fs.reach_inv [OF assms(1)] assms(2) by (rule exec_ok)

theorem ufs_never_stuck_witness:
  "\<exists>t. ufs_exec (Open ''f'' UFS_CREATE) ufs_start = Some t \<and> ufs_inv t"
  by (rule ufs_never_stuck)
    (simp_all add: reach_init call_ok_def room_def ufs_start_def)

end
