(* ===== verification/Coro.thy ===== *)
theory Coro
  imports Links
begin

section \<open>Coroutines\<close>

text \<open>
  \<open>homework-01/libcoro.c\<close>: coroutines that hand control to each other, and a scheduler
  that waits for one of them to finish.

  A \<open>sigjmp_buf\<close> is a place in the code to go on from, so \<open>ctx\<close> is modelled as what is
  left to run: a \<open>proc\<close>, the code of a coroutine as a tree of its actions on the state it
  shares with the others, cut at its calls of \<open>coro_yield\<close>. The tree may be infinite, as code
  may run for ever. Saving a context stores the
  rest of the tree; jumping to it runs the tree up to the next cut. Of \<open>coro_new\<close> this theory
  has what it amounts to, a context that stands at the start of the function; \<open>CoroSignal\<close>
  has how it gets there, with a signal handler on an alternate stack.
\<close>

subsection \<open>The code of a coroutine\<close>

text \<open>
  \<open>Act f g\<close> changes the shared state by \<open>f\<close> and goes on with \<open>g\<close> of the state before;
  \<open>Switches\<close> reads \<open>coro_switch_count(coro_this())\<close>; \<open>Exit\<close> is a call of \<open>exit\<close>; \<open>Fail\<close> is
  undefined behaviour.
\<close>

codatatype 'u proc =
    Return int
  | Exit int
  | Fail
  | Act "'u \<Rightarrow> 'u" "'u \<Rightarrow> 'u proc"
  | Switches "int \<Rightarrow> 'u proc"
  | Yield "'u proc"

datatype 'u stop =
    Returned int 'u
  | Exited int
  | Yielded "'u proc" 'u

text \<open>
  The code up to the next point where it hands control over; \<open>n\<close> is its switch count. \<open>None\<close>
  is undefined behaviour, or a loop without a yield.
\<close>

partial_function (option) run_slice :: "int \<Rightarrow> 'u proc \<Rightarrow> 'u \<Rightarrow> 'u stop option" where
  [code]: "run_slice n p u =
     (case p of
        Return r \<Rightarrow> Some (Returned r u)
      | Exit r \<Rightarrow> Some (Exited r)
      | Fail \<Rightarrow> None
      | Act f g \<Rightarrow> run_slice n (g u) (f u)
      | Switches g \<Rightarrow> run_slice n (g n) u
      | Yield p \<Rightarrow> Some (Yielded p u))"

lemma run_slice_simps [simp]:
  "run_slice n (Return r) u = Some (Returned r u)"
  "run_slice n (Exit r) u = Some (Exited r)"
  "run_slice n Fail u = None"
  "run_slice n (Act f g) u = run_slice n (g u) (f u)"
  "run_slice n (Switches h) u = run_slice n (h n) u"
  "run_slice n (Yield p) u = Some (Yielded p u)"
  by (simp_all add: run_slice.simps)

subsection \<open>Data\<close>

record 'u coro =
  ret :: int
  ctx :: "'u proc"
  is_finished :: bool
  switch_count :: int
  next_coro :: ptr
  prev_coro :: ptr

text \<open>Who \<open>coro_this_ptr\<close> points to.\<close>

datatype who = Nobody | Sched | Coro addr

text \<open>
  The globals: the list, the running coroutine, the fields of \<open>coro_sched\<close> that are used,
  the store of coroutines, and the state the coroutines share.
\<close>

record 'u sched =
  coros :: "addr \<rightharpoonup> 'u coro"
  fresh_coro :: addr
  coro_list :: ptr
  coro_this_ptr :: who
  is_sched_waiting :: bool
  sched_switch_count :: int
  user :: 'u

definition coro_start :: "'u \<Rightarrow> 'u sched" where
  "coro_start u = \<lparr>coros = Map.empty, fresh_coro = 0, coro_list = None, coro_this_ptr = Nobody,
     is_sched_waiting = False, sched_switch_count = 0, user = u\<rparr>"

definition upd_coro :: "addr \<Rightarrow> ('u coro \<Rightarrow> 'u coro) \<Rightarrow> 'u sched \<Rightarrow> 'u sched option" where
  "upd_coro c g s = do { co \<leftarrow> coros s c; Some (s\<lparr>coros := (coros s)(c \<mapsto> g co)\<rparr>) }"

abbreviation set_next_coro :: "ptr \<Rightarrow> 'u coro \<Rightarrow> 'u coro" where
  "set_next_coro p c \<equiv> c\<lparr>next_coro := p\<rparr>"

abbreviation set_prev_coro :: "ptr \<Rightarrow> 'u coro \<Rightarrow> 'u coro" where
  "set_prev_coro p c \<equiv> c\<lparr>prev_coro := p\<rparr>"

interpretation cl: dlinks next_coro set_next_coro prev_coro set_prev_coro
  by unfold_locales simp_all

subsection \<open>The list\<close>

definition coro_list_add :: "addr \<Rightarrow> 'u sched \<Rightarrow> 'u sched option" where
  "coro_list_add c s = do {
     s \<leftarrow> upd_coro c (\<lambda>co. co\<lparr>next_coro := coro_list s\<rparr>) s;
     s \<leftarrow> upd_coro c (\<lambda>co. co\<lparr>prev_coro := None\<rparr>) s;
     s \<leftarrow> (case coro_list s of None \<Rightarrow> Some s
           | Some h \<Rightarrow> upd_coro h (\<lambda>co. co\<lparr>prev_coro := Some c\<rparr>) s);
     Some (s\<lparr>coro_list := Some c\<rparr>) }"

definition coro_list_delete :: "addr \<Rightarrow> 'u sched \<Rightarrow> 'u sched option" where
  "coro_list_delete c s = do {
     co \<leftarrow> coros s c;
     let prev = prev_coro co;
     let nxt = next_coro co;
     s \<leftarrow> (case prev of None \<Rightarrow> Some s
           | Some p \<Rightarrow> upd_coro p (\<lambda>d. d\<lparr>next_coro := nxt\<rparr>) s);
     s \<leftarrow> (case nxt of None \<Rightarrow> Some s
           | Some n \<Rightarrow> upd_coro n (\<lambda>d. d\<lparr>prev_coro := prev\<rparr>) s);
     Some (if prev = None then s\<lparr>coro_list := nxt\<rparr> else s) }"

subsection \<open>Reading, creating and freeing\<close>

definition coro_status :: "addr \<Rightarrow> 'u sched \<Rightarrow> int option" where
  "coro_status c s = map_option ret (coros s c)"

definition coro_switch_count :: "addr \<Rightarrow> 'u sched \<Rightarrow> int option" where
  "coro_switch_count c s = map_option switch_count (coros s c)"

definition coro_is_finished :: "addr \<Rightarrow> 'u sched \<Rightarrow> bool option" where
  "coro_is_finished c s = map_option is_finished (coros s c)"

definition coro_this :: "'u sched \<Rightarrow> who" where
  "coro_this s = coro_this_ptr s"

definition coro_delete :: "addr \<Rightarrow> 'u sched \<Rightarrow> 'u sched option" where
  "coro_delete c s = do { _ \<leftarrow> coros s c; Some (s\<lparr>coros := (coros s)(c := None)\<rparr>) }"

definition coro_sched_init :: "'u sched \<Rightarrow> 'u sched" where
  "coro_sched_init s = s\<lparr>sched_switch_count := 0, coro_this_ptr := Sched\<rparr>"

definition coro_new :: "'u proc \<Rightarrow> 'u sched \<Rightarrow> (addr \<times> 'u sched) option" where
  "coro_new func s = do {
     let c = fresh_coro s;
     let s = s\<lparr>coros := (coros s)(c \<mapsto> \<lparr>ret = 0, ctx = func, is_finished = False, switch_count = 0,
                 next_coro = None, prev_coro = None\<rparr>), fresh_coro := Suc c\<rparr>;
     s \<leftarrow> coro_list_add c s;
     Some (c, s) }"

subsection \<open>Switching\<close>

text \<open>
  The part of \<open>coro_yield\<close> and \<open>coro_yield_to\<close> before the jump, for a coroutine \<open>c\<close> that
  still has \<open>p\<close> to do: its count, its context, and where the jump goes. \<open>None\<close> stands
  for \<open>coro_sched\<close>, whose context is valid only while the scheduler waits.
\<close>

definition coro_yield :: "addr \<Rightarrow> 'u proc \<Rightarrow> 'u sched \<Rightarrow> (ptr \<times> 'u sched) option" where
  "coro_yield c p s = do {
     co \<leftarrow> coros s c;
     let to = next_coro co;
     s \<leftarrow> upd_coro c (\<lambda>co. co\<lparr>switch_count := switch_count co + 1\<rparr>) s;
     s \<leftarrow> upd_coro c (\<lambda>co. co\<lparr>ctx := p\<rparr>) s;
     if to = None \<and> \<not> is_sched_waiting s then None else Some (to, s) }"

text \<open>
  From a jump to the context of coroutine \<open>c\<close> until control is back in the scheduler. The
  end of \<open>coro_body\<close> exits the program when the scheduler does not wait. \<open>Inl\<close> is the
  status of a call of \<open>exit\<close>.
\<close>

partial_function (option) coro_body :: "addr \<Rightarrow> 'u sched \<Rightarrow> (int + 'u sched) option" where
  [code]: "coro_body c s = do {
     co \<leftarrow> coros s c;
     let s = s\<lparr>coro_this_ptr := Coro c\<rparr>;
     r \<leftarrow> run_slice (switch_count co) (ctx co) (user s);
     (case r of
        Exited n \<Rightarrow> Some (Inl n)
      | Returned r u \<Rightarrow> do {
          s \<leftarrow> upd_coro c (\<lambda>co. co\<lparr>ret := r\<rparr>) (s\<lparr>user := u\<rparr>);
          s \<leftarrow> upd_coro c (\<lambda>co. co\<lparr>is_finished := True\<rparr>) s;
          if \<not> is_sched_waiting s then Some (Inl (-1)) else Some (Inr s) }
      | Yielded p u \<Rightarrow> do {
          (to, s) \<leftarrow> coro_yield c p (s\<lparr>user := u\<rparr>);
          (case to of None \<Rightarrow> Some (Inr s) | Some d \<Rightarrow> coro_body d s) }) }"

partial_function (option) find_finished :: "ptr \<Rightarrow> 'u sched \<Rightarrow> ptr option" where
  [code]: "find_finished c s =
     (case c of None \<Rightarrow> Some None
      | Some a \<Rightarrow> do {
          co \<leftarrow> coros s a;
          if is_finished co then Some (Some a) else find_finished (next_coro co) s })"

text \<open>
  The part of \<open>coro_yield_to\<close> that counts the switch when the scheduler calls it: it follows
  \<open>coro_this_ptr\<close>, which is NULL before \<open>coro_sched_init\<close>. A call by a coroutine is not modelled.
\<close>

definition count_sched_switch :: "'u sched \<Rightarrow> 'u sched option" where
  "count_sched_switch s = (case coro_this_ptr s of
       Sched \<Rightarrow> Some (s\<lparr>sched_switch_count := sched_switch_count s + 1\<rparr>)
     | _ \<Rightarrow> None)"

partial_function (option) coro_sched_wait :: "'u sched \<Rightarrow> (int + ptr \<times> 'u sched) option" where
  [code]: "coro_sched_wait s =
     (case coro_list s of None \<Rightarrow> Some (Inr (None, s))
      | Some h \<Rightarrow> do {
          found \<leftarrow> find_finished (Some h) s;
          (case found of
             Some c \<Rightarrow> do { s \<leftarrow> coro_list_delete c s; Some (Inr (Some c, s)) }
           | None \<Rightarrow> do {
               let s = s\<lparr>is_sched_waiting := True\<rparr>;
               s \<leftarrow> count_sched_switch s;
               r \<leftarrow> coro_body h s;
               (case r of
                  Inl n \<Rightarrow> Some (Inl n)
                | Inr s \<Rightarrow> do {
                    let s = s\<lparr>coro_this_ptr := Sched\<rparr>;
                    coro_sched_wait (s\<lparr>is_sched_waiting := False\<rparr>) }) }) })"

end
