(* ===== verification/SortText.thy ===== *)
theory SortText
  imports Prelude
begin

section \<open>The external sort: numbers as text\<close>

text \<open>
  The input files of \<open>homework-01/solution.c\<close> are read with \<open>fscanf(file, "%d", ...)\<close> and
  \<open>feof\<close>, the output is written with \<open>fprintf(file, "%d", ...)\<close>; the command line is
  read with \<open>strtol\<close>. This theory models what the program uses of these functions, on
  strings, and the two loops over an input file.
\<close>

subsection \<open>Digits\<close>

definition is_space :: "char \<Rightarrow> bool" where
  "is_space c \<longleftrightarrow> (of_char c :: nat) \<in> {9, 10, 11, 12, 13, 32}"

definition is_digit :: "char \<Rightarrow> bool" where
  "is_digit c \<longleftrightarrow> 48 \<le> (of_char c :: nat) \<and> (of_char c :: nat) \<le> 57"

definition digit :: "nat \<Rightarrow> char" where
  "digit d = char_of (48 + d)"

definition digits_value :: "string \<Rightarrow> nat" where
  "digits_value ds = foldl (\<lambda>v c. 10 * v + (of_char c - 48)) 0 ds"

fun show_nat :: "nat \<Rightarrow> string" where
  "show_nat n = (if n < 10 then [digit n] else show_nat (n div 10) @ [digit (n mod 10)])"

declare show_nat.simps [simp del]

definition show_int :: "int \<Rightarrow> string" where
  "show_int i = (if i < 0 then CHR ''-'' # show_nat (nat (- i)) else show_nat (nat i))"

lemma of_char_digit [simp]: "d < 10 \<Longrightarrow> (of_char (digit d) :: nat) = 48 + d"
  by (simp add: digit_def)

lemma is_digit_digit [simp]: "d < 10 \<Longrightarrow> is_digit (digit d)"
  by (simp add: is_digit_def)

lemma digit_not_space: "is_digit c \<Longrightarrow> \<not> is_space c"
  by (auto simp: is_digit_def is_space_def)

lemma digits_value_snoc: "digits_value (ds @ [c]) = 10 * digits_value ds + (of_char c - 48)"
  by (simp add: digits_value_def)

lemma show_nat_correct: "digits_value (show_nat n) = n \<and> list_all is_digit (show_nat n) \<and> show_nat n \<noteq> []"
proof (induction n rule: show_nat.induct)
  case (1 n)
  then show ?case
    by (simp add: show_nat.simps [of n] digits_value_snoc) (simp add: digits_value_def)
qed

lemma length_show_nat: "0 < k \<Longrightarrow> n < 10 ^ k \<Longrightarrow> length (show_nat n) \<le> k"
proof (induction k arbitrary: n)
  case (Suc k)
  show ?case
  proof (cases "n < 10")
    case False
    with Suc.prems have "0 < k" by (cases k) simp_all
    moreover have "n div 10 < 10 ^ k" using Suc.prems(2) by (simp add: less_mult_imp_div_less mult.commute)
    ultimately have "length (show_nat (n div 10)) \<le> k" by (rule Suc.IH)
    with False show ?thesis by (simp add: show_nat.simps [of n])
  qed (simp add: show_nat.simps [of n])
qed simp

subsection \<open>\<open>strtol\<close> with base 10\<close>

definition long_max :: int where "long_max = 2 ^ 63 - 1"

definition long_min :: int where "long_min = - (2 ^ 63)"

text \<open>The optional sign, and what is left.\<close>

definition read_sign :: "string \<Rightarrow> bool \<times> string" where
  "read_sign s = (case s of [] \<Rightarrow> (False, [])
     | c # cs \<Rightarrow> if c = CHR ''-'' then (True, cs) else if c = CHR ''+'' then (False, cs) else (False, s))"

definition signed_value :: "bool \<Rightarrow> string \<Rightarrow> int" where
  "signed_value neg ds = (if neg then - int (digits_value ds) else int (digits_value ds))"

definition strtol :: "string \<Rightarrow> int" where
  "strtol s = (let (neg, s) = read_sign (dropWhile is_space s)
     in max long_min (min long_max (signed_value neg (takeWhile is_digit s))))"

subsection \<open>\<open>fscanf\<close> of one number\<close>

text \<open>
  The rest of the input goes in; what was assigned (nothing at the end of the input or
  when the text is no number), the rest that is left, and whether the end of the file was
  hit come out. A number that \<open>int\<close> cannot hold is undefined.
\<close>

definition scan_int :: "string \<Rightarrow> (int option \<times> string \<times> bool) option" where
  "scan_int s =
     (let s1 = dropWhile is_space s in
      if s1 = [] then Some (None, [], True)
      else
        let (neg, s2) = read_sign s1; ds = takeWhile is_digit s2; rest = dropWhile is_digit s2 in
        if ds = [] then Some (None, s2, s2 = [])
        else if in_int (signed_value neg ds) then Some (Some (signed_value neg ds), rest, rest = [])
        else None)"

text \<open>
  The loop that counts the numbers: it tests \<open>feof\<close> before each \<open>fscanf\<close> and counts the
  calls. On text that is no number \<open>fscanf\<close> consumes nothing and the loop runs forever.
\<close>

partial_function (option) count_numbers :: "string \<Rightarrow> bool \<Rightarrow> nat \<Rightarrow> nat option" where
  [code]: "count_numbers s eof n =
     (if eof then Some n
      else do { (v, rest, eof) \<leftarrow> scan_int s; count_numbers rest eof (Suc n) })"

text \<open>The loop that reads them: an element that is not assigned stays indeterminate.\<close>

primrec read_numbers :: "nat \<Rightarrow> string \<Rightarrow> int option list option" where
  "read_numbers 0 s = Some []"
| "read_numbers (Suc n) s = do {
     (v, rest, eof) \<leftarrow> scan_int s;
     xs \<leftarrow> read_numbers n rest;
     Some (v # xs) }"

subsection \<open>Reading what was written\<close>

text \<open>Numbers with one space between two of them.\<close>

fun show_numbers :: "int list \<Rightarrow> string" where
  "show_numbers [] = []"
| "show_numbers [x] = show_int x"
| "show_numbers (x # xs) = show_int x @ CHR '' '' # show_numbers xs"

definition no_digit :: "string \<Rightarrow> bool" where
  "no_digit t = (case t of [] \<Rightarrow> True | c # _ \<Rightarrow> \<not> is_digit c)"

lemma no_digit_simps [simp]: "no_digit []" "no_digit (c # cs) = (\<not> is_digit c)"
  by (simp_all add: no_digit_def)

lemma take_digits: "list_all is_digit ds \<Longrightarrow> no_digit t \<Longrightarrow> takeWhile is_digit (ds @ t) = ds"
  by (induction ds) (cases t, simp_all)

lemma drop_digits: "list_all is_digit ds \<Longrightarrow> no_digit t \<Longrightarrow> dropWhile is_digit (ds @ t) = t"
  by (induction ds) (cases t, simp_all)

lemma show_nat_first:
  obtains c cs where "show_nat n = c # cs" "is_digit c" "\<not> is_space c" "c \<noteq> CHR ''-''" "c \<noteq> CHR ''+''"
proof -
  obtain c cs where c: "show_nat n = c # cs" using show_nat_correct [of n] by (cases "show_nat n") auto
  then have d: "is_digit c" using show_nat_correct [of n] by simp
  moreover have "\<not> is_digit CHR ''-''" "\<not> is_digit CHR ''+''" by (simp_all add: is_digit_def)
  ultimately show thesis using that [OF c] digit_not_space [of c] by metis
qed

text \<open>A number that was written is skipped to, and read with its sign.\<close>

lemma show_int_split:
  obtains neg ds where "dropWhile is_space (show_int x @ t) = show_int x @ t" "show_int x \<noteq> []"
    "read_sign (show_int x @ t) = (neg, ds @ t)" "list_all is_digit ds" "ds \<noteq> []" "signed_value neg ds = x"
proof (cases "x < 0")
  case True
  let ?ds = "show_nat (nat (- x))"
  have "\<not> is_space CHR ''-''" by (simp add: is_space_def)
  then show thesis
    using that [of True ?ds] show_nat_correct [of "nat (- x)"] True
    by (simp add: show_int_def read_sign_def signed_value_def)
next
  case False
  obtain c cs where c: "show_nat (nat x) = c # cs" "\<not> is_space c" "c \<noteq> CHR ''-''" "c \<noteq> CHR ''+''"
    by (rule show_nat_first)
  then show thesis
    using that [of False "c # cs"] show_nat_correct [of "nat x"] False
    by (simp add: show_int_def read_sign_def signed_value_def)
qed

lemma scan_show:
  assumes "in_int x" and "no_digit t"
  shows "scan_int (show_int x @ t) = Some (Some x, t, t = [])"
proof -
  obtain neg ds where "dropWhile is_space (show_int x @ t) = show_int x @ t" "show_int x \<noteq> []"
    "read_sign (show_int x @ t) = (neg, ds @ t)" "list_all is_digit ds" "ds \<noteq> []" "signed_value neg ds = x"
    by (rule show_int_split)
  with assms show ?thesis by (simp add: scan_int_def take_digits drop_digits)
qed

lemma scan_space: "is_space c \<Longrightarrow> scan_int (c # s) = scan_int s"
  by (simp add: scan_int_def)

lemma strtol_show: "long_min \<le> x \<Longrightarrow> x \<le> long_max \<Longrightarrow> strtol (show_int x) = x"
proof -
  assume x: "long_min \<le> x" "x \<le> long_max"
  obtain neg ds where "dropWhile is_space (show_int x @ []) = show_int x @ []" "show_int x \<noteq> []"
    "read_sign (show_int x @ []) = (neg, ds @ [])" "list_all is_digit ds" "ds \<noteq> []" "signed_value neg ds = x"
    by (rule show_int_split)
  moreover have "takeWhile is_digit (ds @ []) = ds" using calculation(4) by (rule take_digits) simp
  ultimately show ?thesis using x by (simp add: strtol_def takeWhile_eq_all_conv [THEN iffD2])
qed

text \<open>
  A file of numbers that ends with its last digit is read completely; a blank at the end
  makes the counting loop count one call too many, for which nothing is assigned.
\<close>

definition spaced :: "string \<Rightarrow> bool" where
  "spaced t \<longleftrightarrow> t = [CHR '' ''] \<or> t = [CHR 0x0A]"

lemma blank: "is_space CHR '' ''" "\<not> is_digit CHR '' ''" "is_space CHR 0x0A" "\<not> is_digit CHR 0x0A"
  by (simp_all add: is_space_def is_digit_def)

lemma spaced_space: "spaced t \<Longrightarrow> \<exists>c. t = [c] \<and> is_space c \<and> \<not> is_digit c"
  unfolding spaced_def using blank by blast

lemma show_numbers_Cons: "xs \<noteq> [] \<Longrightarrow> show_numbers (x # xs) = show_int x @ CHR '' '' # show_numbers xs"
  by (cases xs) simp_all

lemma count_blank: "is_space c \<Longrightarrow> count_numbers (c # s) False n = count_numbers s False n"
  by (simp add: count_numbers.simps [of "c # s" False] count_numbers.simps [of s False] scan_space)

lemma read_blank: "is_space c \<Longrightarrow> read_numbers n (c # s) = (if n = 0 then Some [] else read_numbers n s)"
  by (cases n) (simp_all add: scan_space)

lemma count_show:
  "xs \<noteq> [] \<Longrightarrow> \<forall>x \<in> set xs. in_int x \<Longrightarrow> no_digit t \<Longrightarrow>
   count_numbers (show_numbers xs @ t) False n = count_numbers t (t = []) (n + length xs)"
proof (induction xs arbitrary: n)
  case (Cons x xs)
  show ?case
  proof (cases "xs = []")
    case True
    with Cons.prems show ?thesis
      by (simp add: count_numbers.simps [of "show_int x @ t"] scan_show)
  next
    case False
    let ?rest = "CHR '' '' # show_numbers xs @ t"
    have "count_numbers (show_numbers (x # xs) @ t) False n = count_numbers ?rest False (Suc n)"
      using Cons.prems False blank
      by (simp add: show_numbers_Cons count_numbers.simps [of "show_int x @ ?rest"] scan_show)
    also have "\<dots> = count_numbers t (t = []) (n + length (x # xs))"
      using Cons False by (simp add: count_blank blank)
    finally show ?thesis .
  qed
qed simp

lemma read_show:
  "\<forall>x \<in> set xs. in_int x \<Longrightarrow> no_digit t \<Longrightarrow>
   read_numbers (length xs + k) (show_numbers xs @ t) =
     map_option ((@) (map Some xs)) (read_numbers k t)"
proof (induction xs)
  case Nil
  then show ?case by (simp add: map_option_case split: option.split)
next
  case (Cons x xs)
  show ?case
  proof (cases "xs = []")
    case True
    with Cons.prems show ?thesis by (cases "read_numbers k t") (simp_all add: scan_show)
  next
    case False
    let ?rest = "CHR '' '' # show_numbers xs @ t"
    have "read_numbers (length xs + k) ?rest = read_numbers (length xs + k) (show_numbers xs @ t)"
      using False by (simp add: read_blank blank)
    with Cons False blank show ?thesis
      by (cases "read_numbers k t") (simp_all add: show_numbers_Cons scan_show)
  qed
qed

text \<open>The whole file.\<close>

theorem file_of_numbers:
  assumes "xs \<noteq> []" and "\<forall>x \<in> set xs. in_int x"
  shows "count_numbers (show_numbers xs) False 0 = Some (length xs)"
    and "read_numbers (length xs) (show_numbers xs) = Some (map Some xs)"
  using count_show [OF assms, of "[]" 0] read_show [OF assms(2), of "[]" 0]
  by (simp_all add: count_numbers.simps [of "[]"])

theorem file_with_final_blank:
  assumes "xs \<noteq> []" and "\<forall>x \<in> set xs. in_int x" and "spaced t"
  shows "count_numbers (show_numbers xs @ t) False 0 = Some (Suc (length xs))"
    and "read_numbers (Suc (length xs)) (show_numbers xs @ t) = Some (map Some xs @ [None])"
proof -
  from spaced_space [OF assms(3)] obtain c where c: "t = [c]" "is_space c" "\<not> is_digit c" by blast
  then have scan: "scan_int t = Some (None, [], True)" by (simp add: scan_int_def)
  show "count_numbers (show_numbers xs @ t) False 0 = Some (Suc (length xs))"
    using count_show [OF assms(1,2), of t 0] c scan
    by (simp add: count_numbers.simps [of "[c]"] count_numbers.simps [of "[]"])
  show "read_numbers (Suc (length xs)) (show_numbers xs @ t) = Some (map Some xs @ [None])"
    using read_show [OF assms(2), of t 1] c scan by simp
qed

lemma empty_file: "count_numbers [] False 0 = Some 1"
  by (simp add: count_numbers.simps [of "[]"] scan_int_def)

end
