(* ===== verification/SortMerge.thy ===== *)
theory SortMerge
  imports SortText "HOL-Library.Multiset"
begin

section \<open>The external sort: merging the sorted arrays\<close>

text \<open>
  The end of \<open>main\<close> in \<open>homework-01/solution.c\<close>: the loop that merges the sorted arrays
  into the output file. The arrays and their sizes are malloc'd memory: an element that
  has not been stored is \<open>None\<close>, and reading it is undefined.
\<close>

type_synonym arrays = "int option list option list"
type_synonym sizes = "nat option list"

definition at :: "'a list \<Rightarrow> nat \<Rightarrow> 'a option" where
  "at xs i = (if i < length xs then Some (xs ! i) else None)"

lemma at_Some [simp]: "i < length xs \<Longrightarrow> at xs i = Some (xs ! i)"
  by (simp add: at_def)

text \<open>\<open>sorted_arrays[i][k]\<close> and \<open>sorted_arrays_sizes[i]\<close>.\<close>

definition array_elem :: "arrays \<Rightarrow> nat \<Rightarrow> nat \<Rightarrow> int option" where
  "array_elem arrs i k = do { a \<leftarrow> at arrs i; cells \<leftarrow> a; c \<leftarrow> at cells k; c }"

definition array_size :: "sizes \<Rightarrow> nat \<Rightarrow> nat option" where
  "array_size szs i = do { z \<leftarrow> at szs i; z }"

text \<open>One step of the scan for the least next value: \<open>min_value\<close> and \<open>min_value_idx\<close>.\<close>

definition min_step :: "arrays \<Rightarrow> sizes \<Rightarrow> nat list \<Rightarrow> nat \<Rightarrow> int \<times> int \<Rightarrow> (int \<times> int) option" where
  "min_step arrs szs cur i m = do {
     k \<leftarrow> at cur i;
     z \<leftarrow> array_size szs i;
     if k < z then do {
       v \<leftarrow> array_elem arrs i k;
       Some (if v < fst m then (v, int i) else m) }
     else Some m }"

definition min_value :: "arrays \<Rightarrow> sizes \<Rightarrow> nat \<Rightarrow> nat list \<Rightarrow> (int \<times> int) option" where
  "min_value arrs szs n cur = for_each [0..<n] (min_step arrs szs cur) (int_max, -1)"

text \<open>The loop; \<open>out\<close> is what has been written to the output file.\<close>

partial_function (option) merge_loop ::
  "arrays \<Rightarrow> sizes \<Rightarrow> nat \<Rightarrow> nat list \<Rightarrow> bool \<Rightarrow> string \<Rightarrow> string option" where
  [code]: "merge_loop arrs szs n cur first out = do {
     let out = (if first then out else out @ '' '');
     (v, i) \<leftarrow> min_value arrs szs n cur;
     if i = -1 then Some out
     else merge_loop arrs szs n (cur[nat i := Suc (cur ! nat i)]) False (out @ show_int v) }"

definition merge_arrays :: "arrays \<Rightarrow> sizes \<Rightarrow> nat \<Rightarrow> string option" where
  "merge_arrays arrs szs n = merge_loop arrs szs n (replicate n 0) True []"

subsection \<open>The least next value\<close>

definition holds_arrays :: "arrays \<Rightarrow> sizes \<Rightarrow> int list list \<Rightarrow> bool" where
  "holds_arrays arrs szs xss \<longleftrightarrow> arrs = map (\<lambda>xs. Some (map Some xs)) xss \<and> szs = map (\<lambda>xs. Some (length xs)) xss"

abbreviation left :: "int list list \<Rightarrow> nat list \<Rightarrow> nat \<Rightarrow> int list" where
  "left xss cur i \<equiv> drop (cur ! i) (xss ! i)"

text \<open>What the scan knows after the first \<open>k\<close> arrays.\<close>

definition least :: "int list list \<Rightarrow> nat list \<Rightarrow> nat \<Rightarrow> int \<times> int \<Rightarrow> bool" where
  "least xss cur k m \<longleftrightarrow>
     (\<forall>i < k. left xss cur i \<noteq> [] \<longrightarrow> fst m \<le> hd (left xss cur i)) \<and>
     (m = (int_max, -1) \<or> (\<exists>i < k. snd m = int i \<and> left xss cur i \<noteq> [] \<and>
        fst m = hd (left xss cur i) \<and> fst m < int_max))"

lemma min_step_least:
  assumes "holds_arrays arrs szs xss" and "k < length xss" "length cur = length xss" and "least xss cur k m"
  shows "\<exists>m'. min_step arrs szs cur k m = Some m' \<and> least xss cur (Suc k) m'"
proof -
  have size: "array_size szs k = Some (length (xss ! k))"
    using assms by (simp add: holds_arrays_def array_size_def)
  show ?thesis
  proof (cases "cur ! k < length (xss ! k)")
    case False
    then have "left xss cur k = []" by simp
    with assms(4) have "least xss cur (Suc k) m" by (auto simp: least_def less_Suc_eq)
    with False size assms show ?thesis by (simp add: min_step_def)
  next
    case True
    let ?v = "xss ! k ! (cur ! k)"
    have v: "array_elem arrs k (cur ! k) = Some ?v"
      using True assms by (simp add: holds_arrays_def array_elem_def)
    have hd: "left xss cur k \<noteq> []" "hd (left xss cur k) = ?v" using True by (simp_all add: hd_drop_conv_nth)
    have max: "fst m \<le> int_max" using assms(4) by (auto simp: least_def)
    have "least xss cur (Suc k) (if ?v < fst m then (?v, int k) else m)"
    proof (cases "?v < fst m")
      case True
      have "?v \<le> hd (left xss cur i)" if "i < Suc k" "left xss cur i \<noteq> []" for i
      proof (cases "i = k")
        case False
        with that assms(4) have "fst m \<le> hd (left xss cur i)" by (simp add: least_def)
        with True show ?thesis by simp
      qed (simp add: hd)
      moreover have "\<exists>i < Suc k. int k = int i \<and> left xss cur i \<noteq> [] \<and> ?v = hd (left xss cur i) \<and> ?v < int_max"
        using hd True max by (intro exI [of _ k]) simp
      ultimately show ?thesis using True unfolding least_def by simp
    next
      case False
      with assms(4) hd show ?thesis unfolding least_def by (auto simp: less_Suc_eq)
    qed
    with True size v assms show ?thesis by (simp add: min_step_def)
  qed
qed

lemma min_value_least:
  assumes "holds_arrays arrs szs xss" and "length cur = length xss"
  shows "\<exists>m. min_value arrs szs (length xss) cur = Some m \<and> least xss cur (length xss) m"
proof -
  have "\<exists>m. for_each [0..<k] (min_step arrs szs cur) (int_max, -1) = Some m \<and> least xss cur k m"
    if "k \<le> length xss" for k
    using that
  proof (induction k)
    case (Suc k)
    then obtain m where m: "for_each [0..<k] (min_step arrs szs cur) (int_max, -1) = Some m" "least xss cur k m"
      by auto
    from min_step_least [OF assms(1) _ assms(2) m(2)] Suc.prems m(1) show ?case
      by (auto simp: for_each_append)
  qed (simp add: least_def)
  then show ?thesis by (simp add: min_value_def)
qed

subsection \<open>The output\<close>

definition unmerged :: "int list list \<Rightarrow> nat list \<Rightarrow> int multiset" where
  "unmerged xss cur = (\<Sum>i < length xss. mset (left xss cur i))"

lemma unmerged_start: "unmerged xss (replicate (length xss) 0) = mset (concat xss)"
  by (simp add: unmerged_def mset_concat sum_list_sum_nth atLeast0LessThan)

lemma unmerged_take:
  assumes "i < length xss" "length cur = length xss" "left xss cur i \<noteq> []"
  shows "unmerged xss cur = add_mset (hd (left xss cur i)) (unmerged xss (cur[i := Suc (cur ! i)]))"
proof -
  let ?c = "cur[i := Suc (cur ! i)]"
  have split: "unmerged xss c = mset (left xss c i) + (\<Sum>j \<in> {..<length xss} - {i}. mset (left xss c j))" for c
    unfolding unmerged_def using assms(1) by (intro sum.remove) simp_all
  have "left xss cur i = hd (left xss cur i) # left xss ?c i"
    using assms by (simp add: hd_drop_conv_nth Cons_nth_drop_Suc)
  then have "mset (left xss cur i) = add_mset (hd (left xss cur i)) (mset (left xss ?c i))"
    by (metis mset.simps(2))
  moreover have "(\<Sum>j \<in> {..<length xss} - {i}. mset (left xss cur j)) = (\<Sum>j \<in> {..<length xss} - {i}. mset (left xss ?c j))"
    by (intro sum.cong) auto
  ultimately show ?thesis unfolding split [of cur] split [of ?c] by simp
qed

lemma in_unmerged: "x \<in># unmerged xss cur \<Longrightarrow> \<exists>i < length xss. x \<in> set (left xss cur i)"
  unfolding unmerged_def by (subst (asm) set_mset_sum) auto

lemma sorted_hd_le: "sorted xs \<Longrightarrow> x \<in> set (drop k xs) \<Longrightarrow> hd (drop k xs) \<le> x"
  using sorted_wrt_drop [of "(\<le>)" xs k] by (cases "drop k xs") auto

lemma least_unmerged:
  assumes "least xss cur (length xss) m" and "\<forall>xs \<in> set xss. sorted xs" and "x \<in># unmerged xss cur"
  shows "fst m \<le> x"
proof -
  from in_unmerged [OF assms(3)] obtain i where i: "i < length xss" "x \<in> set (left xss cur i)" by blast
  then have "left xss cur i \<noteq> []" by auto
  with assms(1) i have "fst m \<le> hd (left xss cur i)" by (simp add: least_def)
  also have "\<dots> \<le> x" using assms(2) i by (intro sorted_hd_le) simp_all
  finally show ?thesis .
qed

text \<open>Numbers with a blank behind each.\<close>

definition blank_after :: "int list \<Rightarrow> string" where
  "blank_after zs = concat (map (\<lambda>z. show_int z @ '' '') zs)"

abbreviation wanted :: "int multiset \<Rightarrow> int list" where
  "wanted M \<equiv> sorted_list_of_multiset (filter_mset (\<lambda>v. v < int_max) M)"

lemma wanted_least:
  assumes "\<forall>x \<in># M. v \<le> x" "v < int_max"
  shows "wanted (add_mset v M) = v # wanted M"
  using assms by (simp, subst insort_is_Cons) auto

lemma merge_loop_output:
  assumes "holds_arrays arrs szs xss" and "\<forall>xs \<in> set xss. sorted xs"
  shows "length cur = length xss \<Longrightarrow>
    merge_loop arrs szs (length xss) cur first out =
      Some (out @ (if first then [] else '' '') @ blank_after (wanted (unmerged xss cur)))"
proof (induction "size (unmerged xss cur)" arbitrary: cur first out rule: less_induct)
  case less
  let ?n = "length xss"
  let ?out = "if first then out else out @ '' ''"
  obtain v i where m: "min_value arrs szs ?n cur = Some (v, i)" "least xss cur ?n (v, i)"
    using min_value_least [OF assms(1) less.prems] by auto
  show ?case
  proof (cases "i = -1")
    case True
    with m(2) have "v = int_max" by (auto simp: least_def)
    then have "filter_mset (\<lambda>v. v < int_max) (unmerged xss cur) = {#}"
      using least_unmerged [OF m(2) assms(2)] by force
    with m(1) True show ?thesis by (simp add: merge_loop.simps [of arrs] blank_after_def)
  next
    case False
    with m(2) obtain j where j: "j < ?n" "i = int j" "left xss cur j \<noteq> []" "v = hd (left xss cur j)" "v < int_max"
      by (auto simp: least_def)
    let ?c = "cur[j := Suc (cur ! j)]"
    have un: "unmerged xss cur = add_mset v (unmerged xss ?c)"
      unfolding j(4) using j less.prems by (intro unmerged_take) simp_all
    have "\<forall>x \<in># unmerged xss ?c. v \<le> x"
      using least_unmerged [OF m(2) assms(2)] un by simp
    then have want: "wanted (unmerged xss cur) = v # wanted (unmerged xss ?c)"
      unfolding un using j(5) by (rule wanted_least)
    have "merge_loop arrs szs ?n cur first out = merge_loop arrs szs ?n ?c False (?out @ show_int v)"
      using m(1) j(2) by (simp add: merge_loop.simps [of arrs _ _ cur])
    also have "\<dots> = Some ((?out @ show_int v) @ (if False then [] else '' '') @ blank_after (wanted (unmerged xss ?c)))"
      using un less.prems by (intro less.hyps) simp_all
    finally show ?thesis unfolding want by (simp add: blank_after_def)
  qed
qed

lemma blank_after_numbers: "zs \<noteq> [] \<Longrightarrow> blank_after zs = show_numbers zs @ '' ''"
  by (induction zs rule: show_numbers.induct) (simp_all add: blank_after_def)

text \<open>What is written: the numbers below \<open>INT_MAX\<close> in order, a blank behind each.\<close>

definition merged_text :: "int list \<Rightarrow> string" where
  "merged_text xs = blank_after (sort (filter (\<lambda>v. v < int_max) xs))"

theorem merge_arrays_correct:
  assumes "holds_arrays arrs szs xss" and "\<forall>xs \<in> set xss. sorted xs"
  shows "merge_arrays arrs szs (length xss) = Some (merged_text (concat xss))"
proof -
  have "wanted (mset xs) = sort (filter (\<lambda>v. v < int_max) xs)" for xs
    by (simp flip: mset_filter)
  then show ?thesis
    using merge_loop_output [OF assms, of "replicate (length xss) 0" True "[]"]
    by (simp add: merge_arrays_def merged_text_def unmerged_start)
qed

end
