(* ===== verification/SortProgram.thy ===== *)
theory SortProgram
  imports Coro SortMerge
begin

section \<open>The external sort: the program\<close>

text \<open>
  \<open>homework-01/solution.c\<close>: coroutines pick the input files one after the other, read
  the numbers and sort them, and hand control over when their quantum of time is used up;
  \<open>main\<close> starts them, waits for all of them and merges what they sorted.

  The code of a coroutine is a \<open>proc\<close>, written with continuations: each function below
  takes what is done next as its last argument, applied to what the C function returns or
  leaves in the variables it is given pointers to. The array of the file with index \<open>f\<close> is
  named by \<open>f\<close>: it is allocated once, and \<open>sorted_arrays[f]\<close> is the only place that keeps
  its address. The time counters are unbounded: they overflow after 292000 years.
\<close>

subsection \<open>Data\<close>

text \<open>
  The world: the readings of the clock (seconds and nanoseconds), the contents of the
  files that can be opened, and whether the output file can be opened.
\<close>

record world =
  clock_gettime :: "nat \<Rightarrow> int \<times> int"
  contents :: "string \<Rightarrow> string option"
  output_opens :: bool

text \<open>
  The fields \<open>file_to_sort_idx\<close>, \<open>sorted_arrays\<close> and \<open>sorted_arrays_sizes\<close> of a context
  point to variables that all contexts share.
\<close>

record coro_context =
  name :: string
  total_work_time :: int
  total_switch_count :: int
  files_count :: nat
  filenames_to_sort :: "string list"
  coroutine_quantum :: int

record prog =
  ticks :: nat
  file_to_sort_idx :: nat
  sorted_arrays :: arrays
  sorted_arrays_sizes :: sizes
  contexts :: "coro_context option list"

type_synonym code = "prog proc"

subsection \<open>Memory and time\<close>

definition context_at :: "prog \<Rightarrow> nat \<Rightarrow> coro_context option" where
  "context_at u i = do { c \<leftarrow> at (contexts u) i; c }"

definition get_context :: "nat \<Rightarrow> (coro_context \<Rightarrow> code) \<Rightarrow> code" where
  "get_context i k = Act id (\<lambda>u. case context_at u i of None \<Rightarrow> Fail | Some con \<Rightarrow> k con)"

definition upd_context :: "nat \<Rightarrow> (coro_context \<Rightarrow> coro_context) \<Rightarrow> code \<Rightarrow> code" where
  "upd_context i g k =
     Act (\<lambda>u. u\<lparr>contexts := (contexts u)[i := map_option g (context_at u i)]\<rparr>)
       (\<lambda>u. if context_at u i = None then Fail else k)"

definition array_get :: "nat \<Rightarrow> nat \<Rightarrow> (int \<Rightarrow> code) \<Rightarrow> code" where
  "array_get f j k = Act id (\<lambda>u. case array_elem (sorted_arrays u) f j of None \<Rightarrow> Fail | Some v \<Rightarrow> k v)"

definition array_put :: "arrays \<Rightarrow> nat \<Rightarrow> nat \<Rightarrow> int \<Rightarrow> arrays option" where
  "array_put arrs f j v = do {
     a \<leftarrow> at arrs f; cells \<leftarrow> a; _ \<leftarrow> at cells j; Some (arrs[f := Some (cells[j := Some v])]) }"

definition array_set :: "nat \<Rightarrow> nat \<Rightarrow> int \<Rightarrow> code \<Rightarrow> code" where
  "array_set f j v k =
     Act (\<lambda>u. case array_put (sorted_arrays u) f j v of None \<Rightarrow> u | Some arrs \<Rightarrow> u\<lparr>sorted_arrays := arrs\<rparr>)
       (\<lambda>u. if array_put (sorted_arrays u) f j v = None then Fail else k)"

text \<open>Arithmetic on a non-negative \<open>int\<close>.\<close>

definition int_op :: "nat \<Rightarrow> (nat \<Rightarrow> code) \<Rightarrow> code" where
  "int_op n k = (if int n \<le> int_max then k n else Fail)"

definition now_of :: "world \<Rightarrow> nat \<Rightarrow> int" where
  "now_of w n = (let (tv_sec, tv_nsec) = clock_gettime w n in tv_sec * 1000000 + tv_nsec div 1000)"

definition get_now :: "world \<Rightarrow> (int \<Rightarrow> code) \<Rightarrow> code" where
  "get_now w k = Act (\<lambda>u. u\<lparr>ticks := Suc (ticks u)\<rparr>) (\<lambda>u. k (now_of w (ticks u)))"

text \<open>The timer the pointer \<open>last_work_timer_start\<close> points to goes in and comes out.\<close>

definition yield_if_necessary_record_work_time ::
  "world \<Rightarrow> nat \<Rightarrow> int \<Rightarrow> int \<Rightarrow> (int \<Rightarrow> code) \<Rightarrow> code" where
  "yield_if_necessary_record_work_time w i start quantum k =
     get_now w (\<lambda>t. let work_time = t - start in
       if work_time > quantum then
         upd_context i (\<lambda>ctx. ctx\<lparr>total_work_time := total_work_time ctx + work_time\<rparr>)
           (Yield (get_now w k))
       else k start)"

subsection \<open>Heap sort\<close>

text \<open>The choice of \<open>largest\<close> in both loops; \<open>n\<close> is the bound of the heap.\<close>

definition larger_of :: "nat \<Rightarrow> nat \<Rightarrow> nat \<Rightarrow> (nat \<Rightarrow> code) \<Rightarrow> code" where
  "larger_of f n j k =
     int_op (2 * j + 1) (\<lambda>left. int_op (2 * j + 2) (\<lambda>right.
       let second = (\<lambda>largest.
         if right < n
         then array_get f right (\<lambda>x. array_get f largest (\<lambda>y. k (if x > y then right else largest)))
         else k largest)
       in if left < n
          then array_get f left (\<lambda>x. array_get f j (\<lambda>y. second (if x > y then left else j)))
          else second j))"

definition swap_elems :: "nat \<Rightarrow> nat \<Rightarrow> nat \<Rightarrow> code \<Rightarrow> code" where
  "swap_elems f i j k =
     array_get f i (\<lambda>tmp. array_get f j (\<lambda>x. array_set f i x (array_set f j tmp k)))"

text \<open>
  The inner loop. Each round moves \<open>j\<close> to a larger index, so that \<open>fuel\<close> rounds are enough
  when \<open>fuel\<close> exceeds the bound of the heap.
\<close>

primrec sift_loop :: "nat \<Rightarrow> world \<Rightarrow> nat \<Rightarrow> int \<Rightarrow> nat \<Rightarrow> nat \<Rightarrow> nat \<Rightarrow> int \<Rightarrow> (int \<Rightarrow> code) \<Rightarrow> code" where
  "sift_loop 0 w i quantum f n j start k = Fail"
| "sift_loop (Suc fuel) w i quantum f n j start k =
     larger_of f n j (\<lambda>largest.
       if largest = j then k start
       else swap_elems f j largest
         (yield_if_necessary_record_work_time w i start quantum
           (\<lambda>start. sift_loop fuel w i quantum f n largest start k)))"

text \<open>\<open>build_loop m\<close> is the first loop from \<open>i = m - 1\<close> down, \<open>out_loop m\<close> the second from \<open>i = m\<close> down.\<close>

primrec build_loop :: "nat \<Rightarrow> world \<Rightarrow> nat \<Rightarrow> int \<Rightarrow> nat \<Rightarrow> nat \<Rightarrow> int \<Rightarrow> (int \<Rightarrow> code) \<Rightarrow> code" where
  "build_loop 0 w i quantum f len start k = k start"
| "build_loop (Suc m) w i quantum f len start k =
     sift_loop (Suc len) w i quantum f len m start (\<lambda>start. build_loop m w i quantum f len start k)"

primrec out_loop :: "nat \<Rightarrow> world \<Rightarrow> nat \<Rightarrow> int \<Rightarrow> nat \<Rightarrow> int \<Rightarrow> (int \<Rightarrow> code) \<Rightarrow> code" where
  "out_loop 0 w i quantum f start k = k start"
| "out_loop (Suc m) w i quantum f start k =
     swap_elems f 0 (Suc m)
       (sift_loop (Suc (Suc m)) w i quantum f (Suc m) 0 start (\<lambda>start. out_loop m w i quantum f start k))"

definition heap_sort :: "world \<Rightarrow> nat \<Rightarrow> int \<Rightarrow> nat \<Rightarrow> nat \<Rightarrow> int \<Rightarrow> (int \<Rightarrow> code) \<Rightarrow> code" where
  "heap_sort w i quantum f len start k =
     build_loop (len div 2) w i quantum f len start (\<lambda>start.
       out_loop (len - 1) w i quantum f start k)"

subsection \<open>A coroutine\<close>

text \<open>\<open>malloc\<close> of the array, the stores to \<open>sorted_arrays\<close> and \<open>sorted_arrays_sizes\<close>, and reading.\<close>

definition new_array :: "nat \<Rightarrow> nat \<Rightarrow> code \<Rightarrow> code" where
  "new_array f n k =
     Act (\<lambda>u. u\<lparr>sorted_arrays := (sorted_arrays u)[f := Some (replicate n None)],
           sorted_arrays_sizes := (sorted_arrays_sizes u)[f := Some n]\<rparr>)
       (\<lambda>u. if f < length (sorted_arrays u) \<and> f < length (sorted_arrays_sizes u) then k else Fail)"

definition fill_array :: "nat \<Rightarrow> int option list \<Rightarrow> code \<Rightarrow> code" where
  "fill_array f cells k =
     Act (\<lambda>u. u\<lparr>sorted_arrays := (sorted_arrays u)[f := Some cells]\<rparr>)
       (\<lambda>u. case at (sorted_arrays u) f of Some (Some a) \<Rightarrow> if length a = length cells then k else Fail
          | _ \<Rightarrow> Fail)"

definition sort_file :: "world \<Rightarrow> nat \<Rightarrow> nat \<Rightarrow> string \<Rightarrow> int \<Rightarrow> (int \<Rightarrow> code) \<Rightarrow> code" where
  "sort_file w i f filename start k =
     (case contents w filename of None \<Rightarrow> Exit (-1)
      | Some text \<Rightarrow>
        (case count_numbers text False 0 of None \<Rightarrow> Fail
         | Some numbers_count \<Rightarrow>
           int_op numbers_count (\<lambda>numbers_count.
           get_context i (\<lambda>ctx.
           yield_if_necessary_record_work_time w i start (coroutine_quantum ctx) (\<lambda>start.
           new_array f numbers_count
          (case read_numbers numbers_count text of None \<Rightarrow> Fail
           | Some cells \<Rightarrow>
             fill_array f cells
            (get_context i (\<lambda>ctx.
             yield_if_necessary_record_work_time w i start (coroutine_quantum ctx) (\<lambda>start.
             get_context i (\<lambda>ctx.
             heap_sort w i (coroutine_quantum ctx) f numbers_count start k))))))))))"

text \<open>The loop over the files; every round takes one, so \<open>files_count\<close> rounds are enough.\<close>

primrec sort_loop :: "nat \<Rightarrow> world \<Rightarrow> nat \<Rightarrow> int \<Rightarrow> (int \<Rightarrow> code) \<Rightarrow> code" where
  "sort_loop 0 w i start k = Fail"
| "sort_loop (Suc fuel) w i start k =
     get_context i (\<lambda>ctx.
     Act (\<lambda>u. if file_to_sort_idx u < files_count ctx then u\<lparr>file_to_sort_idx := Suc (file_to_sort_idx u)\<rparr> else u)
       (\<lambda>u. if file_to_sort_idx u < files_count ctx then
              case at (filenames_to_sort ctx) (file_to_sort_idx u) of None \<Rightarrow> Fail
              | Some filename \<Rightarrow>
                sort_file w i (file_to_sort_idx u) filename start (\<lambda>start. sort_loop fuel w i start k)
            else k start))"

definition coroutine_func_f :: "world \<Rightarrow> nat \<Rightarrow> nat \<Rightarrow> code" where
  "coroutine_func_f w fuel i =
     get_now w (\<lambda>start.
     sort_loop fuel w i start (\<lambda>start.
     get_now w (\<lambda>t.
     upd_context i (\<lambda>ctx. ctx\<lparr>total_work_time := total_work_time ctx + (t - start)\<rparr>)
    (Switches (\<lambda>n.
     upd_context i (\<lambda>ctx. ctx\<lparr>total_switch_count := n\<rparr>)
    (Return 0))))))"

subsection \<open>The command line\<close>

text \<open>
  The loop over \<open>argv\<close>, with what is left of it, \<open>coroutines_count\<close>, \<open>target_latency\<close> and
  \<open>files_count\<close>; whether the arguments parsed is the first result.
\<close>

fun parse_args :: "string list \<Rightarrow> int \<times> int \<times> int \<Rightarrow> bool \<times> int \<times> int \<times> int" where
  "parse_args [] cfg = (True, cfg)"
| "parse_args (a # rest) (coroutines, latency, files) =
     (if a = ''-n'' then
        (case rest of [] \<Rightarrow> (False, coroutines, latency, files)
         | b # _ \<Rightarrow> parse_args rest (strtol b, latency, files - 2))
      else if a = ''-t'' then
        (case rest of [] \<Rightarrow> (False, coroutines, latency, files)
         | b # _ \<Rightarrow> parse_args rest (coroutines, strtol b, files - 2))
      else parse_args rest (coroutines, latency, files))"

definition DEFAULT_TARGET_LATENCY :: int where "DEFAULT_TARGET_LATENCY = 1000"

definition DEFAULT_COROUTINES :: int where "DEFAULT_COROUTINES = 3"

record config =
  coroutines_count :: int
  target_latency :: int
  filenames :: "string list"

text \<open>\<open>None\<close>: the usage is printed.\<close>

definition read_config :: "string list \<Rightarrow> config option" where
  "read_config argv =
     (let (args_parsed, coroutines, latency, files) =
        parse_args (tl argv) (DEFAULT_COROUTINES, DEFAULT_TARGET_LATENCY, int (length argv) - 1)
      in if coroutines < 1 \<or> latency < coroutines \<or> files < 1 \<or> \<not> args_parsed then None
         else Some \<lparr>coroutines_count = coroutines, target_latency = latency,
                filenames = drop (nat (int (length argv) - files)) argv\<rparr>)"

subsection \<open>\<open>main\<close>\<close>

text \<open>The name of a context is printed to a buffer of 16 characters.\<close>

definition coro_name :: "nat \<Rightarrow> string option" where
  "coro_name i = (let s = ''coro#'' @ show_int (int i + 1) in if length s < 16 then Some s else None)"

definition start_coroutine :: "world \<Rightarrow> config \<Rightarrow> nat \<Rightarrow> prog sched \<Rightarrow> prog sched option" where
  "start_coroutine w cfg i s = do {
     nm \<leftarrow> coro_name i;
     let con = \<lparr>name = nm, total_work_time = 0, total_switch_count = 0,
                files_count = length (filenames cfg), filenames_to_sort = filenames cfg,
                coroutine_quantum = target_latency cfg div coroutines_count cfg\<rparr>;
     (c, s) \<leftarrow> coro_new (coroutine_func_f w (Suc (length (filenames cfg))) i)
                (s\<lparr>user := (user s)\<lparr>contexts := (contexts (user s))[i := Some con]\<rparr>\<rparr>);
     Some s }"

definition start_coroutines :: "world \<Rightarrow> config \<Rightarrow> prog sched \<Rightarrow> prog sched option" where
  "start_coroutines w cfg =
     for_each [0..<nat (coroutines_count cfg)]
       (\<lambda>i s. do { _ \<leftarrow> c_int (int i + 1); start_coroutine w cfg i s })"

partial_function (option) wait_all :: "'u sched \<Rightarrow> (int + 'u sched) option" where
  [code]: "wait_all s = do {
     r \<leftarrow> coro_sched_wait s;
     (case r of
        Inl n \<Rightarrow> Some (Inl n)
      | Inr (c, s) \<Rightarrow>
          (case c of None \<Rightarrow> Some (Inr s)
           | Some c \<Rightarrow> do { s \<leftarrow> coro_delete c s; wait_all s })) }"

text \<open>The loop over the contexts: their times are added up, their names freed.\<close>

definition coroutines_total_work_time :: "prog \<Rightarrow> nat \<Rightarrow> int option" where
  "coroutines_total_work_time u n =
     for_each [0..<n] (\<lambda>i t. do { con \<leftarrow> context_at u i; Some (t + total_work_time con) }) 0"

text \<open>The loop that frees the sorted arrays; a second \<open>free\<close> of the same array would be undefined.\<close>

definition free_array :: "nat \<Rightarrow> arrays \<Rightarrow> arrays option" where
  "free_array i arrs = do { a \<leftarrow> at arrs i; _ \<leftarrow> a; Some (arrs[i := None]) }"

definition free_arrays :: "nat \<Rightarrow> arrays \<Rightarrow> arrays option" where
  "free_arrays n = for_each [0..<n] free_array"

definition initial_prog :: "config \<Rightarrow> prog" where
  "initial_prog cfg = \<lparr>ticks = 1, file_to_sort_idx = 0,
     sorted_arrays = replicate (length (filenames cfg)) None,
     sorted_arrays_sizes = replicate (length (filenames cfg)) None,
     contexts = replicate (nat (coroutines_count cfg)) None\<rparr>"

text \<open>The status, and what the output file holds when it is written.\<close>

definition main :: "world \<Rightarrow> string list \<Rightarrow> (int \<times> string option) option" where
  "main w argv =
     (case read_config argv of None \<Rightarrow> Some (1, None)
      | Some cfg \<Rightarrow> do {
          s \<leftarrow> start_coroutines w cfg (coro_sched_init (coro_start (initial_prog cfg)));
          r \<leftarrow> wait_all s;
          (case r of Inl n \<Rightarrow> Some (n, None)
           | Inr s \<Rightarrow> do {
               _ \<leftarrow> coroutines_total_work_time (user s) (nat (coroutines_count cfg));
               if output_opens w then do {
                 out \<leftarrow> merge_arrays (sorted_arrays (user s)) (sorted_arrays_sizes (user s))
                           (length (filenames cfg));
                 _ \<leftarrow> free_arrays (length (filenames cfg)) (sorted_arrays (user s));
                 Some (0, Some out) }
               else Some (1, None) }) })"

end
