(* ===== verification/SortHeap.thy ===== *)
theory SortHeap
  imports Prelude "HOL-Library.Multiset"
begin

section \<open>The external sort: heap sort on lists\<close>

text \<open>
  The algorithm of \<open>heap_sort\<close> in \<open>homework-01/solution.c\<close> as a function on lists: what
  the two loops compute when nothing else touches the array. \<open>SortProgram\<close> holds the code
  itself, with its yields, and shows that it computes this.
\<close>

subsection \<open>The heap\<close>

text \<open>The children of slot \<open>j\<close> are \<open>2 * j + 1\<close> and \<open>2 * j + 2\<close>.\<close>

definition parent :: "nat \<Rightarrow> nat" where
  "parent k = (k - 1) div 2"

definition larger :: "int list \<Rightarrow> nat \<Rightarrow> nat \<Rightarrow> nat" where
  "larger a n j =
     (let l = 2 * j + 1; r = 2 * j + 2;
          m = (if l < n \<and> a ! l > a ! j then l else j)
      in if r < n \<and> a ! r > a ! m then r else m)"

definition swap :: "'a list \<Rightarrow> nat \<Rightarrow> nat \<Rightarrow> 'a list" where
  "swap a i j = a[i := a ! j, j := a ! i]"

lemma larger_cases:
  "larger a n j = j \<or> larger a n j < n \<and> j < larger a n j \<and> parent (larger a n j) = j"
  by (auto simp: larger_def parent_def Let_def)

function sift :: "int list \<Rightarrow> nat \<Rightarrow> nat \<Rightarrow> int list" where
  "sift a n j = (let m = larger a n j in if m = j then a else sift (swap a j m) n m)"
  by pat_completeness auto
termination
proof (relation "measure (\<lambda>(a, n, j). n - j)")
  fix a :: "int list" and n j m
  assume "m = larger a n j" "m \<noteq> j"
  with larger_cases [of a n j] show "((swap a j m, n, m), (a, n, j)) \<in> measure (\<lambda>(a, n, j). n - j)" by auto
qed simp

declare sift.simps [simp del]

definition sift_build :: "int list \<Rightarrow> int list" where
  "sift_build a = fold (\<lambda>i a. sift a (length a) i) (rev [0..<length a div 2]) a"

definition sift_out :: "nat \<Rightarrow> int list \<Rightarrow> int list" where
  "sift_out i a = sift (swap a 0 i) i 0"

definition heap_sorted :: "int list \<Rightarrow> int list" where
  "heap_sorted a = fold sift_out (rev [1..<length a]) (sift_build a)"

subsection \<open>Only the first slots are permuted\<close>

lemma length_swap [simp]: "length (swap a i j) = length a"
  by (simp add: swap_def)

lemma nth_swap:
  "i < length a \<Longrightarrow> j < length a \<Longrightarrow> k < length a \<Longrightarrow>
   swap a i j ! k = (if k = j then a ! i else if k = i then a ! j else a ! k)"
  by (auto simp: swap_def nth_list_update)

lemma mset_swap: "i < length a \<Longrightarrow> j < length a \<Longrightarrow> mset (swap a i j) = mset a"
  by (simp add: swap_def mset_swap)

lemma drop_swap: "i < n \<Longrightarrow> j < n \<Longrightarrow> drop n (swap a i j) = drop n a"
  by (simp add: swap_def)

lemma sift_frame:
  "j < n \<Longrightarrow> n \<le> length a \<Longrightarrow>
   length (sift a n j) = length a \<and> mset (sift a n j) = mset a \<and> drop n (sift a n j) = drop n a"
proof (induction a n j rule: sift.induct)
  case (1 a n j)
  show ?case
  proof (cases "larger a n j = j")
    case True
    then show ?thesis by (simp add: sift.simps [of a n j])
  next
    case False
    with larger_cases [of a n j] have m: "larger a n j < n" by auto
    with "1.IH" [OF refl False] "1.prems" False
    show ?thesis by (simp add: sift.simps [of a n j] Let_def mset_swap drop_swap)
  qed
qed

lemma sift_noop: "n \<le> j \<Longrightarrow> sift a n j = a"
  by (simp add: sift.simps [of a n j] larger_def)

lemma length_sift [simp]: "n \<le> length a \<Longrightarrow> length (sift a n j) = length a"
  by (cases "j < n") (simp_all add: sift_frame sift_noop)

lemma mset_sift: "n \<le> length a \<Longrightarrow> mset (sift a n j) = mset a"
  by (cases "j < n") (simp_all add: sift_frame sift_noop)

lemma drop_sift: "n \<le> length a \<Longrightarrow> drop n (sift a n j) = drop n a"
  by (cases "j < n") (simp_all add: sift_frame sift_noop)

subsection \<open>Sifting restores the heap\<close>

definition heap_from :: "nat \<Rightarrow> nat \<Rightarrow> int list \<Rightarrow> bool" where
  "heap_from i n a \<longleftrightarrow> (\<forall>k. 0 < k \<longrightarrow> k < n \<longrightarrow> i \<le> parent k \<longrightarrow> a ! k \<le> a ! parent k)"

text \<open>A heap but for the slot \<open>j\<close>, whose value may be too small.\<close>

definition heap_but :: "nat \<Rightarrow> nat \<Rightarrow> nat \<Rightarrow> int list \<Rightarrow> bool" where
  "heap_but i n j a \<longleftrightarrow>
     (\<forall>k. 0 < k \<longrightarrow> k < n \<longrightarrow> i \<le> parent k \<longrightarrow> parent k \<noteq> j \<longrightarrow> a ! k \<le> a ! parent k) \<and>
     (\<forall>k. 0 < k \<longrightarrow> k < n \<longrightarrow> parent k = j \<longrightarrow> 0 < j \<longrightarrow> i \<le> parent j \<longrightarrow> a ! k \<le> a ! parent j)"

lemma child_cases: "0 < k \<Longrightarrow> parent k = j \<longleftrightarrow> k = 2 * j + 1 \<or> k = 2 * j + 2"
  by (auto simp: parent_def)

lemma parent_less: "0 < k \<Longrightarrow> parent k < k"
  by (auto simp: parent_def)

lemma larger_max: "0 < k \<Longrightarrow> k < n \<Longrightarrow> parent k = j \<Longrightarrow> a ! k \<le> a ! larger a n j"
  by (auto simp: child_cases larger_def Let_def)

lemma larger_ge: "a ! j \<le> a ! larger a n j"
  by (auto simp: larger_def Let_def)

lemma sift_done: "heap_but i n j a \<Longrightarrow> larger a n j = j \<Longrightarrow> heap_from i n a"
  using larger_max [of _ n j a] by (auto simp: heap_but_def heap_from_def)

lemma sift_step:
  assumes but: "heap_but i n j a" and m: "larger a n j = m" "m \<noteq> j" and len: "n \<le> length a" "i \<le> j"
  shows "heap_but i n m (swap a j m)"
proof -
  from larger_cases [of a n j] m have mj: "m < n" "j < m" "parent m = j" by auto
  have "0 < m" using mj by simp
  have at: "swap a j m ! k = (if k = m then a ! j else if k = j then a ! m else a ! k)" if "k < n" for k
    using that mj len by (intro nth_swap) simp_all
  have up: "parent k < n" if "0 < k" "k < n" for k using parent_less [OF that(1)] that(2) by simp
  have "swap a j m ! k \<le> swap a j m ! parent k"
    if k: "0 < k" "k < n" "i \<le> parent k" "parent k \<noteq> m" for k
  proof (cases "parent k = j")
    case True
    then have "swap a j m ! parent k = a ! m" using at [OF up [OF k(1,2)]] mj by simp
    moreover have "swap a j m ! k \<le> a ! m"
      using at [OF k(2)] larger_max [OF k(1,2) True, of a] larger_ge [of a j n] parent_less [OF k(1)] True m(1)
      by auto
    ultimately show ?thesis by simp
  next
    case False
    have kp: "a ! k \<le> a ! parent k" using but k False by (simp add: heap_but_def)
    have pk: "swap a j m ! parent k = a ! parent k" using at [OF up [OF k(1,2)]] False k(4) by simp
    have "a ! m \<le> a ! parent j" if "k = j"
      using but that k(1,3) mj \<open>0 < m\<close> by (auto simp: heap_but_def)
    with kp pk at [OF k(2)] mj False show ?thesis by auto
  qed
  moreover have "swap a j m ! k \<le> swap a j m ! parent m" if k: "0 < k" "k < n" "parent k = m" for k
  proof -
    have "m < k" using parent_less [OF k(1)] k(3) by simp
    then have "swap a j m ! k = a ! k" "swap a j m ! j = a ! m" using at [OF k(2)] at [of j] mj by simp_all
    moreover have "a ! k \<le> a ! m" using but k mj len by (auto simp: heap_but_def)
    ultimately show ?thesis by (simp add: mj)
  qed
  ultimately show ?thesis by (simp add: heap_but_def)
qed

lemma sift_heap: "heap_but i n j a \<Longrightarrow> n \<le> length a \<Longrightarrow> i \<le> j \<Longrightarrow> heap_from i n (sift a n j)"
proof (induction a n j rule: sift.induct)
  case (1 a n j)
  show ?case
  proof (cases "larger a n j = j")
    case True
    with sift_done [OF "1.prems"(1)] show ?thesis by (simp add: sift.simps [of a n j])
  next
    case False
    with larger_cases [of a n j] have "j < larger a n j" by auto
    with "1.IH" [OF refl False] sift_step [OF "1.prems"(1) refl False] "1.prems" False
    show ?thesis by (simp add: sift.simps [of a n j] Let_def)
  qed
qed

lemma heap_extend: "heap_from (Suc i) n a \<Longrightarrow> heap_but i n i a"
proof -
  assume h: "heap_from (Suc i) n a"
  have "a ! k \<le> a ! parent k" if "0 < k" "k < n" "i \<le> parent k" "parent k \<noteq> i" for k
    using h that by (simp add: heap_from_def)
  moreover have "\<not> i \<le> parent i" if "0 < i" using parent_less [OF that] by simp
  ultimately show ?thesis by (simp add: heap_but_def)
qed

lemma heap_from_half: "heap_from (n div 2) n a"
  by (auto simp: heap_from_def parent_def)

lemma build_heap:
  "m \<le> length a div 2 \<Longrightarrow> heap_from m (length a) a \<Longrightarrow>
   heap_from 0 (length a) (fold (\<lambda>i a. sift a (length a) i) (rev [0..<m]) a) \<and>
   mset (fold (\<lambda>i a. sift a (length a) i) (rev [0..<m]) a) = mset a"
proof (induction m arbitrary: a)
  case (Suc m)
  let ?b = "sift a (length a) m"
  have "heap_from m (length a) ?b" by (rule sift_heap [OF heap_extend [OF Suc.prems(2)]]) simp_all
  with Suc.IH [of ?b] Suc.prems(1) show ?case by (simp add: mset_sift)
qed simp

lemma sift_build_heap: "heap_from 0 (length a) (sift_build a)" "mset (sift_build a) = mset a"
  using build_heap [OF order_refl heap_from_half] by (auto simp: sift_build_def)

lemma heap_root_max: "heap_from 0 n a \<Longrightarrow> k < n \<Longrightarrow> a ! k \<le> a ! 0"
proof (induction k rule: less_induct)
  case (less k)
  show ?case
  proof (cases "k = 0")
    case False
    then have p: "parent k < k" by (simp add: parent_less)
    with False less.prems have "a ! k \<le> a ! parent k" by (simp add: heap_from_def)
    also have "\<dots> \<le> a ! 0" using p less.prems by (intro less.IH) simp_all
    finally show ?thesis .
  qed simp
qed

subsection \<open>The second loop sorts\<close>

definition sorted_behind :: "nat \<Rightarrow> int list \<Rightarrow> bool" where
  "sorted_behind m a \<longleftrightarrow> sorted (drop m a) \<and> (\<forall>x \<in> set (take m a). \<forall>y \<in> set (drop m a). x \<le> y)"

lemma sift_out_step:
  assumes heap: "heap_from 0 (Suc m) a" and behind: "sorted_behind (Suc m) a"
    and m: "Suc m \<le> length a" "0 < m"
  shows "heap_from 0 m (sift_out m a)" and "sorted_behind m (sift_out m a)"
    and "mset (sift_out m a) = mset a"
proof -
  let ?b = "swap a 0 m"
  have len: "m < length a" "0 < length a" using m by linarith+
  have at: "?b ! k = (if k = m then a ! 0 else if k = 0 then a ! m else a ! k)" if "k < length a" for k
    using len that by (intro nth_swap) simp_all
  have "heap_but 0 m 0 ?b"
    unfolding heap_but_def
  proof (intro conjI allI impI)
    fix k assume k: "0 < k" "k < m" "parent k \<noteq> 0"
    then have "parent k < k" by (simp add: parent_less)
    with k heap len show "?b ! k \<le> ?b ! parent k" by (simp add: at heap_from_def)
  qed simp
  then show "heap_from 0 m (sift_out m a)"
    unfolding sift_out_def using len by (intro sift_heap) simp_all
  show ms: "mset (sift_out m a) = mset a"
    unfolding sift_out_def using len by (simp add: mset_sift mset_swap)
  have dropb: "drop m ?b = a ! 0 # drop (Suc m) a"
    using len m(2) drop_swap [of 0 "Suc m" m a] by (subst Cons_nth_drop_Suc [symmetric]) (simp_all add: at)
  have drop: "drop m (sift_out m a) = a ! 0 # drop (Suc m) a"
    unfolding sift_out_def using len dropb by (simp add: drop_sift)
  have max: "x \<le> a ! 0" if "x \<in> set (take (Suc m) a)" for x
    using that heap_root_max [OF heap] by (auto simp: in_set_conv_nth)
  have "a ! 0 \<in> set (take (Suc m) a)" using len(2) by (cases a) simp_all
  then have a0: "a ! 0 \<le> y" if "y \<in> set (drop (Suc m) a)" for y
    using behind that by (simp add: sorted_behind_def)
  have "mset (take m (sift_out m a)) + mset (drop m (sift_out m a)) = mset (take (Suc m) a) + mset (drop (Suc m) a)"
    using ms by (simp flip: mset_append)
  then have "add_mset (a ! 0) (mset (take m (sift_out m a))) = mset (take (Suc m) a)"
    unfolding drop by simp
  then have sub: "set (take m (sift_out m a)) \<subseteq> set (take (Suc m) a)"
    by (metis set_mset_mset set_mset_add_mset_insert subset_insertI)
  show "sorted_behind m (sift_out m a)"
    unfolding sorted_behind_def drop
    using behind a0 sub max by (auto simp: sorted_behind_def dest: subsetD)
qed

lemma sift_out_all:
  "heap_from 0 m a \<Longrightarrow> sorted_behind m a \<Longrightarrow> m \<le> length a \<Longrightarrow> 0 < m \<Longrightarrow>
   sorted_behind 1 (fold sift_out (rev [1..<m]) a) \<and> mset (fold sift_out (rev [1..<m]) a) = mset a"
proof (induction m arbitrary: a)
  case (Suc m)
  show ?case
  proof (cases "m = 0")
    case False
    note step = sift_out_step [OF Suc.prems(1-3)]
    have "length (sift_out m a) = length a" using step(3) False by (metis neq0_conv size_mset)
    with Suc.IH [of "sift_out m a"] step Suc.prems False show ?thesis by simp
  qed (use Suc.prems in simp)
qed simp

lemma heap_sorted_correct: "heap_sorted a = sort a"
proof (cases "a = []")
  case False
  let ?b = "sift_build a"
  have len: "length ?b = length a" by (metis sift_build_heap(2) size_mset)
  have "sorted_behind 1 (heap_sorted a) \<and> mset (heap_sorted a) = mset ?b"
    unfolding heap_sorted_def
    using False len by (intro sift_out_all sift_build_heap(1)) (simp_all add: sorted_behind_def)
  moreover have "sorted b" if "sorted_behind 1 b" for b :: "int list"
    using that by (cases b) (auto simp: sorted_behind_def)
  ultimately show ?thesis
    using sift_build_heap(2) [of a] by (intro properties_for_sort [symmetric]) simp_all
qed (simp add: heap_sorted_def sift_build_def)

end
