(* ===== verification/CoroSched.thy ===== *)
theory CoroSched
  imports Coro
begin

section \<open>Coroutines: the scheduler\<close>

text \<open>
  What holds whenever the main program has control, how \<open>coro_new\<close>, \<open>coro_sched_wait\<close>
  and \<open>coro_delete\<close> keep it, and the rule by which a program that runs on the scheduler is
  verified: the interface \<open>cooperative\<close>. A program states what it knows of each coroutine
  between two of its slices (\<open>okp\<close>, relative to a claim the coroutine holds on the shared
  state) and what it knows of all of them together (\<open>compat\<close>); it shows that a slice
  keeps both. The scheduler then returns the coroutines one by one, each finished.
\<close>

subsection \<open>Code that ends\<close>

text \<open>\<open>later q p\<close>: a slice of \<open>p\<close> leaves \<open>q\<close> to do.\<close>

inductive later :: "'u proc \<Rightarrow> 'u proc \<Rightarrow> bool" where
  later_slice: "run_slice n p u = Some (Yielded q u') \<Longrightarrow> later q p"

inductive_cases laterE: "later q p"

text \<open>
  Code that ends on every path through it, however the others change the shared state: it
  has neither an endless loop inside a slice nor endlessly many yields.
\<close>

inductive ends :: "'u proc \<Rightarrow> bool" where
  ends_Return [intro]: "ends (Return r)"
| ends_Exit [intro]: "ends (Exit r)"
| ends_Fail [intro]: "ends Fail"
| ends_Act [intro]: "(\<And>u. ends (g u)) \<Longrightarrow> ends (Act f g)"
| ends_Switches [intro]: "(\<And>n. ends (g n)) \<Longrightarrow> ends (Switches g)"
| ends_Yield [intro]: "ends p \<Longrightarrow> ends (Yield p)"

text \<open>Each slice of code that ends leaves less to do.\<close>

lemma ends_acc: "ends p \<Longrightarrow> Wellfounded.accp later p"
proof (induction rule: ends.induct)
  case (ends_Act g f)
  show ?case
  proof (rule accpI)
    fix q assume "later q (Act f g)"
    then obtain n u u' where "run_slice n (Act f g) u = Some (Yielded q u')" by (rule laterE)
    then have "run_slice n (g u) (f u) = Some (Yielded q u')" by simp
    then have "later q (g u)" by (rule later_slice)
    with ends_Act.IH [of u] show "Wellfounded.accp later q" by (rule accp_downward)
  qed
next
  case (ends_Switches g)
  show ?case
  proof (rule accpI)
    fix q assume "later q (Switches g)"
    then obtain n u u' where "run_slice n (Switches g) u = Some (Yielded q u')" by (rule laterE)
    then have "run_slice n (g n) u = Some (Yielded q u')" by simp
    then have "later q (g n)" by (rule later_slice)
    with ends_Switches.IH [of n] show "Wellfounded.accp later q" by (rule accp_downward)
  qed
next
  case (ends_Yield p)
  show ?case
  proof (rule accpI)
    fix q assume "later q (Yield p)"
    then have "q = p" by (auto elim!: laterE)
    with ends_Yield.IH show "Wellfounded.accp later q" by simp
  qed
qed (rule accpI, auto elim!: laterE)+

subsection \<open>The list between calls\<close>

definition linked :: "addr list \<Rightarrow> 'u sched \<Rightarrow> bool" where
  "linked cl s \<longleftrightarrow>
     dll next_coro prev_coro (coros s) None (coro_list s) cl None \<and>
     (\<forall>c co. coros s c = Some co \<longrightarrow> c < fresh_coro s)"

definition running :: "addr set \<Rightarrow> 'u sched \<Rightarrow> bool" where
  "running A s \<longleftrightarrow> (\<forall>c \<in> A. \<exists>co. coros s c = Some co \<and> \<not> is_finished co)"

definition sched_rel :: "addr list \<Rightarrow> 'u sched \<Rightarrow> bool" where
  "sched_rel cl s \<longleftrightarrow> linked cl s \<and> running (set cl) s \<and> \<not> is_sched_waiting s \<and> coro_this_ptr s = Sched"

lemma sched_rel_start: "sched_rel [] (coro_sched_init (coro_start u))"
  by (simp add: sched_rel_def linked_def running_def coro_sched_init_def coro_start_def)

text \<open>Changing anything but the links of a coroutine.\<close>

lemma linked_upd:
  assumes "linked cl s" and "coros s c = Some co" and "next_coro co' = next_coro co" "prev_coro co' = prev_coro co"
    and "coros t = (coros s)(c \<mapsto> co')" "coro_list t = coro_list s" "fresh_coro t = fresh_coro s"
  shows "linked cl t"
  using assms dll_upd_data [of "coros s" c co next_coro co' prev_coro] by (auto simp: linked_def)

definition created_coro :: "'u proc \<Rightarrow> 'u sched \<Rightarrow> 'u sched \<Rightarrow> bool" where
  "created_coro p s t \<longleftrightarrow>
     user t = user s \<and> is_sched_waiting t = is_sched_waiting s \<and> coro_this_ptr t = coro_this_ptr s \<and>
     (\<exists>co. coros t (fresh_coro s) = Some co \<and> ctx co = p \<and> \<not> is_finished co \<and> switch_count co = 0) \<and>
     (\<forall>c. c \<noteq> fresh_coro s \<longrightarrow> map_option ctx (coros t c) = map_option ctx (coros s c) \<and>
        map_option is_finished (coros t c) = map_option is_finished (coros s c) \<and>
        map_option switch_count (coros t c) = map_option switch_count (coros s c))"

lemma coro_new_links:
  assumes "linked cl s"
  shows "\<exists>t. coro_new p s = Some (fresh_coro s, t) \<and> linked (fresh_coro s # cl) t \<and> created_coro p s t"
proof -
  let ?c = "fresh_coro s"
  from assms have dll: "dll next_coro prev_coro (coros s) None (coro_list s) cl None"
    and fresh: "\<And>c co. coros s c = Some co \<Longrightarrow> c < ?c" by (simp_all add: linked_def)
  have new: "?c \<notin> set cl" using dll_live [OF dll] fresh by fastforce
  let ?n = "\<lparr>ret = 0, ctx = p, is_finished = False, switch_count = 0, next_coro = coro_list s, prev_coro = None\<rparr>"
  show ?thesis
  proof (cases cl)
    case Nil
    with dll have "coro_list s = None" by simp
    let ?t = "s\<lparr>coros := (coros s)(?c \<mapsto> ?n), fresh_coro := Suc ?c, coro_list := Some ?c\<rparr>"
    from \<open>coro_list s = None\<close> have "coro_new p s = Some (?c, ?t)"
      by (simp add: coro_new_def coro_list_add_def upd_coro_def Let_def)
    moreover have "linked (?c # cl) ?t"
      using Nil fresh \<open>coro_list s = None\<close> by (auto simp: linked_def less_SucI)
    moreover have "created_coro p s ?t" by (auto simp: created_coro_def)
    ultimately show ?thesis by blast
  next
    case (Cons h xs)
    with dll obtain m where h: "coro_list s = Some h" "coros s h = Some m" by (auto split: option.splits)
    have hc: "h \<noteq> ?c" using new Cons by auto
    let ?t = "s\<lparr>coros := (coros s)(?c \<mapsto> ?n, h \<mapsto> set_prev_coro (Some ?c) m), fresh_coro := Suc ?c,
      coro_list := Some ?c\<rparr>"
    have "coro_new p s = Some (?c, ?t)"
      using h hc by (simp add: coro_new_def coro_list_add_def upd_coro_def Let_def)
    moreover have "dll next_coro prev_coro ((coros s)(?c \<mapsto> ?n, h \<mapsto> set_prev_coro (Some ?c) m))
        None (Some ?c) (?c # cl) None"
      using cl.dll_prepend [of "coros s" h xs ?c m ?n] dll new h Cons by simp
    then have "linked (?c # cl) ?t" using fresh h by (auto simp: linked_def less_SucI)
    moreover have "created_coro p s ?t" using h hc by (auto simp: created_coro_def)
    ultimately show ?thesis by blast
  qed
qed

text \<open>Removing a coroutine from the list leaves the data of all coroutines alone.\<close>

definition same_coros :: "'u sched \<Rightarrow> 'u sched \<Rightarrow> bool" where
  "same_coros s t \<longleftrightarrow> user t = user s \<and> is_sched_waiting t = is_sched_waiting s \<and>
     coro_this_ptr t = coro_this_ptr s \<and> fresh_coro t = fresh_coro s \<and>
     (\<forall>c. map_option ctx (coros t c) = map_option ctx (coros s c) \<and>
        map_option is_finished (coros t c) = map_option is_finished (coros s c) \<and>
        map_option switch_count (coros t c) = map_option switch_count (coros s c) \<and>
        map_option ret (coros t c) = map_option ret (coros s c))"

lemma coro_list_delete_eq:
  assumes "coros s c = Some co"
    and "\<And>p. prev_coro co = Some p \<Longrightarrow> p \<noteq> c \<and> coros s p \<noteq> None"
    and "\<And>n. next_coro co = Some n \<Longrightarrow> n \<noteq> c \<and> coros s n \<noteq> None"
  shows "coro_list_delete c s = Some (s\<lparr>
    coros := cl.relink_prev (next_coro co) (prev_coro co) (cl.relink_next (prev_coro co) (next_coro co) (coros s)),
    coro_list := (if prev_coro co = None then next_coro co else coro_list s)\<rparr>)"
  using assms
  by (cases "prev_coro co"; cases "next_coro co")
    (auto simp: coro_list_delete_def upd_coro_def cl.relink_next_def cl.relink_prev_def split: option.split)

lemma relink_same:
  "map_option ctx (cl.relink_next q r h a) = map_option ctx (h a)"
  "map_option is_finished (cl.relink_next q r h a) = map_option is_finished (h a)"
  "map_option switch_count (cl.relink_next q r h a) = map_option switch_count (h a)"
  "map_option ret (cl.relink_next q r h a) = map_option ret (h a)"
  "map_option ctx (cl.relink_prev q r h a) = map_option ctx (h a)"
  "map_option is_finished (cl.relink_prev q r h a) = map_option is_finished (h a)"
  "map_option switch_count (cl.relink_prev q r h a) = map_option switch_count (h a)"
  "map_option ret (cl.relink_prev q r h a) = map_option ret (h a)"
  by (auto simp: cl.relink_next_def cl.relink_prev_def split: option.splits)

lemma coro_list_delete_links:
  assumes "linked (xs @ c # ys) s"
  shows "\<exists>t. coro_list_delete c s = Some t \<and> linked (xs @ ys) t \<and> same_coros s t"
proof -
  from assms have dll: "dll next_coro prev_coro (coros s) None (coro_list s) (xs @ c # ys) None"
    and fresh: "\<And>c co. coros s c = Some co \<Longrightarrow> c < fresh_coro s" by (simp_all add: linked_def)
  obtain co where co: "coros s c = Some co" "prev_coro co = last_ptr None xs" "next_coro co = first_ptr ys None"
    by (rule dll_node [OF dll])
  from dll_distinct [OF dll] have dist: "c \<notin> set xs" "c \<notin> set ys" by auto
  have live: "coros s a \<noteq> None" if "a \<in> set xs \<union> set ys" for a using dll_live [OF dll, of a] that by auto
  have prev: "p \<noteq> c \<and> coros s p \<noteq> None" if "prev_coro co = Some p" for p
    using that last_ptr_SomeD [of xs p] live dist co(2) by (metis UnI1 last_in_set)
  have nxt: "n \<noteq> c \<and> coros s n \<noteq> None" if "next_coro co = Some n" for n
    using that first_ptr_SomeD [of ys n] live dist co(3) by (metis UnI2 hd_in_set)
  let ?h = "cl.relink_prev (next_coro co) (prev_coro co) (cl.relink_next (prev_coro co) (next_coro co) (coros s))"
  let ?t = "s\<lparr>coros := ?h, coro_list := (if prev_coro co = None then next_coro co else coro_list s)\<rparr>"
  have "coro_list_delete c s = Some ?t" by (rule coro_list_delete_eq [OF co(1) prev nxt])
  moreover have "dll next_coro prev_coro ?h None (first_ptr (xs @ ys) None) (xs @ ys) None"
    unfolding co(2,3) by (rule cl.dll_unlink [OF dll])
  moreover have "(if prev_coro co = None then next_coro co else coro_list s) = first_ptr (xs @ ys) None"
    using co dll_first [OF dll] by (cases xs) (auto simp: last_ptr_def split: if_splits)
  moreover have "a < fresh_coro s" if "?h a = Some x" for a x
    using that fresh [of a] by (auto simp: cl.relink_next_def cl.relink_prev_def split: option.splits if_splits)
  ultimately show ?thesis by (auto simp: linked_def same_coros_def relink_same)
qed

lemma find_finished_none:
  "dll next_coro prev_coro (coros s) b p cl None \<Longrightarrow> running (set cl) s \<Longrightarrow> find_finished p s = Some None"
proof (induction cl arbitrary: b p)
  case (Cons c cl)
  then obtain co where "p = Some c" "coros s c = Some co" "\<not> is_finished co"
    "dll next_coro prev_coro (coros s) (Some c) (next_coro co) cl None"
    by (auto simp: running_def split: option.splits)
  with Cons show ?case by (simp add: find_finished.simps [of "Some c"] running_def)
qed (simp add: find_finished.simps)

lemma find_finished_some:
  "dll next_coro prev_coro (coros s) b p (xs @ c # ys) None \<Longrightarrow> running (set xs) s \<Longrightarrow>
   map_option is_finished (coros s c) = Some True \<Longrightarrow> find_finished p s = Some (Some c)"
proof (induction xs arbitrary: b p)
  case Nil
  then show ?case by (auto simp: find_finished.simps)
next
  case (Cons a xs)
  then obtain co where "p = Some a" "coros s a = Some co" "\<not> is_finished co"
    "dll next_coro prev_coro (coros s) (Some a) (next_coro co) (xs @ c # ys) None"
    by (auto simp: running_def split: option.splits)
  with Cons show ?case by (simp add: find_finished.simps [of "Some a"] running_def)
qed

lemma coro_new_rel:
  assumes "sched_rel cl s"
  shows "\<exists>t. coro_new p s = Some (fresh_coro s, t) \<and> sched_rel (fresh_coro s # cl) t \<and> created_coro p s t \<and>
    fresh_coro s \<notin> set cl"
proof -
  have rel: "linked cl s" "running (set cl) s" "\<not> is_sched_waiting s" "coro_this_ptr s = Sched"
    using assms by (simp_all add: sched_rel_def)
  have new: "fresh_coro s \<notin> set cl"
  proof
    assume "fresh_coro s \<in> set cl"
    then obtain co where "coros s (fresh_coro s) = Some co" using rel(2) unfolding running_def by blast
    with rel(1) show False by (auto simp: linked_def)
  qed
  obtain t where t: "coro_new p s = Some (fresh_coro s, t)" "linked (fresh_coro s # cl) t" "created_coro p s t"
    using coro_new_links [OF rel(1)] by blast
  have "\<exists>co. coros t c = Some co \<and> \<not> is_finished co" if "c \<in> set (fresh_coro s # cl)" for c
  proof (cases "c = fresh_coro s")
    case True
    with t(3) show ?thesis by (auto simp: created_coro_def)
  next
    case False
    with that rel(2) obtain co where "coros s c = Some co" "\<not> is_finished co" unfolding running_def by auto
    with False t(3) have "map_option is_finished (coros t c) = Some False" by (simp add: created_coro_def)
    then show ?thesis by auto
  qed
  with t rel(3,4) new show ?thesis by (auto simp: sched_rel_def running_def created_coro_def)
qed

lemma coro_delete_rel:
  assumes "sched_rel cl s" and "c \<notin> set cl" and "coros s c = Some co"
  shows "coro_delete c s = Some (s\<lparr>coros := (coros s)(c := None)\<rparr>)"
    and "sched_rel cl (s\<lparr>coros := (coros s)(c := None)\<rparr>)"
proof -
  show "coro_delete c s = Some (s\<lparr>coros := (coros s)(c := None)\<rparr>)"
    using assms(3) by (simp add: coro_delete_def)
  have "dll next_coro prev_coro ((coros s)(c := None)) None (coro_list s) cl None"
    using assms(1,2) by (simp add: sched_rel_def linked_def link_simps)
  then show "sched_rel cl (s\<lparr>coros := (coros s)(c := None)\<rparr>)"
    using assms(1,2) by (auto simp: sched_rel_def linked_def running_def)
qed

subsection \<open>Programs on the scheduler\<close>

locale cooperative =
  fixes okp :: "'l \<Rightarrow> 'u proc \<Rightarrow> 'u \<Rightarrow> bool"
    and compat :: "addr set \<Rightarrow> (addr \<Rightarrow> 'l) \<Rightarrow> 'u \<Rightarrow> bool"
    and okx :: "int \<Rightarrow> bool"
  assumes slice_safe: "okp l p u \<Longrightarrow> run_slice n p u \<noteq> None"
    and slice_exit: "okp l p u \<Longrightarrow> run_slice n p u = Some (Exited r) \<Longrightarrow> okx r"
    and slice_yield: "compat A C u \<Longrightarrow> c \<in> A \<Longrightarrow> okp (C c) p u \<Longrightarrow> run_slice n p u = Some (Yielded q v) \<Longrightarrow>
      \<exists>l. okp l q v \<and> compat A (C(c := l)) v \<and> (\<forall>d \<in> A - {c}. \<forall>r. okp (C d) r u \<longrightarrow> okp (C d) r v)"
    and slice_return: "compat A C u \<Longrightarrow> c \<in> A \<Longrightarrow> okp (C c) p u \<Longrightarrow> run_slice n p u = Some (Returned r v) \<Longrightarrow>
      compat (A - {c}) C v \<and> (\<forall>d \<in> A - {c}. \<forall>q. okp (C d) q u \<longrightarrow> okp (C d) q v)"
begin

definition ready :: "addr set \<Rightarrow> (addr \<Rightarrow> 'l) \<Rightarrow> 'u sched \<Rightarrow> bool" where
  "ready A C s \<longleftrightarrow> compat A C (user s) \<and>
     (\<forall>c \<in> A. \<exists>co. coros s c = Some co \<and> okp (C c) (ctx co) (user s))"

text \<open>After a pass: a coroutine has finished, or all have yielded, each with less to do.\<close>

definition passed :: "addr list \<Rightarrow> addr \<Rightarrow> 'u sched \<Rightarrow> 'u sched \<Rightarrow> bool" where
  "passed cl c s t \<longleftrightarrow> (\<exists>C.
     running (set cl) t \<and> ready (set cl) C t \<and>
       (\<exists>p q. map_option ctx (coros s c) = Some p \<and> map_option ctx (coros t c) = Some q \<and> later q p) \<or>
     (\<exists>d \<in> set cl. running (set cl - {d}) t \<and> map_option is_finished (coros t d) = Some True \<and>
       ready (set cl - {d}) C t))"

lemma body_step:
  assumes links: "linked (xs @ c # ys) s" and run: "running (set (xs @ c # ys)) s"
    and wait: "is_sched_waiting s" and rdy: "ready (set (xs @ c # ys)) C s"
  obtains (exits) n where "coro_body c s = Some (Inl n)" "okx n"
  | (finishes) t where "coro_body c s = Some (Inr t)" "linked (xs @ c # ys) t" "is_sched_waiting t"
      "map_option is_finished (coros t c) = Some True" "running (set (xs @ c # ys) - {c}) t"
      "ready (set (xs @ c # ys) - {c}) C t" "\<And>a. a \<noteq> c \<Longrightarrow> coros t a = coros s a"
  | (yields) t C' p q where
      "coro_body c s = (case first_ptr ys None of None \<Rightarrow> Some (Inr t) | Some d \<Rightarrow> coro_body d t)"
      "linked (xs @ c # ys) t" "is_sched_waiting t" "running (set (xs @ c # ys)) t"
      "ready (set (xs @ c # ys)) C' t" "\<And>a. a \<noteq> c \<Longrightarrow> coros t a = coros s a"
      "map_option ctx (coros s c) = Some p" "map_option ctx (coros t c) = Some q" "later q p"
proof -
  let ?A = "set (xs @ c # ys)"
  have cA: "c \<in> ?A" by simp
  have dll: "dll next_coro prev_coro (coros s) None (coro_list s) (xs @ c # ys) None"
    using links by (simp add: linked_def)
  obtain co where co: "coros s c = Some co" "next_coro co = first_ptr ys None"
    by (rule dll_node [OF dll])
  have okc: "okp (C c) (ctx co) (user s)" and comp: "compat ?A C (user s)"
    using rdy cA co(1) unfolding ready_def by auto
  obtain x where x: "run_slice (switch_count co) (ctx co) (user s) = Some x" using slice_safe [OF okc] by blast
  show thesis
  proof (cases x)
    case (Returned r v)
    note Returned = x [unfolded Returned]
    let ?t = "s\<lparr>coro_this_ptr := Coro c, user := v,
      coros := (coros s)(c \<mapsto> co\<lparr>ret := r, is_finished := True\<rparr>)\<rparr>"
    have body: "coro_body c s = Some (Inr ?t)"
      using co(1) wait Returned by (simp add: coro_body.simps [of c s] upd_coro_def)
    have l: "linked (xs @ c # ys) ?t"
      by (rule linked_upd [OF links co(1), of "co\<lparr>ret := r, is_finished := True\<rparr>"]) simp_all
    have ru: "running (?A - {c}) ?t" using run by (auto simp: running_def)
    note ret = slice_return [OF comp cA okc Returned]
    have rd: "ready (?A - {c}) C ?t" using rdy ret unfolding ready_def by fastforce
    show thesis by (rule finishes [OF body l _ _ ru rd]) (use wait in simp_all)
  next
    case (Exited n)
    note Exited = x [unfolded Exited]
    then have "coro_body c s = Some (Inl n)" using co(1) by (simp add: coro_body.simps [of c s])
    then show thesis using slice_exit [OF okc Exited] by (rule exits)
  next
    case (Yielded q v)
    note Yielded = x [unfolded Yielded]
    let ?co = "co\<lparr>switch_count := switch_count co + 1, ctx := q\<rparr>"
    let ?t = "s\<lparr>coro_this_ptr := Coro c, user := v, coros := (coros s)(c \<mapsto> ?co)\<rparr>"
    have body: "coro_body c s = (case first_ptr ys None of None \<Rightarrow> Some (Inr ?t) | Some d \<Rightarrow> coro_body d ?t)"
      using co wait Yielded
      by (simp add: coro_body.simps [of c s] upd_coro_def coro_yield_def split: option.split)
    have l: "linked (xs @ c # ys) ?t" by (rule linked_upd [OF links co(1), of ?co]) simp_all
    have ru: "running ?A ?t" using run co(1) unfolding running_def by auto
    obtain l' where l': "okp l' q v" "compat ?A (C(c := l')) v"
      "\<And>d r. d \<in> ?A - {c} \<Longrightarrow> okp (C d) r (user s) \<Longrightarrow> okp (C d) r v"
      using slice_yield [OF comp cA okc Yielded] by blast
    have "\<exists>ca. coros ?t d = Some ca \<and> okp ((C(c := l')) d) (ctx ca) v" if "d \<in> ?A" for d
    proof (cases "d = c")
      case False
      with that rdy obtain ca where "coros s d = Some ca" "okp (C d) (ctx ca) (user s)"
        unfolding ready_def by blast
      with that False l'(3) show ?thesis by auto
    qed (use l'(1) in simp)
    with l'(2) have rd: "ready ?A (C(c := l')) ?t" unfolding ready_def by simp
    show thesis
      by (rule yields [OF body l _ ru rd, of "ctx co" q])
        (use wait co(1) later_slice [OF Yielded] in simp_all)
  qed
qed

lemma body_passed:
  "linked (xs @ c # ys) s \<Longrightarrow> running (set (xs @ c # ys)) s \<Longrightarrow> is_sched_waiting s \<Longrightarrow>
   ready (set (xs @ c # ys)) C s \<Longrightarrow>
   \<exists>r. coro_body c s = Some r \<and> (case r of Inl n \<Rightarrow> okx n
     | Inr t \<Rightarrow> linked (xs @ c # ys) t \<and> is_sched_waiting t \<and> passed (xs @ c # ys) c s t \<and>
         (\<forall>a \<in> set xs. coros t a = coros s a))"
proof (induction ys arbitrary: xs c s C)
  case Nil
  let ?cl = "xs @ [c]"
  have new: "c \<notin> set xs"
    using Nil.prems(1) dll_distinct [of next_coro prev_coro "coros s" None "coro_list s" ?cl]
    by (simp add: linked_def)
  from Nil.prems show ?case
  proof (cases rule: body_step)
    case (exits n)
    then show ?thesis by simp
  next
    case (finishes t)
    then have "passed ?cl c s t" unfolding passed_def by (intro exI [of _ C]) auto
    moreover have "\<forall>a \<in> set xs. coros t a = coros s a" using finishes(7) new by metis
    ultimately show ?thesis using finishes(1-3) by simp
  next
    case (yields t C' p q)
    then have "passed ?cl c s t" unfolding passed_def by (intro exI [of _ C']) blast
    moreover have "\<forall>a \<in> set xs. coros t a = coros s a" using yields(6) new by metis
    ultimately show ?thesis using yields(1-3) by simp
  qed
next
  case (Cons d ys)
  let ?cl = "xs @ c # d # ys"
  have "distinct ?cl"
    using Cons.prems(1) dll_distinct [of next_coro prev_coro "coros s" None "coro_list s" ?cl]
    by (simp add: linked_def)
  then have new: "c \<notin> set xs" by simp
  from Cons.prems show ?case
  proof (cases rule: body_step)
    case (exits n)
    then show ?thesis by simp
  next
    case (finishes t)
    then have "passed ?cl c s t" unfolding passed_def by (intro exI [of _ C]) auto
    moreover have "\<forall>a \<in> set xs. coros t a = coros s a" using finishes(7) new by metis
    ultimately show ?thesis using finishes(1-3) by simp
  next
    case (yields t C' p q)
    have eq: "xs @ c # d # ys = (xs @ [c]) @ d # ys" by simp
    obtain r where r: "coro_body d t = Some r"
      "case r of Inl n \<Rightarrow> okx n
       | Inr u \<Rightarrow> linked ?cl u \<and> is_sched_waiting u \<and> passed ?cl d t u \<and> (\<forall>a \<in> set (xs @ [c]). coros u a = coros t a)"
      using Cons.IH [of "xs @ [c]" d t C'] yields(2-5) unfolding eq by blast
    have body: "coro_body c s = Some r" using yields(1) r(1) by simp
    show ?thesis
    proof (cases r)
      case (Inl n)
      with r(2) body show ?thesis by simp
    next
      case (Inr u)
      with r(2) have u: "linked ?cl u" "is_sched_waiting u" "passed ?cl d t u"
        "\<forall>a \<in> set (xs @ [c]). coros u a = coros t a" by simp_all
      have "map_option ctx (coros u c) = Some q" using u(4) yields(8) by simp
      with u(3) yields(7,9) have "passed ?cl c s u" unfolding passed_def by blast
      moreover have "coros u a = coros s a" if "a \<in> set xs" for a
        using u(4) yields(6) [of a] that new by auto
      ultimately show ?thesis using body u(1,2) Inr by simp
    qed
  qed
qed

text \<open>The scheduler waits for a coroutine to finish, takes it off the list and returns it.\<close>

lemma finished_list:
  assumes "linked (xs @ c # ys) s" and "running (set (xs @ c # ys) - {c}) s"
    and "map_option is_finished (coros s c) = Some True" and "\<not> is_sched_waiting s" and "coro_this_ptr s = Sched"
  shows "\<exists>t. coro_sched_wait s = Some (Inr (Some c, t)) \<and> sched_rel (xs @ ys) t \<and> same_coros s t"
proof -
  have dll: "dll next_coro prev_coro (coros s) None (coro_list s) (xs @ c # ys) None"
    using assms(1) by (simp add: linked_def)
  from dll_distinct [OF dll] have dist: "c \<notin> set xs" "c \<notin> set ys" by auto
  obtain h where h: "coro_list s = Some h" using dll by (cases xs) auto
  have "running (set xs) s" using assms(2) dist unfolding running_def by auto
  from find_finished_some [OF dll this assms(3)] have found: "find_finished (Some h) s = Some (Some c)"
    by (simp add: h)
  obtain t where t: "coro_list_delete c s = Some t" "linked (xs @ ys) t" "same_coros s t"
    using coro_list_delete_links [OF assms(1)] by blast
  have "running (set (xs @ ys)) t"
    unfolding running_def
  proof
    fix a assume "a \<in> set (xs @ ys)"
    then have "a \<in> set (xs @ c # ys) - {c}" using dist by auto
    then obtain co where "coros s a = Some co" "\<not> is_finished co" using assms(2) unfolding running_def by blast
    then have "map_option is_finished (coros t a) = Some False" using t(3) by (simp add: same_coros_def)
    then show "\<exists>co. coros t a = Some co \<and> \<not> is_finished co" by auto
  qed
  with t assms(4,5) have "sched_rel (xs @ ys) t" by (simp add: sched_rel_def same_coros_def)
  with t(1,3) found h show ?thesis by (simp add: coro_sched_wait.simps [of s])
qed

lemma same_ready: "same_coros s t \<Longrightarrow> ready A C s \<Longrightarrow> ready A C t"
proof -
  assume same: "same_coros s t" and rdy: "ready A C s"
  have "\<exists>co. coros t c = Some co \<and> okp (C c) (ctx co) (user t)" if "c \<in> A" for c
  proof -
    from rdy that obtain co where "coros s c = Some co" "okp (C c) (ctx co) (user s)"
      unfolding ready_def by blast
    moreover from this same have "map_option ctx (coros t c) = Some (ctx co)" by (simp add: same_coros_def)
    ultimately show ?thesis using same by (auto simp: same_coros_def)
  qed
  with same rdy show ?thesis by (simp add: ready_def same_coros_def)
qed

text \<open>One pass over the list, from the jump to its head until control is back.\<close>

lemma list_pass:
  assumes rel: "sched_rel (h # cl) s" and rdy: "ready (set (h # cl)) C s"
  defines "w \<equiv> s\<lparr>is_sched_waiting := True, sched_switch_count := sched_switch_count s + 1\<rparr>"
  shows "coro_list s = Some h" and "find_finished (Some h) s = Some None"
    and "count_sched_switch (s\<lparr>is_sched_waiting := True\<rparr>) = Some w"
    and "\<exists>r. coro_body h w = Some r \<and> (case r of Inl n \<Rightarrow> okx n
      | Inr t \<Rightarrow> linked (h # cl) t \<and> passed (h # cl) h w t)"
proof -
  have links: "linked (h # cl) s" "running (set (h # cl)) s" "coro_this_ptr s = Sched"
    using rel by (simp_all add: sched_rel_def)
  then have dll: "dll next_coro prev_coro (coros s) None (coro_list s) (h # cl) None" by (simp add: linked_def)
  then show h: "coro_list s = Some h" by simp
  show "find_finished (Some h) s = Some None"
    using find_finished_none [OF dll links(2)] h by simp
  show "count_sched_switch (s\<lparr>is_sched_waiting := True\<rparr>) = Some w"
    using links(3) by (simp add: count_sched_switch_def w_def)
  have "linked ([] @ h # cl) w" "running (set ([] @ h # cl)) w" "is_sched_waiting w" "ready (set ([] @ h # cl)) C w"
    using links rdy by (simp_all add: linked_def running_def ready_def w_def)
  from body_passed [OF this] show "\<exists>r. coro_body h w = Some r \<and> (case r of Inl n \<Rightarrow> okx n
      | Inr t \<Rightarrow> linked (h # cl) t \<and> passed (h # cl) h w t)"
    unfolding append_Nil by (auto split: sum.splits)
qed

text \<open>
  One pass of the scheduler: with a finished coroutine at hand it returns it; when all have
  yielded it goes on from a state like the one before.
\<close>

lemma wait_pass:
  assumes rel: "sched_rel (h # cl) s" and rdy: "ready (set (h # cl)) C s"
  obtains (exits) n where "coro_sched_wait s = Some (Inl n)" "okx n"
  | (returns) c t C' where "coro_sched_wait s = Some (Inr (Some c, t))" "c \<in> set (h # cl)"
      "sched_rel (remove1 c (h # cl)) t" "map_option is_finished (coros t c) = Some True"
      "ready (set (h # cl) - {c}) C' t"
  | (again) t C' p q where "coro_sched_wait s = coro_sched_wait t" "sched_rel (h # cl) t"
      "ready (set (h # cl)) C' t" "map_option ctx (coros s h) = Some p" "map_option ctx (coros t h) = Some q"
      "later q p"
proof -
  let ?cl = "h # cl"
  let ?s = "s\<lparr>is_sched_waiting := True, sched_switch_count := sched_switch_count s + 1\<rparr>"
  note h = list_pass(1) [OF rel rdy] and none = list_pass(2) [OF rel rdy] and count = list_pass(3) [OF rel rdy]
  obtain r where r: "coro_body h ?s = Some r"
    "case r of Inl n \<Rightarrow> okx n | Inr t \<Rightarrow> linked ?cl t \<and> passed ?cl h ?s t"
    using list_pass(4) [OF rel rdy] by blast
  show thesis
  proof (cases r)
    case (Inl n)
    with r none h count have "coro_sched_wait s = Some (Inl n)" "okx n"
      by (simp_all add: coro_sched_wait.simps [of s])
    then show thesis by (rule exits)
  next
    case (Inr u)
    let ?t = "u\<lparr>coro_this_ptr := Sched, is_sched_waiting := False\<rparr>"
    have eq: "coro_sched_wait s = coro_sched_wait ?t"
      using r(1) none h count Inr by (simp add: coro_sched_wait.simps [of s])
    have u: "linked ?cl ?t" "\<not> is_sched_waiting ?t" "coro_this_ptr ?t = Sched" "passed ?cl h ?s u"
      using r(2) Inr by (simp_all add: linked_def)
    from u(4) obtain C' where "running (set ?cl) u \<and> ready (set ?cl) C' u \<and>
        (\<exists>p q. map_option ctx (coros ?s h) = Some p \<and> map_option ctx (coros u h) = Some q \<and> later q p) \<or>
      (\<exists>d \<in> set ?cl. running (set ?cl - {d}) u \<and> map_option is_finished (coros u d) = Some True \<and>
        ready (set ?cl - {d}) C' u)"
      unfolding passed_def by blast
    then consider (all) p q where "running (set ?cl) ?t" "ready (set ?cl) C' ?t"
        "map_option ctx (coros s h) = Some p" "map_option ctx (coros ?t h) = Some q" "later q p"
      | (one) d where "d \<in> set ?cl" "running (set ?cl - {d}) ?t"
        "map_option is_finished (coros ?t d) = Some True" "ready (set ?cl - {d}) C' ?t"
      unfolding running_def ready_def by (auto simp del: list.set)
    then show thesis
    proof cases
      case all
      have "sched_rel ?cl ?t" using u(1-3) all(1) by (simp add: sched_rel_def)
      from again [OF eq this all(2-5)] show thesis .
    next
      case one
      then obtain xs ys where split: "?cl = xs @ d # ys" "d \<notin> set xs" by (meson split_list_first)
      have "running (set (xs @ d # ys) - {d}) ?t" "linked (xs @ d # ys) ?t"
        using one(2) u(1) unfolding split(1) by blast+
      from finished_list [OF this(2,1) one(3) u(2,3)] obtain t where
        t: "coro_sched_wait ?t = Some (Inr (Some d, t))" "sched_rel (xs @ ys) t" "same_coros ?t t" by blast
      have rem: "remove1 d ?cl = xs @ ys" unfolding split(1) using split(2) by (simp add: remove1_append)
      have fin: "map_option is_finished (coros t d) = Some True"
        using t(3) one(3) by (simp add: same_coros_def)
      have "coro_sched_wait s = Some (Inr (Some d, t))" unfolding eq by (rule t(1))
      from returns [OF this one(1) _ fin same_ready [OF t(3) one(4)]] rem t(2) show thesis by simp
    qed
  qed
qed

lemma wait_empty: "sched_rel [] s \<Longrightarrow> coro_sched_wait s = Some (Inr (None, s))"
  by (simp add: sched_rel_def linked_def coro_sched_wait.simps [of s])

end

subsection \<open>Programs whose coroutines end\<close>

text \<open>Then the scheduler always returns: each pass leaves the first coroutine with less to do.\<close>

locale finishing = cooperative okp compat okx
  for okp :: "'l \<Rightarrow> 'u proc \<Rightarrow> 'u \<Rightarrow> bool"
    and compat :: "addr set \<Rightarrow> (addr \<Rightarrow> 'l) \<Rightarrow> 'u \<Rightarrow> bool"
    and okx :: "int \<Rightarrow> bool" +
  assumes okp_ends: "okp l p u \<Longrightarrow> ends p"
begin

lemma wait_returns:
  assumes "sched_rel (h # cl) s" and "ready (set (h # cl)) C s"
  shows "\<exists>r. coro_sched_wait s = Some r \<and> (case r of Inl n \<Rightarrow> okx n
    | Inr (q, t) \<Rightarrow> \<exists>c C'. q = Some c \<and> c \<in> set (h # cl) \<and> sched_rel (remove1 c (h # cl)) t \<and>
        map_option is_finished (coros t c) = Some True \<and> ready (set (h # cl) - {c}) C' t)"
proof -
  from assms(2) obtain co where co: "coros s h = Some co" "okp (C h) (ctx co) (user s)"
    unfolding ready_def by auto
  have "Wellfounded.accp later (ctx co)" by (rule ends_acc [OF okp_ends [OF co(2)]])
  moreover have "map_option ctx (coros s h) = Some (ctx co)" using co(1) by simp
  ultimately show ?thesis using assms
  proof (induction "ctx co" arbitrary: co s C rule: accp_induct_rule)
    case (1 co s C)
    from "1.prems"(2,3) show ?case
    proof (cases rule: wait_pass)
      case (exits n)
      then show ?thesis by simp
    next
      case (returns c t C')
      then show ?thesis by auto
    next
      case (again t C' p q)
      then obtain d where d: "coros t h = Some d" "ctx d = q" by auto
      have "p = ctx co" using again(4) "1.prems"(1) by simp
      with again(6) d have "later (ctx d) (ctx co)" by simp
      moreover have "map_option ctx (coros t h) = Some (ctx d)" using d by simp
      ultimately show ?thesis unfolding again(1) using "1.hyps"(2) again(2,3) by blast
    qed
  qed
qed

end

end
