(* ===== verification/SortSafe.thy ===== *)
theory SortSafe
  imports SortProgram SortHeap CoroSched
begin

section \<open>The external sort: a coroutine between two yields\<close>

text \<open>
  What a coroutine may rely on while others run, and what it guarantees to them. A
  coroutine claims the file it works on: nobody else touches the array of that file. It
  takes a file by raising \<open>file_to_sort_idx\<close>, and gives its claim up when the array is
  sorted. \<open>safe\<close> says of the rest of the code of a coroutine that every action respects
  this; the rules below show it for the functions of the program, with what they compute.
\<close>

subsection \<open>Files of numbers\<close>

definition file_numbers :: "string \<Rightarrow> int list option" where
  "file_numbers text = do {
     n \<leftarrow> count_numbers text False 0;
     cells \<leftarrow> read_numbers n text;
     those cells }"

text \<open>Indices of the heap must fit \<open>int\<close>.\<close>

definition readable :: "string \<Rightarrow> bool" where
  "readable text \<longleftrightarrow> (case file_numbers text of None \<Rightarrow> False | Some xs \<Rightarrow> 2 * int (length xs) \<le> int_max)"

definition good_input :: "world \<Rightarrow> string list \<Rightarrow> bool" where
  "good_input w fs \<longleftrightarrow> list_all (\<lambda>name. case contents w name of None \<Rightarrow> True | Some text \<Rightarrow> readable text) fs"

lemma length_read_numbers: "read_numbers n s = Some cells \<Longrightarrow> length cells = n"
  by (induction n arbitrary: s cells) (auto split: bind_splits)

lemma those_Some: "those cells = Some xs \<Longrightarrow> cells = map Some xs"
  by (induction cells arbitrary: xs) (auto split: option.splits)

lemma readableE:
  assumes "readable text"
  obtains xs where "count_numbers text False 0 = Some (length xs)"
    "read_numbers (length xs) text = Some (map Some xs)" "file_numbers text = Some xs"
    "2 * int (length xs) \<le> int_max"
proof -
  from assms obtain xs where xs: "file_numbers text = Some xs" "2 * int (length xs) \<le> int_max"
    by (auto simp: readable_def split: option.splits)
  then obtain n cells where c: "count_numbers text False 0 = Some n" "read_numbers n text = Some cells"
    "those cells = Some xs" by (auto simp: file_numbers_def split: bind_splits)
  have "cells = map Some xs" by (rule those_Some [OF c(3)])
  then show thesis using that [of xs] c xs length_read_numbers [OF c(2)] by simp
qed

subsection \<open>Rely and guarantee\<close>

definition well_formed :: "string list \<Rightarrow> nat \<Rightarrow> prog \<Rightarrow> bool" where
  "well_formed fs n u \<longleftrightarrow>
     file_to_sort_idx u \<le> length fs \<and> length (sorted_arrays u) = length fs \<and>
     length (sorted_arrays_sizes u) = length fs \<and>
     (\<forall>i < n. \<exists>con. context_at u i = Some con \<and> files_count con = length fs \<and> filenames_to_sort con = fs)"

definition file_done :: "world \<Rightarrow> string list \<Rightarrow> nat \<Rightarrow> prog \<Rightarrow> bool" where
  "file_done w fs f u \<longleftrightarrow> (\<exists>text xs. contents w (fs ! f) = Some text \<and> file_numbers text = Some xs \<and>
     sorted_arrays u ! f = Some (map Some (sort xs)) \<and> sorted_arrays_sizes u ! f = Some (length xs))"

definition same_array :: "nat \<Rightarrow> prog \<Rightarrow> prog \<Rightarrow> bool" where
  "same_array f u v \<longleftrightarrow>
     sorted_arrays v ! f = sorted_arrays u ! f \<and> sorted_arrays_sizes v ! f = sorted_arrays_sizes u ! f"

definition rely :: "string list \<Rightarrow> nat \<Rightarrow> nat option \<Rightarrow> prog \<Rightarrow> prog \<Rightarrow> bool" where
  "rely fs n l u v \<longleftrightarrow> well_formed fs n v \<and> file_to_sort_idx u \<le> file_to_sort_idx v \<and>
     (\<forall>f. l = Some f \<longrightarrow> same_array f u v)"

definition guar :: "world \<Rightarrow> string list \<Rightarrow> nat \<Rightarrow> nat option \<Rightarrow> prog \<Rightarrow> nat option \<Rightarrow> prog \<Rightarrow> bool" where
  "guar w fs n l u l' v \<longleftrightarrow> well_formed fs n v \<and> file_to_sort_idx u \<le> file_to_sort_idx v \<and>
     (\<forall>f < file_to_sort_idx u. l \<noteq> Some f \<longrightarrow> same_array f u v) \<and>
     (\<forall>f. l' = Some f \<longrightarrow> f < file_to_sort_idx v \<and> (l = Some f \<or> file_to_sort_idx u \<le> f)) \<and>
     (\<forall>f < file_to_sort_idx v. l = Some f \<or> file_to_sort_idx u \<le> f \<longrightarrow> l' = Some f \<or> file_done w fs f v)"

lemma same_array_done: "same_array f u v \<Longrightarrow> file_done w fs f u \<Longrightarrow> file_done w fs f v"
  by (simp add: same_array_def file_done_def)

lemma same_array_trans: "same_array f u v \<Longrightarrow> same_array f v w \<Longrightarrow> same_array f u w"
  by (simp add: same_array_def)

lemma rely_trans: "rely fs n l u v \<Longrightarrow> rely fs n l v x \<Longrightarrow> rely fs n l u x"
  by (auto simp: rely_def intro: same_array_trans)

lemma rely_refl: "well_formed fs n u \<Longrightarrow> rely fs n l u u"
  by (simp add: rely_def same_array_def)

lemma guar_trans:
  assumes g: "guar w fs n l u l' v" and h: "guar w fs n l' v l'' x"
  shows "guar w fs n l u l'' x"
  unfolding guar_def
proof (intro conjI allI impI)
  show "well_formed fs n x" using h by (simp add: guar_def)
  show up: "file_to_sort_idx u \<le> file_to_sort_idx x" using g h by (simp add: guar_def)
  { fix f assume f: "f < file_to_sort_idx u" "l \<noteq> Some f"
    then have uv: "same_array f u v" using g by (simp add: guar_def)
    have "l' \<noteq> Some f" using g f by (auto simp: guar_def)
    moreover have "f < file_to_sort_idx v" using g f(1) by (simp add: guar_def)
    ultimately have "same_array f v x" using h by (simp add: guar_def)
    with uv show "same_array f u x" by (rule same_array_trans) }
  { fix f assume f: "l'' = Some f"
    then show "f < file_to_sort_idx x" using h by (simp add: guar_def)
    from f h have "l' = Some f \<or> file_to_sort_idx v \<le> f" by (simp add: guar_def)
    then show "l = Some f \<or> file_to_sort_idx u \<le> f" using g by (auto simp: guar_def) }
  { fix f assume f: "f < file_to_sort_idx x" "l = Some f \<or> file_to_sort_idx u \<le> f"
    show "l'' = Some f \<or> file_done w fs f x"
    proof (cases "l' = Some f \<or> file_to_sort_idx v \<le> f")
      case True
      with h f(1) show ?thesis unfolding guar_def by blast
    next
      case False
      then have "f < file_to_sort_idx v" "l' \<noteq> Some f" by simp_all
      with g f(2) have "file_done w fs f v" by (auto simp: guar_def)
      moreover have "same_array f v x" using h False by (simp add: guar_def)
      ultimately show ?thesis by (simp add: same_array_done)
    qed }
qed

subsection \<open>Safe code\<close>

inductive safe :: "world \<Rightarrow> string list \<Rightarrow> nat \<Rightarrow> code \<Rightarrow> nat option \<Rightarrow> prog \<Rightarrow> bool" for w fs n where
  safe_Return: "file_to_sort_idx u = length fs \<Longrightarrow> safe w fs n (Return r) None u"
| safe_Exit: "\<exists>name \<in> set fs. contents w name = None \<Longrightarrow> safe w fs n (Exit (-1)) l u"
| safe_Act: "guar w fs n l u l' (f u) \<Longrightarrow> safe w fs n (g u) l' (f u) \<Longrightarrow> safe w fs n (Act f g) l u"
| safe_Switches: "(\<And>m. safe w fs n (g m) l u) \<Longrightarrow> safe w fs n (Switches g) l u"
| safe_Yield: "(\<And>v. rely fs n l u v \<Longrightarrow> safe w fs n p l v) \<Longrightarrow> safe w fs n (Yield p) l u"

inductive_simps safe_simps [simp]:
  "safe w fs n (Return r) l u" "safe w fs n (Exit r) l u" "safe w fs n Fail l u"
  "safe w fs n (Act f g) l u" "safe w fs n (Switches h) l u" "safe w fs n (Yield p) l u"

text \<open>A slice of safe code: how it ends, and the guarantee for the whole slice.\<close>

definition slice_ok :: "world \<Rightarrow> string list \<Rightarrow> nat \<Rightarrow> nat option \<Rightarrow> prog \<Rightarrow> prog stop \<Rightarrow> bool" where
  "slice_ok w fs n l u r \<longleftrightarrow> (case r of
       Exited m \<Rightarrow> m = -1 \<and> (\<exists>name \<in> set fs. contents w name = None)
     | Returned m v \<Rightarrow> guar w fs n l u None v \<and> file_to_sort_idx v = length fs
     | Yielded q v \<Rightarrow> \<exists>l'. guar w fs n l u l' v \<and> (\<forall>x. rely fs n l' v x \<longrightarrow> safe w fs n q l' x))"

lemma slice_ok_trans: "guar w fs n l u l' v \<Longrightarrow> slice_ok w fs n l' v r \<Longrightarrow> slice_ok w fs n l u r"
  by (auto simp: slice_ok_def split: stop.splits intro: guar_trans)

lemma guar_refl:
  "well_formed fs n u \<Longrightarrow> (\<And>f. l = Some f \<Longrightarrow> f < file_to_sort_idx u) \<Longrightarrow> guar w fs n l u l u"
  by (simp add: guar_def same_array_def)

lemma guar_claim: "guar w fs n l u l' v \<Longrightarrow> well_formed fs n v \<and> (\<forall>f. l' = Some f \<longrightarrow> f < file_to_sort_idx v)"
  by (simp add: guar_def)

lemma safe_slice:
  assumes "safe w fs n p l u" and "well_formed fs n u" and "\<forall>f. l = Some f \<longrightarrow> f < file_to_sort_idx u"
  shows "\<exists>r. run_slice m p u = Some r \<and> slice_ok w fs n l u r"
  using assms
proof (induction rule: safe.induct)
  case (safe_Act l u l' f g)
  have "\<exists>r. run_slice m (g u) (f u) = Some r \<and> slice_ok w fs n l' (f u) r"
    using guar_claim [OF safe_Act.hyps(1)] by (intro safe_Act.IH) auto
  then show ?case using slice_ok_trans [OF safe_Act.hyps(1)] by auto
next
  case (safe_Yield l u p)
  then have "guar w fs n l u l u" by (intro guar_refl) auto
  with safe_Yield.hyps show ?case unfolding slice_ok_def by (simp, intro exI [of _ l]) simp
qed (auto simp: slice_ok_def intro!: guar_refl)

subsection \<open>What a coroutine knows of its array\<close>

text \<open>At least \<open>m\<close> files have been taken, and the claimed file has this array and this size.\<close>

definition holds :: "string list \<Rightarrow> nat \<Rightarrow> nat \<Rightarrow> nat option \<Rightarrow> int option list option \<times> nat option \<Rightarrow> prog \<Rightarrow> bool" where
  "holds fs n m l A u \<longleftrightarrow> well_formed fs n u \<and> m \<le> file_to_sort_idx u \<and>
     (\<forall>f. l = Some f \<longrightarrow> f < file_to_sort_idx u \<and> sorted_arrays u ! f = fst A \<and> sorted_arrays_sizes u ! f = snd A)"

abbreviation ints :: "int list \<Rightarrow> int option list option \<times> nat option" where
  "ints a \<equiv> (Some (map Some a), Some (length a))"

lemma holds_rely: "holds fs n m l A u \<Longrightarrow> rely fs n l u v \<Longrightarrow> holds fs n m l A v"
  by (auto simp: holds_def rely_def same_array_def)

lemma holds_guar: "holds fs n m l A u \<Longrightarrow> guar w fs n l u l u"
  by (rule guar_refl) (simp_all add: holds_def)

text \<open>An action that changes only the contexts, the clock and the claimed array.\<close>

lemma own_guar:
  assumes "holds fs n m l A u" "holds fs n m l B v" "file_to_sort_idx v = file_to_sort_idx u"
    and "\<And>f. l \<noteq> Some f \<Longrightarrow> same_array f u v"
  shows "guar w fs n l u l v"
  using assms by (auto simp: holds_def guar_def)

lemma safe_get_now:
  assumes "holds fs n m l A u" and "\<And>v t. holds fs n m l A v \<Longrightarrow> safe w fs n (k t) l v"
  shows "safe w fs n (get_now w k) l u"
proof -
  let ?v = "u\<lparr>ticks := Suc (ticks u)\<rparr>"
  have h: "holds fs n m l A ?v" using assms(1) by (simp add: holds_def well_formed_def context_at_def)
  have "guar w fs n l u l ?v" by (rule own_guar [OF assms(1) h]) (simp_all add: same_array_def)
  with assms(2) [OF h] show ?thesis by (auto simp: get_now_def)
qed

lemma safe_get_context:
  assumes "holds fs n m l A u" and "i < n"
    and "\<And>con. files_count con = length fs \<Longrightarrow> filenames_to_sort con = fs \<Longrightarrow> safe w fs n (k con) l u"
  shows "safe w fs n (get_context i k) l u"
proof -
  obtain con where con: "context_at u i = Some con" "files_count con = length fs" "filenames_to_sort con = fs"
    using assms(1,2) by (auto simp: holds_def well_formed_def)
  with assms(3) holds_guar [OF assms(1)] show ?thesis by (auto simp: get_context_def)
qed

lemma context_at_upd:
  "context_at u i = Some con \<Longrightarrow>
   context_at (u\<lparr>contexts := (contexts u)[i := c]\<rparr>) j = (if j = i then c else context_at u j)"
  by (auto simp: context_at_def at_def nth_list_update split: if_splits)

lemma safe_upd_context:
  assumes "holds fs n m l A u" and "i < n"
    and g: "\<And>con. files_count (g con) = files_count con \<and> filenames_to_sort (g con) = filenames_to_sort con"
    and "\<And>v. holds fs n m l A v \<Longrightarrow> safe w fs n k l v"
  shows "safe w fs n (upd_context i g k) l u"
proof -
  obtain con where con: "context_at u i = Some con" "files_count con = length fs" "filenames_to_sort con = fs"
    using assms(1,2) by (auto simp: holds_def well_formed_def)
  let ?v = "u\<lparr>contexts := (contexts u)[i := map_option g (context_at u i)]\<rparr>"
  have h: "holds fs n m l A ?v"
    using assms(1) con g by (simp add: holds_def well_formed_def context_at_upd [OF con(1)])
  have "guar w fs n l u l ?v" by (rule own_guar [OF assms(1) h]) (simp_all add: same_array_def)
  with assms(4) [OF h] con show ?thesis by (auto simp: upd_context_def)
qed

lemma safe_yield_if:
  assumes "holds fs n m l A u" and "i < n" and k: "\<And>v start. holds fs n m l A v \<Longrightarrow> safe w fs n (k start) l v"
  shows "safe w fs n (yield_if_necessary_record_work_time w i start quantum k) l u"
proof -
  have "safe w fs n (Yield (get_now w k)) l v" if "holds fs n m l A v" for v
    using holds_rely [OF that] by (auto intro: safe_get_now [where A = A and m = m] k)
  then show ?thesis
    unfolding yield_if_necessary_record_work_time_def Let_def
    by (intro safe_get_now [OF assms(1)]) (auto intro: safe_upd_context [OF _ assms(2)] k)
qed

lemma holds_array:
  assumes "holds fs n m (Some f) (Some cells, z) u"
  shows "f < length (sorted_arrays u)" "sorted_arrays u ! f = Some cells"
  using assms by (auto simp: holds_def well_formed_def)

lemma safe_array_get:
  assumes "holds fs n m (Some f) (ints a) u" and "j < length a" and "safe w fs n (k (a ! j)) (Some f) u"
  shows "safe w fs n (array_get f j k) (Some f) u"
proof -
  note arr = holds_array [OF assms(1)]
  then have "array_elem (sorted_arrays u) f j = Some (a ! j)" using assms(2) by (simp add: array_elem_def)
  with assms(3) holds_guar [OF assms(1)] show ?thesis by (auto simp: array_get_def)
qed

text \<open>A store to the claimed array or its size.\<close>

lemma holds_store:
  assumes "holds fs n m (Some f) A u"
  shows "holds fs n m (Some f) (Some cells, snd A) (u\<lparr>sorted_arrays := (sorted_arrays u)[f := Some cells]\<rparr>)"
    and "guar w fs n (Some f) u (Some f) (u\<lparr>sorted_arrays := (sorted_arrays u)[f := Some cells]\<rparr>)"
proof -
  show h: "holds fs n m (Some f) (Some cells, snd A) (u\<lparr>sorted_arrays := (sorted_arrays u)[f := Some cells]\<rparr>)"
    using assms by (auto simp: holds_def well_formed_def context_at_def)
  show "guar w fs n (Some f) u (Some f) (u\<lparr>sorted_arrays := (sorted_arrays u)[f := Some cells]\<rparr>)"
    by (rule own_guar [OF assms h]) (simp_all add: same_array_def)
qed

lemma safe_array_set:
  assumes "holds fs n m (Some f) (ints a) u" and "j < length a"
    and "\<And>v. holds fs n m (Some f) (ints (a[j := x])) v \<Longrightarrow> safe w fs n k (Some f) v"
  shows "safe w fs n (array_set f j x k) (Some f) u"
proof -
  note arr = holds_array [OF assms(1)]
  then have put: "array_put (sorted_arrays u) f j x = Some ((sorted_arrays u)[f := Some (map Some (a[j := x]))])"
    using assms(2) by (simp add: array_put_def map_update)
  have "safe w fs n k (Some f) (u\<lparr>sorted_arrays := (sorted_arrays u)[f := Some (map Some (a[j := x]))]\<rparr>)"
    using holds_store(1) [OF assms(1), of "map Some (a[j := x])"] by (intro assms(3)) simp
  with put holds_store(2) [OF assms(1)] show ?thesis by (auto simp: array_set_def)
qed

lemma safe_swap:
  assumes "holds fs n m (Some f) (ints a) u" and "i < length a" "j < length a"
    and k: "\<And>v. holds fs n m (Some f) (ints (swap a i j)) v \<Longrightarrow> safe w fs n k (Some f) v"
  shows "safe w fs n (swap_elems f i j k) (Some f) u"
proof -
  have "safe w fs n (array_set f j (a ! i) k) (Some f) v" if "holds fs n m (Some f) (ints (a[i := a ! j])) v" for v
    by (rule safe_array_set [OF that]) (use assms(3) k in \<open>simp_all add: swap_def\<close>)
  then show ?thesis
    unfolding swap_elems_def
    by (intro safe_array_get [OF assms(1)] safe_array_set [OF assms(1)] assms(2,3))
qed

subsection \<open>Heap sort with yields\<close>

lemma safe_larger_of:
  assumes h: "holds fs n m (Some f) (ints a) u" and "j < b" "b \<le> length a" "2 * int (length a) \<le> int_max"
    and k: "safe w fs n (k (larger a b j)) (Some f) u"
  shows "safe w fs n (larger_of f b j k) (Some f) u"
proof -
  define lg where "lg = (if 2 * j + 1 < b \<and> a ! (2 * j + 1) > a ! j then 2 * j + 1 else j)"
  have lg: "lg < b" using assms(2) by (simp add: lg_def)
  have lar: "larger a b j = (if 2 * j + 2 < b \<and> a ! (2 * j + 2) > a ! lg then 2 * j + 2 else lg)"
    by (simp add: larger_def lg_def Let_def)
  let ?second = "\<lambda>largest. if 2 * j + 2 < b
      then array_get f (2 * j + 2) (\<lambda>x. array_get f largest (\<lambda>y. k (if y < x then 2 * j + 2 else largest)))
      else k largest"
  have second: "safe w fs n (?second lg) (Some f) u"
    using k lg assms(3) unfolding lar by (auto intro!: safe_array_get [OF h])
  have first: "safe w fs n (if 2 * j + 1 < b
      then array_get f (2 * j + 1) (\<lambda>x. array_get f j (\<lambda>y. ?second (if y < x then 2 * j + 1 else j)))
      else ?second j) (Some f) u"
  proof (cases "2 * j + 1 < b")
    case True
    then have lg_eq: "(if a ! j < a ! (2 * j + 1) then 2 * j + 1 else j) = lg" by (simp add: lg_def)
    have "safe w fs n (?second (if a ! j < a ! (2 * j + 1) then 2 * j + 1 else j)) (Some f) u"
      unfolding lg_eq by (rule second)
    then show ?thesis
      unfolding if_P [OF True] using True assms(2,3) by (intro safe_array_get [OF h]) linarith+
  next
    case False
    then have "lg = j" by (simp add: lg_def)
    with second show ?thesis unfolding if_not_P [OF False] by blast
  qed
  have le: "int (2 * j + 1) \<le> int_max" "int (2 * j + 2) \<le> int_max" using assms(2-4) by simp_all
  show ?thesis
    unfolding larger_of_def int_op_def Let_def if_P [OF le(1)] if_P [OF le(2)] by (rule first)
qed

lemma safe_sift_loop:
  "holds fs n m (Some f) (ints a) u \<Longrightarrow> j < b \<Longrightarrow> b \<le> length a \<Longrightarrow> 2 * int (length a) \<le> int_max \<Longrightarrow>
   b - j < fuel \<Longrightarrow> i < n \<Longrightarrow>
   (\<And>v start. holds fs n m (Some f) (ints (sift a b j)) v \<Longrightarrow> safe w fs n (k start) (Some f) v) \<Longrightarrow>
   safe w fs n (sift_loop fuel w i quantum f b j start k) (Some f) u"
proof (induction fuel arbitrary: a j u start)
  case (Suc fuel)
  let ?m = "larger a b j"
  let ?rest = "\<lambda>largest. if largest = j then k start
     else swap_elems f j largest
       (yield_if_necessary_record_work_time w i start quantum
         (\<lambda>start. sift_loop fuel w i quantum f b largest start k))"
  have "safe w fs n (?rest ?m) (Some f) u"
  proof (cases "?m = j")
    case True
    with Suc.prems(1,7) show ?thesis by (simp add: sift.simps [of a b j])
  next
    case False
    with larger_cases [of a b j] have m: "?m < b" "j < ?m" by auto
    have sift: "sift (swap a j ?m) b ?m = sift a b j" using False by (simp add: sift.simps [of a b j] Let_def)
    have "safe w fs n (sift_loop fuel w i quantum f b ?m start k) (Some f) v"
      if "holds fs n m (Some f) (ints (swap a j ?m)) v" for v start
      by (rule Suc.IH [OF that]) (use m Suc.prems sift in simp_all)
    then have "safe w fs n (yield_if_necessary_record_work_time w i start quantum
         (\<lambda>start. sift_loop fuel w i quantum f b ?m start k)) (Some f) v"
      if "holds fs n m (Some f) (ints (swap a j ?m)) v" for v
      using that Suc.prems(6) by (intro safe_yield_if [OF that])
    then show ?thesis using False m Suc.prems by (simp, intro safe_swap [OF Suc.prems(1)]) simp_all
  qed
  then show ?case using Suc.prems unfolding sift_loop.simps by (intro safe_larger_of) simp_all
qed simp

lemma safe_build_loop:
  "holds fs n m (Some f) (ints a) u \<Longrightarrow> c \<le> length a div 2 \<Longrightarrow> 2 * int (length a) \<le> int_max \<Longrightarrow> i < n \<Longrightarrow>
   (\<And>v start. holds fs n m (Some f) (ints (fold (\<lambda>i a. sift a (length a) i) (rev [0..<c]) a)) v \<Longrightarrow>
      safe w fs n (k start) (Some f) v) \<Longrightarrow>
   safe w fs n (build_loop c w i quantum f (length a) start k) (Some f) u"
proof (induction c arbitrary: a u start)
  case (Suc c)
  have "safe w fs n (build_loop c w i quantum f (length a) start k) (Some f) v"
    if v: "holds fs n m (Some f) (ints (sift a (length a) c)) v" for v start
    using Suc.IH [OF v] Suc.prems(2-5) by simp
  note step = this
  have c: "c < length a" using Suc.prems(2) by simp
  show ?case
    unfolding build_loop.simps
    by (rule safe_sift_loop [OF Suc.prems(1) c order_refl Suc.prems(3) _ Suc.prems(4) step]) simp_all
qed simp

lemma safe_out_loop:
  "holds fs n m (Some f) (ints a) u \<Longrightarrow> c < length a \<Longrightarrow> 2 * int (length a) \<le> int_max \<Longrightarrow> i < n \<Longrightarrow>
   (\<And>v start. holds fs n m (Some f) (ints (fold sift_out (rev [1..<Suc c]) a)) v \<Longrightarrow>
      safe w fs n (k start) (Some f) v) \<Longrightarrow>
   safe w fs n (out_loop c w i quantum f start k) (Some f) u"
proof (induction c arbitrary: a u start)
  case (Suc c)
  let ?b = "swap a 0 (Suc c)"
  have sift: "safe w fs n (out_loop c w i quantum f start k) (Some f) v"
    if v: "holds fs n m (Some f) (ints (sift ?b (Suc c) 0)) v" for v start
    using Suc.IH [OF v] Suc.prems(2-5) by (simp add: sift_out_def)
  have "safe w fs n (sift_loop (Suc (Suc c)) w i quantum f (Suc c) 0 start
      (\<lambda>start. out_loop c w i quantum f start k)) (Some f) v"
    if v: "holds fs n m (Some f) (ints ?b) v" for v
    by (rule safe_sift_loop [OF v]) (use Suc.prems sift in simp_all)
  moreover have "0 < length a" using Suc.prems(2) by linarith
  ultimately show ?case
    unfolding out_loop.simps using Suc.prems(2) by (intro safe_swap [OF Suc.prems(1)])
qed simp

text \<open>However often it yields, \<open>heap_sort\<close> leaves the array sorted.\<close>

lemma safe_heap_sort:
  assumes "holds fs n m (Some f) (ints a) u" and "2 * int (length a) \<le> int_max" and "i < n"
    and k: "\<And>v start. holds fs n m (Some f) (ints (sort a)) v \<Longrightarrow> safe w fs n (k start) (Some f) v"
  shows "safe w fs n (heap_sort w i quantum f (length a) start k) (Some f) u"
proof -
  let ?b = "sift_build a"
  have len: "length ?b = length a" by (metis sift_build_heap(2) size_mset)
  have "safe w fs n (out_loop (length a - 1) w i quantum f start k) (Some f) v"
    if v: "holds fs n m (Some f) (ints ?b) v" for v start
  proof (cases "a = []")
    case True
    with v k show ?thesis by (simp add: sift_build_def)
  next
    case False
    then have "fold sift_out (rev [1..<Suc (length a - 1)]) ?b = sort a"
      using heap_sorted_correct [of a] by (simp add: heap_sorted_def)
    then show ?thesis
      by (intro safe_out_loop [OF v]) (use assms(2,3) k len False in simp_all)
  qed
  then show ?thesis
    unfolding heap_sort_def using assms
    by (intro safe_build_loop [OF assms(1)]) (simp_all add: sift_build_def)
qed

end
