(* ===== verification/SortSched.thy ===== *)
theory SortSched
  imports SortSafe
begin

section \<open>The external sort: all coroutines together\<close>

text \<open>
  The code of a coroutine is safe, the claims of the coroutines fit together, and so the
  interface \<open>cooperative\<close> of the scheduler holds for the program: waiting for all
  coroutines ends, with every file sorted or with \<open>exit(-1)\<close> because a file cannot be
  opened.
\<close>

subsection \<open>One file\<close>

lemma safe_new_array:
  assumes h: "holds fs n m (Some f) A u"
    and k: "\<And>v. holds fs n m (Some f) (Some (replicate len None), Some len) v \<Longrightarrow> safe w fs n p (Some f) v"
  shows "safe w fs n (new_array f len p) (Some f) u"
proof -
  let ?v = "u\<lparr>sorted_arrays := (sorted_arrays u)[f := Some (replicate len None)],
    sorted_arrays_sizes := (sorted_arrays_sizes u)[f := Some len]\<rparr>"
  have f: "f < length (sorted_arrays u)" "f < length (sorted_arrays_sizes u)"
    using h by (auto simp: holds_def well_formed_def)
  have hv: "holds fs n m (Some f) (Some (replicate len None), Some len) ?v"
    using h by (auto simp: holds_def well_formed_def context_at_def)
  have "holds fs n m (Some f) (sorted_arrays ?v ! f, sorted_arrays_sizes ?v ! f) ?v"
    using hv by (simp add: holds_def)
  then have "guar w fs n (Some f) u (Some f) ?v"
    by (rule own_guar [OF h]) (simp_all add: same_array_def)
  with k [OF hv] f show ?thesis by (auto simp: new_array_def)
qed

lemma safe_fill_array:
  assumes h: "holds fs n m (Some f) (Some a, z) u" and "length cells = length a"
    and k: "\<And>v. holds fs n m (Some f) (Some cells, z) v \<Longrightarrow> safe w fs n p (Some f) v"
  shows "safe w fs n (fill_array f cells p) (Some f) u"
proof -
  have "at (sorted_arrays u) f = Some (Some a)" using holds_array [OF h] by simp
  moreover have "safe w fs n p (Some f) (u\<lparr>sorted_arrays := (sorted_arrays u)[f := Some cells]\<rparr>)"
    using holds_store(1) [OF h, of cells] by (intro k) simp
  ultimately show ?thesis using holds_store(2) [OF h] assms(2) by (auto simp: fill_array_def)
qed

lemma safe_sort_file:
  assumes h: "holds fs n m (Some f) A u" and f: "f < length fs" and "good_input w fs" and i: "i < n"
    and k: "\<And>v start B. holds fs n m (Some f) B v \<Longrightarrow> file_done w fs f v \<Longrightarrow> safe w fs n (k start) (Some f) v"
  shows "safe w fs n (sort_file w i f (fs ! f) start k) (Some f) u"
proof (cases "contents w (fs ! f)")
  case None
  then have "\<exists>name \<in> set fs. contents w name = None" using nth_mem [OF f] by blast
  with None show ?thesis by (simp add: sort_file_def)
next
  case (Some input)
  then have "readable input" using assms(3) f by (auto simp: good_input_def list_all_length)
  then obtain xs where xs: "count_numbers input False 0 = Some (length xs)"
    "read_numbers (length xs) input = Some (map Some xs)" "file_numbers input = Some xs"
    "2 * int (length xs) \<le> int_max" by (rule readableE)
  have fin: "safe w fs n (k start) (Some f) v" if "holds fs n m (Some f) (ints (sort xs)) v" for v start
    using that Some xs(3) by (intro k [OF that]) (auto simp: file_done_def holds_def)
  have sort: "safe w fs n (heap_sort w i q f (length xs) start k) (Some f) v"
    if "holds fs n m (Some f) (ints xs) v" for v start q
    by (rule safe_heap_sort [OF that xs(4) i fin])
  have le: "int (length xs) \<le> int_max" using xs(4) by simp
  show ?thesis
    unfolding sort_file_def Some option.case xs(1,2) int_op_def if_P [OF le]
    by (rule safe_get_context [OF h i] safe_yield_if [OF h i] safe_new_array safe_fill_array
        safe_get_context [OF _ i] safe_yield_if [OF _ i] sort length_map length_replicate | assumption | simp)+
qed

subsection \<open>The loop over the files\<close>

lemma guar_release:
  assumes "holds fs n m l A u" and "\<And>f. l = Some f \<Longrightarrow> file_done w fs f u"
  shows "guar w fs n l u None u"
  using assms by (auto simp: guar_def holds_def same_array_def)

lemma guar_take:
  assumes h: "holds fs n m l A u" and d: "\<And>f. l = Some f \<Longrightarrow> file_done w fs f u"
    and f: "file_to_sort_idx u = f" "f < length fs"
  shows "guar w fs n l u (Some f) (u\<lparr>file_to_sort_idx := Suc f\<rparr>)"
    and "holds fs n (Suc f) (Some f) (sorted_arrays u ! f, sorted_arrays_sizes u ! f) (u\<lparr>file_to_sort_idx := Suc f\<rparr>)"
proof -
  let ?v = "u\<lparr>file_to_sort_idx := Suc f\<rparr>"
  have wf: "well_formed fs n ?v" using h f by (simp add: holds_def well_formed_def context_at_def)
  have same: "same_array g u ?v" for g by (simp add: same_array_def)
  have "l = Some g \<Longrightarrow> file_done w fs g ?v" for g by (rule same_array_done [OF same d])
  then show "guar w fs n l u (Some f) ?v" using wf same f by (auto simp: guar_def)
  show "holds fs n (Suc f) (Some f) (sorted_arrays u ! f, sorted_arrays_sizes u ! f) ?v"
    using wf by (simp add: holds_def)
qed

lemma safe_sort_loop:
  assumes good: "good_input w fs" and i: "i < n"
    and k: "\<And>v start. holds fs n (length fs) None (None, None) v \<Longrightarrow> safe w fs n (k start) None v"
  shows "holds fs n m l A u \<Longrightarrow> (\<And>f. l = Some f \<Longrightarrow> file_done w fs f u) \<Longrightarrow> length fs - m < fuel \<Longrightarrow>
    safe w fs n (sort_loop fuel w i start k) l u"
proof (induction fuel arbitrary: m l A u start)
  case (Suc fuel)
  let ?f = "file_to_sort_idx u"
  show ?case
    unfolding sort_loop.simps
  proof (rule safe_get_context [OF Suc.prems(1) i])
    fix con assume con: "files_count con = length fs" "filenames_to_sort con = fs"
    show "safe w fs n (Act (\<lambda>u. if file_to_sort_idx u < files_count con then u\<lparr>file_to_sort_idx := Suc (file_to_sort_idx u)\<rparr> else u)
       (\<lambda>u. if file_to_sort_idx u < files_count con then
              case at (filenames_to_sort con) (file_to_sort_idx u) of None \<Rightarrow> Fail
              | Some filename \<Rightarrow>
                sort_file w i (file_to_sort_idx u) filename start (\<lambda>start. sort_loop fuel w i start k)
            else k start)) l u"
    proof (cases "?f < length fs")
      case True
      note took = guar_take [OF Suc.prems(1,2) refl True]
      have "safe w fs n (sort_loop fuel w i start k) (Some ?f) v"
        if v: "holds fs n (Suc ?f) (Some ?f) B v" "file_done w fs ?f v" for v start B
      proof (rule Suc.IH [OF v(1)])
        show "length fs - Suc ?f < fuel" using Suc.prems(1,3) True by (auto simp: holds_def)
      qed (use v(2) in simp)
      note step = this
      have "safe w fs n (sort_file w i ?f (fs ! ?f) start (\<lambda>start. sort_loop fuel w i start k)) (Some ?f)
          (u\<lparr>file_to_sort_idx := Suc ?f\<rparr>)"
        by (rule safe_sort_file [OF took(2) True good i step])
      with took(1) True show ?thesis by (auto simp: con)
    next
      case False
      then have "?f = length fs" using Suc.prems(1) by (simp add: holds_def well_formed_def)
      then have "holds fs n (length fs) None (None, None) u" using Suc.prems(1) by (simp add: holds_def)
      from k [OF this] guar_release [OF Suc.prems(1,2)] False show ?thesis by (auto simp: con)
    qed
  qed
qed simp

lemma safe_coroutine_func:
  assumes good: "good_input w fs" and i: "i < n" and u: "well_formed fs n u"
  shows "safe w fs n (coroutine_func_f w (Suc (length fs)) i) None u"
proof -
  have start: "holds fs n 0 None (None, None) u" using u by (simp add: holds_def)
  have fin: "safe w fs n (Return 0) None v" if "holds fs n (length fs) None (None, None) v" for v
    using that by (simp add: holds_def well_formed_def)
  have "safe w fs n (get_now w (\<lambda>t. upd_context i (\<lambda>ctx. ctx\<lparr>total_work_time := total_work_time ctx + (t - start)\<rparr>)
      (Switches (\<lambda>n. upd_context i (\<lambda>ctx. ctx\<lparr>total_switch_count := n\<rparr>) (Return 0))))) None v"
    if v: "holds fs n (length fs) None (None, None) v" for v start
    by (rule safe_get_now [OF v], rule safe_upd_context [OF _ i], assumption, simp, subst safe_simps(5), rule allI,
        rule safe_upd_context [OF _ i], assumption, simp, erule fin)
  then show ?thesis
    unfolding coroutine_func_f_def
    by (intro safe_get_now [OF start] safe_sort_loop [OF good i]) auto
qed

subsection \<open>The code of a coroutine ends\<close>

text \<open>On every path, whatever the others do: the loops that yield are bounded by their fuel.\<close>

named_theorems ends_intros

lemmas [ends_intros] = ends.intros

lemma ends_branch [ends_intros]:
  "ends p \<Longrightarrow> ends q \<Longrightarrow> ends (if b then p else q)"
  "ends p \<Longrightarrow> (\<And>v. ends (k v)) \<Longrightarrow> ends (case x of None \<Rightarrow> p | Some v \<Rightarrow> k v)"
  by (cases b; simp) (cases x; simp)

lemma ends_access [ends_intros]:
  "(\<And>con. ends (k con)) \<Longrightarrow> ends (get_context i k)"
  "(\<And>t. ends (k' t)) \<Longrightarrow> ends (get_now w k')"
  "(\<And>v. ends (h v)) \<Longrightarrow> ends (array_get f j h)"
  "(\<And>m. ends (h' m)) \<Longrightarrow> ends (int_op a h')"
  "ends p \<Longrightarrow> ends (upd_context i g p)" "ends p \<Longrightarrow> ends (array_set f j x p)"
  "ends p \<Longrightarrow> ends (new_array f m p)" "ends p \<Longrightarrow> ends (fill_array f cells p)"
  by (auto simp: get_context_def get_now_def array_get_def int_op_def upd_context_def array_set_def
      new_array_def fill_array_def intro!: ends_intros split: option.split)

lemma ends_yield_if [ends_intros]:
  "(\<And>t. ends (k t)) \<Longrightarrow> ends (yield_if_necessary_record_work_time w i start q k)"
  unfolding yield_if_necessary_record_work_time_def Let_def by (intro ends_intros)

lemma ends_swap [ends_intros]: "ends p \<Longrightarrow> ends (swap_elems f i j p)"
  unfolding swap_elems_def by (intro ends_intros)

lemma ends_larger [ends_intros]: "(\<And>m. ends (k m)) \<Longrightarrow> ends (larger_of f n j k)"
  unfolding larger_of_def Let_def by (intro ends_intros)

lemma ends_sift [ends_intros]: "(\<And>t. ends (k t)) \<Longrightarrow> ends (sift_loop fuel w i q f n j start k)"
  by (induction fuel arbitrary: j start) (auto intro!: ends_intros)

lemma ends_build [ends_intros]: "(\<And>t. ends (k t)) \<Longrightarrow> ends (build_loop m w i q f len start k)"
  by (induction m arbitrary: start) (auto intro!: ends_intros)

lemma ends_out [ends_intros]: "(\<And>t. ends (k t)) \<Longrightarrow> ends (out_loop m w i q f start k)"
  by (induction m arbitrary: start) (auto intro!: ends_intros)

lemma ends_heap_sort [ends_intros]: "(\<And>t. ends (k t)) \<Longrightarrow> ends (heap_sort w i q f len start k)"
  unfolding heap_sort_def by (intro ends_intros)

lemma ends_sort_file [ends_intros]: "(\<And>t. ends (k t)) \<Longrightarrow> ends (sort_file w i f nm start k)"
  unfolding sort_file_def by (intro ends_intros)

lemma ends_sort_loop [ends_intros]: "(\<And>t. ends (k t)) \<Longrightarrow> ends (sort_loop fuel w i start k)"
  by (induction fuel arbitrary: start) (auto intro!: ends_intros)

lemma ends_coroutine_func: "ends (coroutine_func_f w fuel i)"
  unfolding coroutine_func_f_def by (intro ends_intros)

subsection \<open>The claims of all coroutines\<close>

definition code_ok :: "world \<Rightarrow> string list \<Rightarrow> nat \<Rightarrow> nat option \<Rightarrow> code \<Rightarrow> prog \<Rightarrow> bool" where
  "code_ok w fs n l p u \<longleftrightarrow> ends p \<and> well_formed fs n u \<and> (\<forall>f. l = Some f \<longrightarrow> f < file_to_sort_idx u) \<and>
     (\<forall>v. rely fs n l u v \<longrightarrow> safe w fs n p l v)"

text \<open>
  Different coroutines claim different files; every file that was taken is claimed or done;
  when one of the coroutines \<open>B\<close> of the start has finished, no file is left to take.
\<close>

definition claims_fit :: "world \<Rightarrow> string list \<Rightarrow> nat \<Rightarrow> addr set \<Rightarrow> addr set \<Rightarrow> (addr \<Rightarrow> nat option) \<Rightarrow> prog \<Rightarrow> bool" where
  "claims_fit w fs n B A C u \<longleftrightarrow> well_formed fs n u \<and>
     (\<forall>c \<in> A. \<forall>d \<in> A. \<forall>f. C c = Some f \<longrightarrow> C d = Some f \<longrightarrow> c = d) \<and>
     (\<forall>c \<in> A. \<forall>f. C c = Some f \<longrightarrow> f < file_to_sort_idx u) \<and>
     (\<forall>f < file_to_sort_idx u. (\<exists>c \<in> A. C c = Some f) \<or> file_done w fs f u) \<and>
     (A = B \<or> file_to_sort_idx u = length fs)"

lemma claims_fitD:
  assumes "claims_fit w fs n B A C u" and "c \<in> A"
  shows "well_formed fs n u" and "C c = Some f \<Longrightarrow> f < file_to_sort_idx u"
    and "d \<in> A \<Longrightarrow> C c = Some f \<Longrightarrow> C d = Some f \<Longrightarrow> c = d"
  using assms by (auto simp: claims_fit_def)

text \<open>What one coroutine guarantees is what the others rely on, and keeps the claims fitting.\<close>

lemma guar_rely:
  assumes fit: "claims_fit w fs n B A C u" and c: "c \<in> A" and d: "d \<in> A" "d \<noteq> c"
    and g: "guar w fs n (C c) u l' v" and ok: "code_ok w fs n (C d) r u"
  shows "code_ok w fs n (C d) r v"
proof -
  have "same_array f u v" if "C d = Some f" for f
  proof -
    have "f < file_to_sort_idx u" by (rule claims_fitD(2) [OF fit d(1) that])
    moreover have "C c \<noteq> Some f" using claims_fitD(3) [OF fit d(1) c that] d(2) by blast
    ultimately show ?thesis using g by (simp add: guar_def)
  qed
  then have rel: "rely fs n (C d) u v" using g by (simp add: rely_def guar_def)
  have up: "file_to_sort_idx u \<le> file_to_sort_idx v" using g by (simp add: guar_def)
  show ?thesis
    unfolding code_ok_def
  proof (intro conjI allI impI)
    show "ends r" using ok by (simp add: code_ok_def)
    show "well_formed fs n v" using g by (simp add: guar_def)
    show "f < file_to_sort_idx v" if "C d = Some f" for f
      using claims_fitD(2) [OF fit d(1) that] up by simp
    show "safe w fs n r (C d) x" if "rely fs n (C d) v x" for x
      using ok rely_trans [OF rel that] by (simp add: code_ok_def)
  qed
qed

lemma guar_fit:
  assumes fit: "claims_fit w fs n B A C u" and c: "c \<in> A" and g: "guar w fs n (C c) u l' v"
  shows "claims_fit w fs n B A (C(c := l')) v"
  unfolding claims_fit_def
proof (intro conjI ballI allI impI)
  have up: "file_to_sort_idx u \<le> file_to_sort_idx v" using g by (simp add: guar_def)
  show "well_formed fs n v" using g by (simp add: guar_def)
  show less: "f < file_to_sort_idx v" if "a \<in> A" "(C(c := l')) a = Some f" for a f
  proof (cases "a = c")
    case True
    with that g show ?thesis by (simp add: guar_def)
  next
    case False
    with that claims_fitD(2) [OF fit that(1)] up show ?thesis by fastforce
  qed
  have other: "\<not> (d \<in> A \<and> d \<noteq> c \<and> C d = Some f \<and> l' = Some f)" for d f
  proof
    assume d: "d \<in> A \<and> d \<noteq> c \<and> C d = Some f \<and> l' = Some f"
    then have "f < file_to_sort_idx u" using claims_fitD(2) [OF fit] by blast
    moreover have "C c = Some f \<or> file_to_sort_idx u \<le> f" using g d by (simp add: guar_def)
    ultimately have "C c = Some f" by simp
    with claims_fitD(3) [OF fit c, of d f] d show False by blast
  qed
  show "a = d" if "a \<in> A" "d \<in> A" "(C(c := l')) a = Some f" "(C(c := l')) d = Some f" for a d f
    using that other [of a f] other [of d f] claims_fitD(3) [OF fit that(1), of d f]
    by (auto split: if_splits)
  show "(\<exists>a \<in> A. (C(c := l')) a = Some f) \<or> file_done w fs f v" if f: "f < file_to_sort_idx v" for f
  proof (cases "C c = Some f \<or> file_to_sort_idx u \<le> f")
    case True
    with g f have "l' = Some f \<or> file_done w fs f v" unfolding guar_def by blast
    with c show ?thesis by auto
  next
    case False
    then have same: "same_array f u v" using g by (simp add: guar_def)
    from False fit have "(\<exists>a \<in> A. C a = Some f) \<or> file_done w fs f u"
      unfolding claims_fit_def by simp
    then consider a where "a \<in> A" "C a = Some f" | "file_done w fs f u" by blast
    then show ?thesis
    proof cases
      case 1
      with False have "(C(c := l')) a = Some f" by auto
      with 1 show ?thesis by blast
    qed (use same_array_done [OF same] in blast)
  qed
  show "A = B \<or> file_to_sort_idx v = length fs"
    using fit up g by (auto simp: claims_fit_def guar_def well_formed_def)
qed

lemma fit_remove:
  assumes fit: "claims_fit w fs n B A C u" and "C c = None" and "file_to_sort_idx u = length fs"
  shows "claims_fit w fs n B (A - {c}) C u"
proof -
  have "a \<in> A - {c}" if "a \<in> A" "C a = Some f" for a f using that assms(2) by auto
  then show ?thesis using fit assms(3) unfolding claims_fit_def by blast
qed

lemma code_ok_slice:
  assumes "code_ok w fs n l p u"
  obtains r where "run_slice m p u = Some r" "slice_ok w fs n l u r"
proof -
  have "\<exists>r. run_slice m p u = Some r \<and> slice_ok w fs n l u r"
    using assms rely_refl [of fs n u l] by (intro safe_slice) (simp_all add: code_ok_def)
  with that show thesis by blast
qed

text \<open>What is left of code that ends, ends.\<close>

lemma ends_slice: "ends p \<Longrightarrow> run_slice m p u = Some (Yielded q v) \<Longrightarrow> ends q"
  by (induction arbitrary: u rule: ends.induct) auto

interpretation sorter: finishing "code_ok w fs n" "claims_fit w fs n B"
  "\<lambda>r. r = -1 \<and> (\<exists>name \<in> set fs. contents w name = None)" for w fs n B
proof unfold_locales
  fix l p u m r
  assume ok: "code_ok w fs n l p u"
  then show "ends p" by (simp add: code_ok_def)
  obtain x where x: "run_slice m p u = Some x" "slice_ok w fs n l u x" by (rule code_ok_slice [OF ok])
  then show "run_slice m p u \<noteq> None"
    and "run_slice m p u = Some (Exited r) \<Longrightarrow> r = -1 \<and> (\<exists>name \<in> set fs. contents w name = None)"
    by (auto simp: slice_ok_def)
next
  fix A C u c p m q v
  assume fit: "claims_fit w fs n B A C u" and c: "c \<in> A" and ok: "code_ok w fs n (C c) p u"
    and run: "run_slice m p u = Some (Yielded q v)"
  obtain x where x: "run_slice m p u = Some x" "slice_ok w fs n (C c) u x" by (rule code_ok_slice [OF ok])
  then obtain l' where g: "guar w fs n (C c) u l' v" and safe: "\<And>x. rely fs n l' v x \<Longrightarrow> safe w fs n q l' x"
    using run by (auto simp: slice_ok_def)
  have "ends q" using ok ends_slice [OF _ run] by (simp add: code_ok_def)
  then have "code_ok w fs n l' q v" using g safe by (simp add: code_ok_def guar_def)
  moreover have "claims_fit w fs n B A (C(c := l')) v" by (rule guar_fit [OF fit c g])
  moreover have "\<forall>d \<in> A - {c}. \<forall>r. code_ok w fs n (C d) r u \<longrightarrow> code_ok w fs n (C d) r v"
    using guar_rely [OF fit c _ _ g] by blast
  ultimately show "\<exists>l. code_ok w fs n l q v \<and> claims_fit w fs n B A (C(c := l)) v \<and>
      (\<forall>d \<in> A - {c}. \<forall>r. code_ok w fs n (C d) r u \<longrightarrow> code_ok w fs n (C d) r v)" by blast
next
  fix A C u c p m r v
  assume fit: "claims_fit w fs n B A C u" and c: "c \<in> A" and ok: "code_ok w fs n (C c) p u"
    and run: "run_slice m p u = Some (Returned r v)"
  obtain x where x: "run_slice m p u = Some x" "slice_ok w fs n (C c) u x" by (rule code_ok_slice [OF ok])
  then have g: "guar w fs n (C c) u None v" and idx: "file_to_sort_idx v = length fs"
    using run by (auto simp: slice_ok_def)
  have "claims_fit w fs n B (A - {c}) (C(c := None)) v"
    by (rule fit_remove [OF guar_fit [OF fit c g] _ idx]) simp
  then have "claims_fit w fs n B (A - {c}) C v" by (auto simp: claims_fit_def)
  moreover have "\<forall>d \<in> A - {c}. \<forall>q. code_ok w fs n (C d) q u \<longrightarrow> code_ok w fs n (C d) q v"
    using guar_rely [OF fit c _ _ g] by blast
  ultimately show "claims_fit w fs n B (A - {c}) C v \<and>
      (\<forall>d \<in> A - {c}. \<forall>q. code_ok w fs n (C d) q u \<longrightarrow> code_ok w fs n (C d) q v)" by blast
qed

end
