(* ===== verification/CoroSignal.thy ===== *)
theory CoroSignal
  imports Coro
begin

section \<open>How a coroutine gets its first context\<close>

text \<open>
  \<open>coro_new\<close> lets the kernel switch to the stack of the new coroutine: it sets a handler for
  \<open>SIGUSR2\<close> that runs on an alternate stack, raises the signal, and the handler saves its
  context there and jumps back. This theory models that: the signal state of the process, the
  system calls, which may fail, and all of \<open>coro_new\<close> with its exits. Of the signal mask and
  the pending signals only \<open>SIGUSR2\<close> is seen.
\<close>

subsection \<open>Signals\<close>

text \<open>Whose stack a piece of code runs on: the stack allocated for a coroutine, or another.\<close>

datatype stack = StackOf addr | OtherStack nat

text \<open>What is done with \<open>SIGUSR2\<close>: \<open>CoroBody\<close> is \<open>coro_body\<close> with \<open>SA_ONSTACK\<close>.\<close>

datatype handler = CoroBody | OtherHandler nat

text \<open>
  The system calls of \<open>coro_new\<close>, in their order. Which of them succeed is given by a
  function, the answers of the kernel.
\<close>

datatype sys_call =
    BlockSignal | SetHandler | SetStack
  | ReadStack | DisableStack | RestoreStack | RestoreHandler | RestoreMask

text \<open>
  A process: the globals of the library, the fields \<open>func\<close> and \<open>func_arg\<close> of the coroutines
  (as the code that the call of \<open>func\<close> runs), on which stack the context of a coroutine
  lies, and the signal state. \<open>altstack\<close> is \<open>None\<close> when it is disabled; \<open>start_mask\<close> is the
  mask saved in \<open>start_point\<close>.
\<close>

record 'u process =
  sched :: "'u sched"
  funcs :: "addr \<rightharpoonup> 'u proc"
  ctx_stack :: "addr \<rightharpoonup> stack"
  blocked :: bool
  pending :: bool
  handler :: handler
  altstack :: "stack option"
  start_mask :: bool

text \<open>
  The signal handler, up to its jump to \<open>start_point\<close>, on the stack \<open>st\<close>. The context it saves
  goes on with the call of \<open>func\<close>. The jump sets the mask as \<open>start_point\<close> has it.
\<close>

definition coro_body_start :: "stack \<Rightarrow> 'u process \<Rightarrow> 'u process option" where
  "coro_body_start st p = (case coro_this_ptr (sched p) of
       Coro c \<Rightarrow> do {
         f \<leftarrow> funcs p c;
         s \<leftarrow> upd_coro c (\<lambda>co. co\<lparr>ctx := f\<rparr>) ((sched p)\<lparr>coro_this_ptr := Nobody\<rparr>);
         Some (p\<lparr>sched := s, ctx_stack := (ctx_stack p)(c \<mapsto> st), blocked := start_mask p\<rparr>) }
     | _ \<Rightarrow> None)"

text \<open>
  Delivery of a \<open>SIGUSR2\<close>. What other handlers do is not known; without an alternate stack the
  handler would run on the stack in use, which is not modelled.
\<close>

definition deliver :: "'u process \<Rightarrow> 'u process option" where
  "deliver p = (case (handler p, altstack p) of
       (CoroBody, Some st) \<Rightarrow> coro_body_start st (p\<lparr>pending := False\<rparr>)
     | _ \<Rightarrow> None)"

text \<open>
  Raising the signal and waiting for it. \<open>raise\<close> delivers the signal at once unless it is
  blocked. Either way the handler does not return but jumps, to the code behind the loop.
  \<open>sigsuspend\<close> with an empty mask delivers a pending signal, and waits for ever (\<open>None\<close>) when
  there is none.
\<close>

definition sigsuspend :: "'u process \<Rightarrow> 'u process option" where
  "sigsuspend p = (if pending p then deliver (p\<lparr>blocked := False\<rparr>) else None)"

definition raise_and_wait :: "'u process \<Rightarrow> 'u process option" where
  "raise_and_wait p =
     (if \<not> blocked p then deliver p
      else do {
        let p = p\<lparr>pending := True\<rparr>;
        if coro_this_ptr (sched p) \<noteq> Nobody then sigsuspend p else Some p })"

subsection \<open>The constructor\<close>

text \<open>\<open>handle_error\<close>: the program exits. \<open>Inl\<close> is the status.\<close>

definition handle_error :: "int + 'a" where
  "handle_error = Inl (-1)"

definition guarded :: "bool \<Rightarrow> (int + 'a) option \<Rightarrow> (int + 'a) option" where
  "guarded ok r = (if ok then r else Some handle_error)"

text \<open>The object from \<open>malloc\<close>: a context, and the links, are only set later.\<close>

definition alloc_coro :: "'u proc \<Rightarrow> 'u process \<Rightarrow> addr \<times> 'u process" where
  "alloc_coro func p = (let s = sched p; c = fresh_coro s in
     (c, p\<lparr>sched := s\<lparr>coros := (coros s)(c \<mapsto> \<lparr>ret = 0, ctx = Fail, is_finished = False,
             switch_count = 0, next_coro = None, prev_coro = None\<rparr>), fresh_coro := Suc c\<rparr>,
           funcs := (funcs p)(c \<mapsto> func)\<rparr>))"

text \<open>Behind the jump: the rollback of all global changes.\<close>

definition rollback ::
    "(sys_call \<Rightarrow> bool) \<Rightarrow> addr \<Rightarrow> stack option \<Rightarrow> handler \<Rightarrow> bool \<Rightarrow> 'u process \<Rightarrow>
     (int + addr \<times> 'u process) option" where
  "rollback ok c oldst oldsa olds p =
     guarded (ok ReadStack) (
     guarded (ok DisableStack) (
     let p = p\<lparr>altstack := None\<rparr> in
     guarded (oldst \<noteq> None \<longrightarrow> ok RestoreStack) (
     let p = (if oldst \<noteq> None then p\<lparr>altstack := oldst\<rparr> else p) in
     guarded (ok RestoreHandler) (
     let p = p\<lparr>handler := oldsa\<rparr> in
     guarded (ok RestoreMask) (
     do {
       let p = p\<lparr>blocked := olds\<rparr>;
       s \<leftarrow> coro_list_add c (sched p);
       Some (Inr (c, p\<lparr>sched := s\<rparr>)) })))))"

definition coro_new_process ::
    "(sys_call \<Rightarrow> bool) \<Rightarrow> 'u proc \<Rightarrow> 'u process \<Rightarrow> (int + addr \<times> 'u process) option" where
  "coro_new_process ok func p = (let (c, p) = alloc_coro func p in
     guarded (ok BlockSignal) (
     let olds = blocked p; p = p\<lparr>blocked := True\<rparr> in
     guarded (ok SetHandler) (
     let oldsa = handler p; p = p\<lparr>handler := CoroBody\<rparr> in
     guarded (ok SetStack) (
     do {
       let oldst = altstack p;
       let p = p\<lparr>altstack := Some (StackOf c)\<rparr>;
       let old_this = coro_this_ptr (sched p);
       let p = p\<lparr>sched := (sched p)\<lparr>coro_this_ptr := Coro c\<rparr>\<rparr>;
       let p = p\<lparr>start_mask := blocked p\<rparr>;
       p \<leftarrow> raise_and_wait p;
       let p = p\<lparr>sched := (sched p)\<lparr>coro_this_ptr := old_this\<rparr>\<rparr>;
       rollback ok c oldst oldsa olds p }))))"

subsection \<open>It is \<open>coro_new\<close>\<close>

text \<open>Which system calls are made: the old stack is only restored when there was one.\<close>

definition calls_of :: "'u process \<Rightarrow> sys_call set" where
  "calls_of p = {k. k = RestoreStack \<longrightarrow> altstack p \<noteq> None}"

text \<open>
  What is left behind: \<open>start_point\<close> has the mask with the signal blocked, no signal is pending,
  and the context of the new coroutine lies on its own stack.
\<close>

definition after_new :: "addr \<Rightarrow> 'u proc \<Rightarrow> 'u sched \<Rightarrow> 'u process \<Rightarrow> 'u process" where
  "after_new c func s p = p\<lparr>sched := s, funcs := (funcs p)(c \<mapsto> func),
     ctx_stack := (ctx_stack p)(c \<mapsto> StackOf c), pending := False, start_mask := True\<rparr>"

text \<open>The context is there when control is back in the constructor.\<close>

lemma jump_back:
  fixes p :: "'u process"
  assumes "alloc_coro func p = (c, q)"
  defines "w \<equiv> q\<lparr>blocked := True, handler := CoroBody, altstack := Some (StackOf c),
      sched := (sched q)\<lparr>coro_this_ptr := Coro c\<rparr>, start_mask := True\<rparr>"
  shows "raise_and_wait w = Some (w\<lparr>pending := False, ctx_stack := (ctx_stack p)(c \<mapsto> StackOf c),
    sched := (sched p)\<lparr>coro_this_ptr := Nobody, fresh_coro := Suc c,
      coros := (coros (sched p))(c \<mapsto> \<lparr>ret = 0, ctx = func, is_finished = False, switch_count = 0,
        next_coro = None, prev_coro = None\<rparr>)\<rparr>\<rparr>)"
  using assms
  by (auto simp: alloc_coro_def raise_and_wait_def sigsuspend_def deliver_def coro_body_start_def
      upd_coro_def Let_def)

lemma all_calls:
  "(\<forall>k \<in> calls_of p. ok k) \<longleftrightarrow> ok BlockSignal \<and> ok SetHandler \<and> ok SetStack \<and> ok ReadStack \<and>
     ok DisableStack \<and> (altstack p \<noteq> None \<longrightarrow> ok RestoreStack) \<and> ok RestoreHandler \<and> ok RestoreMask"
proof -
  have "(\<forall>k. P k) \<longleftrightarrow> P BlockSignal \<and> P SetHandler \<and> P SetStack \<and> P ReadStack \<and> P DisableStack \<and>
      P RestoreStack \<and> P RestoreHandler \<and> P RestoreMask" for P
    by (metis sys_call.exhaust)
  from this [of "\<lambda>k. k \<in> calls_of p \<longrightarrow> ok k"] show ?thesis by (auto simp: calls_of_def)
qed

text \<open>When the setup succeeds, \<open>coro_new_process\<close> goes on with the rollback.\<close>

lemma coro_new_setup:
  fixes p :: "'u process"
  assumes "ok BlockSignal" and "ok SetHandler" and "ok SetStack"
  defines "c \<equiv> fresh_coro (sched p)"
  shows "\<exists>r. coro_new_process ok func p = rollback ok c (altstack p) (handler p) (blocked p) r \<and>
    sched r = (sched p)\<lparr>coros := (coros (sched p))(c \<mapsto> \<lparr>ret = 0, ctx = func, is_finished = False,
      switch_count = 0, next_coro = None, prev_coro = None\<rparr>), fresh_coro := Suc c\<rparr> \<and>
    funcs r = (funcs p)(c \<mapsto> func) \<and> ctx_stack r = (ctx_stack p)(c \<mapsto> StackOf c) \<and>
    \<not> pending r \<and> start_mask r"
proof -
  obtain q where q: "alloc_coro func p = (c, q)" by (simp add: alloc_coro_def c_def Let_def)
  have f: "blocked q = blocked p" "handler q = handler p" "altstack q = altstack p"
      "coro_this_ptr (sched q) = coro_this_ptr (sched p)" "funcs q = (funcs p)(c \<mapsto> func)"
    using q by (auto simp: alloc_coro_def Let_def)
  show ?thesis
    using assms q f jump_back [OF q]
    by (simp add: coro_new_process_def guarded_def Let_def)
      (intro exI conjI, rule refl, rule sched.equality, simp_all)
qed

text \<open>The rollback puts everything else back.\<close>

lemma rollback_eq:
  assumes "\<forall>k \<in> calls_of p. ok k"
    and "sched r = s" "funcs r = fs" "ctx_stack r = cs" "\<not> pending r" "start_mask r"
  shows "rollback ok c (altstack p) (handler p) (blocked p) r =
    map_option (\<lambda>s. Inr (c, p\<lparr>sched := s, funcs := fs, ctx_stack := cs, pending := False,
      start_mask := True\<rparr>)) (coro_list_add c s)"
proof -
  have "r\<lparr>altstack := altstack p, handler := handler p, blocked := blocked p, sched := u\<rparr> =
      p\<lparr>sched := u, funcs := fs, ctx_stack := cs, pending := False, start_mask := True\<rparr>" for u
    by (rule process.equality) (use assms in simp_all)
  with assms(1,2) show ?thesis
    by (cases "altstack p") (simp_all add: rollback_def guarded_def all_calls Let_def map_conv_bind_option comp_def)
qed

lemma coro_new_process_eq:
  "coro_new_process ok func p =
     (if \<forall>k \<in> calls_of p. ok k
      then map_option (\<lambda>(c, s). Inr (c, after_new c func s p)) (coro_new func (sched p))
      else Some handle_error)"
proof (cases "ok BlockSignal \<and> ok SetHandler \<and> ok SetStack")
  case True
  then obtain r where r: "coro_new_process ok func p =
      rollback ok (fresh_coro (sched p)) (altstack p) (handler p) (blocked p) r"
    "sched r = (sched p)\<lparr>coros := (coros (sched p))(fresh_coro (sched p) \<mapsto> \<lparr>ret = 0, ctx = func,
      is_finished = False, switch_count = 0, next_coro = None, prev_coro = None\<rparr>),
      fresh_coro := Suc (fresh_coro (sched p))\<rparr>"
    "funcs r = (funcs p)(fresh_coro (sched p) \<mapsto> func)"
    "ctx_stack r = (ctx_stack p)(fresh_coro (sched p) \<mapsto> StackOf (fresh_coro (sched p)))"
    "\<not> pending r" "start_mask r"
    using coro_new_setup [where ok = ok and p = p and func = func] by blast
  show ?thesis
  proof (cases "\<forall>k \<in> calls_of p. ok k")
    case calls: True
    with r(1) rollback_eq [OF calls r(2-6)] show ?thesis
      by (simp add: coro_new_def after_new_def Let_def map_conv_bind_option comp_def split_beta)
  next
    case False
    with True r(1) show ?thesis by (auto simp: rollback_def guarded_def all_calls Let_def)
  qed
next
  case False
  then show ?thesis
    by (auto simp: coro_new_process_def guarded_def all_calls Let_def split_beta)
qed

end
