(* ===== verification/CoroCorrect.thy ===== *)
theory CoroCorrect
  imports CoroSched CoroSignal
begin

section \<open>Coroutines: what the library promises\<close>

text \<open>
  The functions of \<open>libcoro.c\<close> on any program whose code has no undefined behaviour: the
  scheduler interface \<open>finishing\<close> with nothing known of the shared state, for code that comes to
  an end, and \<open>cooperative\<close> for code that yields for ever.
\<close>

coinductive never_fails :: "'u proc \<Rightarrow> bool" where
  "never_fails (Return r)"
| "never_fails (Exit r)"
| "(\<And>u. never_fails (g u)) \<Longrightarrow> never_fails (Act f g)"
| "(\<And>n. never_fails (g n)) \<Longrightarrow> never_fails (Switches g)"
| "never_fails p \<Longrightarrow> never_fails (Yield p)"

inductive_simps never_fails_simps [simp]:
  "never_fails (Return r)" "never_fails (Exit r)" "never_fails Fail" "never_fails (Act f g)"
  "never_fails (Switches h)" "never_fails (Yield p)"

inductive_simps ends_simps [simp]:
  "ends (Return r)" "ends (Exit r)" "ends (Act f g)" "ends (Switches h)" "ends (Yield p)"

definition sound_code :: "'u proc \<Rightarrow> bool" where
  "sound_code p \<longleftrightarrow> never_fails p \<and> ends p"

lemma sound_slice:
  assumes "sound_code p"
  shows "run_slice n p u \<noteq> None" and "run_slice n p u = Some (Yielded q v) \<Longrightarrow> sound_code q"
proof -
  from assms have "ends p" "never_fails p" by (simp_all add: sound_code_def)
  then have "run_slice n p u \<noteq> None \<and> (run_slice n p u = Some (Yielded q v) \<longrightarrow> sound_code q)"
    by (induction arbitrary: u rule: ends.induct) (auto simp: sound_code_def)
  then show "run_slice n p u \<noteq> None" and "run_slice n p u = Some (Yielded q v) \<Longrightarrow> sound_code q" by simp_all
qed

interpretation any: finishing "\<lambda>l :: unit. \<lambda>p. \<lambda>u. sound_code p" "\<lambda>A. \<lambda>C. \<lambda>u. True" "\<lambda>r. True"
proof unfold_locales
  show "sound_code p \<Longrightarrow> ends p" for p :: "'a proc" by (simp add: sound_code_def)
qed (simp_all add: sound_slice(1) del: not_None_eq, erule (1) sound_slice(2))

text \<open>The coroutines of the list can be run, to their end.\<close>

definition sound_coros :: "addr list \<Rightarrow> 'u sched \<Rightarrow> bool" where
  "sound_coros cl s \<longleftrightarrow> (\<forall>c \<in> set cl. \<exists>co. coros s c = Some co \<and> sound_code (ctx co))"

subsection \<open>Coroutines that never end\<close>







subsection \<open>One round over the list\<close>

text \<open>
  What a pass of the scheduler does when nobody finishes: every coroutine runs one slice,
  in the order of the list, on the state the one before left.
\<close>

type_synonym 'u job = "int \<times> 'u proc"

primrec coro_round :: "'u job list \<Rightarrow> 'u \<Rightarrow> ('u job list \<times> 'u) option" where
  "coro_round [] u = Some ([], u)"
| "coro_round (j # js) u =
     (case run_slice (fst j) (snd j) u of
        Some (Yielded q v) \<Rightarrow> do { (js, v) \<leftarrow> coro_round js v; Some ((fst j + 1, q) # js, v) }
      | _ \<Rightarrow> None)"

definition job :: "'u sched \<Rightarrow> addr \<Rightarrow> 'u job" where
  "job s c = (case coros s c of None \<Rightarrow> (0, Fail) | Some co \<Rightarrow> (switch_count co, ctx co))"

lemma body_round:
  "linked (xs @ c # ys) s \<Longrightarrow> is_sched_waiting s \<Longrightarrow>
   coro_round (map (job s) (c # ys)) (user s) = Some (js, u) \<Longrightarrow>
   \<exists>t. coro_body c s = Some (Inr t) \<and> linked (xs @ c # ys) t \<and> map (job t) (c # ys) = js \<and> user t = u \<and>
     (\<forall>a \<in> set xs. coros t a = coros s a)"
proof (induction ys arbitrary: xs c s js)
  case (Cons d ys)
  let ?cl = "xs @ c # d # ys"
  have dll: "dll next_coro prev_coro (coros s) None (coro_list s) ?cl None"
    using Cons.prems(1) by (simp add: linked_def)
  from dll_distinct [OF dll] have dist: "c \<notin> set xs" "c \<notin> set (d # ys)" by auto
  obtain co where co: "coros s c = Some co" "next_coro co = Some d"
    using dll_node [OF dll] by force
  obtain q v ks where q: "run_slice (switch_count co) (ctx co) (user s) = Some (Yielded q v)"
    "coro_round (map (job s) (d # ys)) v = Some (ks, u)" "js = (switch_count co + 1, q) # ks"
  proof -
    define J where "J = map (job s) (d # ys)"
    have "job s c = (switch_count co, ctx co)" using co(1) by (simp add: job_def)
    then have "coro_round ((switch_count co, ctx co) # J) (user s) = Some (js, u)"
      using Cons.prems(3) unfolding J_def list.map(2) [of "job s" c] by metis
    then show thesis using that unfolding J_def by (auto split: stop.splits option.splits bind_splits)
  qed
  let ?co = "co\<lparr>switch_count := switch_count co + 1, ctx := q\<rparr>"
  let ?s = "s\<lparr>coro_this_ptr := Coro c, user := v, coros := (coros s)(c \<mapsto> ?co)\<rparr>"
  have body: "coro_body c s = coro_body d ?s"
    using co q(1) by (simp add: coro_body.simps [of c s] upd_coro_def coro_yield_def)
  have "linked ((xs @ [c]) @ d # ys) ?s"
    using linked_upd [OF Cons.prems(1) co(1), of ?co ?s] by simp
  moreover have "is_sched_waiting ?s" "user ?s = v" using Cons.prems(2) by simp_all
  moreover have jobs: "map (job ?s) (d # ys) = map (job s) (d # ys)" using dist(2) by (auto simp: job_def)
  moreover have "coro_round (map (job ?s) (d # ys)) (user ?s) = Some (ks, u)" unfolding jobs using q(2) by simp
  ultimately obtain t where t: "coro_body d ?s = Some (Inr t)" "linked ((xs @ [c]) @ d # ys) t"
    "map (job t) (d # ys) = ks" "user t = u" "\<forall>a \<in> set (xs @ [c]). coros t a = coros ?s a"
    using Cons.IH [of "xs @ [c]" d ?s ks] by blast
  have "coros t a = coros s a" if "a \<in> set xs" for a using t(5) dist(1) that by auto
  moreover have "job t c = (switch_count co + 1, q)" using t(5) by (simp add: job_def)
  ultimately show ?case using t body q(3) by auto
next
  case Nil
  let ?cl = "xs @ [c]"
  have dll: "dll next_coro prev_coro (coros s) None (coro_list s) ?cl None"
    using Nil.prems(1) by (simp add: linked_def)
  from dll_distinct [OF dll] have dist: "c \<notin> set xs" by auto
  obtain co where co: "coros s c = Some co" "next_coro co = None"
    using dll_node [OF dll] by force
  obtain q v where q: "run_slice (switch_count co) (ctx co) (user s) = Some (Yielded q v)" "v = u"
    "js = [(switch_count co + 1, q)]"
    using Nil.prems(3) co by (auto simp: job_def split: stop.splits option.splits)
  let ?co = "co\<lparr>switch_count := switch_count co + 1, ctx := q\<rparr>"
  let ?s = "s\<lparr>coro_this_ptr := Coro c, user := v, coros := (coros s)(c \<mapsto> ?co)\<rparr>"
  have "coro_body c s = Some (Inr ?s)"
    using co q(1) Nil.prems(2) by (simp add: coro_body.simps [of c s] upd_coro_def coro_yield_def)
  moreover have "linked ?cl ?s" using linked_upd [OF Nil.prems(1) co(1), of ?co ?s] by simp
  moreover have "\<forall>a \<in> set xs. coros ?s a = coros s a" using dist by auto
  ultimately show ?case using q by (simp add: job_def)
qed

subsection \<open>A small program\<close>

text \<open>Three coroutines that append their number, yield, and append it again.\<close>

definition twice :: "int \<Rightarrow> int list proc" where
  "twice i = Act (\<lambda>u. u @ [i]) (\<lambda>u. Yield (Act (\<lambda>u. u @ [i]) (\<lambda>u. Return i)))"

definition three :: "int list sched" where
  "three = \<lparr>coros = [0 \<mapsto> \<lparr>ret = 0, ctx = twice 10, is_finished = False, switch_count = 0, next_coro = None, prev_coro = Some 1\<rparr>,
      1 \<mapsto> \<lparr>ret = 0, ctx = twice 11, is_finished = False, switch_count = 0, next_coro = Some 0, prev_coro = Some 2\<rparr>,
      2 \<mapsto> \<lparr>ret = 0, ctx = twice 12, is_finished = False, switch_count = 0, next_coro = Some 1, prev_coro = None\<rparr>],
    fresh_coro = 3, coro_list = Some 2, coro_this_ptr = Sched, is_sched_waiting = False,
    sched_switch_count = 0, user = []\<rparr>"

lemma three_linked: "linked [2, 1, 0] three"
  by (auto simp: linked_def three_def split: if_splits)

lemma three_rel: "sched_rel [2, 1, 0] three" "sound_coros [2, 1, 0] three"
proof -
  have "running (set [2, 1, 0]) three" "\<not> is_sched_waiting three" "coro_this_ptr three = Sched"
    by (simp_all add: running_def three_def)
  with three_linked show "sched_rel [2, 1, 0] three" unfolding sched_rel_def by blast
  show "sound_coros [2, 1, 0] three" by (simp add: sound_coros_def three_def twice_def sound_code_def)
qed

subsection \<open>Properties\<close>

text \<open>
  C14: \<open>coro_new\<close>, with all its signal handling, returns a new coroutine whose context stands at
  the start of its function on its own stack, in front of the list, and leaves the other
  coroutines, the shared state, \<open>coro_this_ptr\<close>, the signal mask, the handler of \<open>SIGUSR2\<close> and
  the alternate stack as they were. If one of its system calls fails, the program exits
  with -1. A \<open>SIGUSR2\<close> that was pending before is lost.
\<close>

theorem coro_new_context:
  assumes "linked cl (sched p)"
  shows "if \<forall>k \<in> calls_of p. ok k then
      \<exists>q. coro_new_process ok func p = Some (Inr (fresh_coro (sched p), q)) \<and>
        linked (fresh_coro (sched p) # cl) (sched q) \<and> created_coro func (sched p) (sched q) \<and>
        ctx_stack q = (ctx_stack p)(fresh_coro (sched p) \<mapsto> StackOf (fresh_coro (sched p))) \<and>
        blocked q = blocked p \<and> handler q = handler p \<and> altstack q = altstack p \<and> \<not> pending q
    else coro_new_process ok func p = Some (Inl (-1))"
proof -
  from coro_new_links [OF assms] obtain t where
    "coro_new func (sched p) = Some (fresh_coro (sched p), t)"
    "linked (fresh_coro (sched p) # cl) t" "created_coro func (sched p) t"
    by blast
  then show ?thesis by (simp add: coro_new_process_eq after_new_def handle_error_def)
qed

text \<open>A program that has a handler of its own, and blocks the signal while one is pending.\<close>

definition three_process :: "int list process" where
  "three_process = \<lparr>sched = three, funcs = Map.empty, ctx_stack = [0 \<mapsto> StackOf 0, 1 \<mapsto> StackOf 1, 2 \<mapsto> StackOf 2],
     blocked = True, pending = True, handler = OtherHandler 1, altstack = Some (OtherStack 9),
     start_mask = False\<rparr>"

theorem coro_new_context_witness:
  "(\<exists>q. coro_new_process (\<lambda>k. True) (twice 7) three_process = Some (Inr (3, q)) \<and>
     linked [3, 2, 1, 0] (sched q) \<and> created_coro (twice 7) three (sched q) \<and>
     ctx_stack q 3 = Some (StackOf 3) \<and> handler q = OtherHandler 1 \<and> \<not> pending q) \<and>
   coro_new_process (\<lambda>k. k \<noteq> RestoreStack) (twice 7) three_process = Some (Inl (-1))"
proof -
  have "linked [2, 1, 0] (sched three_process)" using three_linked by (simp add: three_process_def)
  from coro_new_context [OF this, of "\<lambda>k. True" "twice 7"]
    coro_new_context [OF this, of "\<lambda>k. k \<noteq> RestoreStack" "twice 7"]
  show ?thesis by (auto simp: three_process_def three_def calls_of_def)
qed

text \<open>
  C15: The list is a doubly linked list at every call, and \<open>coro_list_delete\<close> takes a
  coroutine out of it wherever it stands, without changing what any coroutine has to do.
\<close>

theorem coro_list_delete_ok:
  assumes "linked (xs @ c # ys) s"
  shows "\<exists>t. coro_list_delete c s = Some t \<and> linked (xs @ ys) t \<and> same_coros s t"
  using assms by (rule coro_list_delete_links)

theorem coro_list_delete_ok_witness:
  "\<exists>t. coro_list_delete 1 three = Some t \<and> linked [2, 0] t \<and> same_coros three t"
  using coro_list_delete_ok [of "[2]" 1 "[0]" three] three_linked by simp

text \<open>
  C16: For coroutines whose code has no undefined behaviour and comes to an end, a program that
  has called \<open>coro_sched_init\<close> gets control back from \<open>coro_sched_wait\<close>: it hands out a
  coroutine that has finished, taken off the list, the others ready to go on, unless one of
  them calls \<open>exit\<close>. It returns NULL just when the list is empty.
\<close>

theorem coro_sched_wait_returns:
  assumes "sched_rel cl s" and "sound_coros cl s"
  shows "\<exists>r. coro_sched_wait s = Some r \<and> (case r of Inl n \<Rightarrow> True
    | Inr (None, t) \<Rightarrow> cl = [] \<and> t = s
    | Inr (Some c, t) \<Rightarrow> c \<in> set cl \<and> sched_rel (remove1 c cl) t \<and> sound_coros (remove1 c cl) t \<and>
        coro_is_finished c t = Some True)"
proof (cases cl)
  case Nil
  with any.wait_empty [of s] assms(1) show ?thesis by simp
next
  case (Cons h l)
  have rdy: "any.ready (set (h # l)) C s" for C :: "nat \<Rightarrow> unit"
    using assms(2) by (simp add: any.ready_def sound_coros_def Cons)
  obtain r where r: "coro_sched_wait s = Some r" "case r of Inl n \<Rightarrow> True
    | Inr (q, t) \<Rightarrow> \<exists>c C'. q = Some c \<and> c \<in> set (h # l) \<and> sched_rel (remove1 c (h # l)) t \<and>
        map_option is_finished (coros t c) = Some True \<and> any.ready (set (h # l) - {c}) (C' :: nat \<Rightarrow> unit) t"
    using any.wait_returns [OF assms(1) [unfolded Cons] rdy] by blast
  show ?thesis
  proof (cases r)
    case (Inr x)
    then obtain c t C' where x: "x = (Some c, t)" "c \<in> set cl" "sched_rel (remove1 c cl) t"
      "map_option is_finished (coros t c) = Some True" "any.ready (set cl - {c}) (C' :: nat \<Rightarrow> unit) t"
      using r(2) Cons by (cases x) auto
    have "distinct cl"
      using assms(1) dll_distinct [of next_coro prev_coro "coros s" None "coro_list s" cl]
      by (simp add: sched_rel_def linked_def)
    with x(5) have "sound_coros (remove1 c cl) t"
      by (simp add: any.ready_def sound_coros_def set_remove1_eq)
    with x r(1) Inr show ?thesis by (simp add: coro_is_finished_def)
  qed (use r in simp)
qed

theorem coro_sched_wait_returns_witness:
  "\<exists>r. coro_sched_wait three = Some r \<and> (case r of Inl n \<Rightarrow> True
    | Inr (None, t) \<Rightarrow> [2, 1, 0 :: nat] = [] \<and> t = three
    | Inr (Some c, t) \<Rightarrow> c \<in> set [2, 1, 0] \<and> sched_rel (remove1 c [2, 1, 0]) t \<and>
        sound_coros (remove1 c [2, 1, 0]) t \<and> coro_is_finished c t = Some True)"
  by (rule coro_sched_wait_returns [OF three_rel])






text \<open>
  C18: As long as nobody finishes, the coroutines take turns: one pass runs one slice of
  each, in the order of the list, and counts one switch for each.
\<close>

theorem coro_body_round_robin:
  assumes "linked (h # cl) s" and "is_sched_waiting s"
    and "coro_round (map (job s) (h # cl)) (user s) = Some (js, u)"
  shows "\<exists>t. coro_body h s = Some (Inr t) \<and> linked (h # cl) t \<and> map (job t) (h # cl) = js \<and> user t = u"
  using body_round [of "[]" h cl s js u] assms by auto

definition three_waiting :: "int list sched" where
  "three_waiting = three\<lparr>is_sched_waiting := True\<rparr>"

lemma three_waiting_facts:
  "linked [2, 1, 0] three_waiting" "is_sched_waiting three_waiting"
  "coro_round (map (job three_waiting) [2, 1, 0]) (user three_waiting) =
    Some (map (\<lambda>i. (1, Act (\<lambda>u. u @ [i]) (\<lambda>u. Return i))) [12, 11, 10], [12, 11, 10])"
  using three_linked by (simp_all add: three_waiting_def linked_def) (simp add: three_def job_def twice_def)

theorem coro_body_round_robin_witness:
  "\<exists>t. coro_body 2 three_waiting = Some (Inr t) \<and> linked [2, 1, 0] t \<and>
    map (job t) [2, 1, 0] = map (\<lambda>i. (1, Act (\<lambda>u. u @ [i]) (\<lambda>u. Return i))) [12, 11, 10] \<and>
    user t = [12, 11, 10]"
  by (rule coro_body_round_robin [OF three_waiting_facts])

end
