(* ===== verification/SortMain.thy ===== *)
theory SortMain
  imports SortSched CoroCorrect
begin

section \<open>The external sort: \<open>main\<close>\<close>

text \<open>
  Waiting for all coroutines, starting them, and from there the result of \<open>main\<close>.
\<close>

subsection \<open>Waiting for all coroutines\<close>

definition allocated :: "'u sched \<Rightarrow> addr set" where
  "allocated s = dom (coros s)"

lemma allocated_upd [simp]:
  "allocated (s\<lparr>coro_list := l\<rparr>) = allocated s" "allocated (s\<lparr>coro_this_ptr := p\<rparr>) = allocated s"
  "allocated (s\<lparr>is_sched_waiting := b\<rparr>) = allocated s" "allocated (s\<lparr>sched_switch_count := n\<rparr>) = allocated s"
  "allocated (s\<lparr>user := u\<rparr>) = allocated s"
  by (simp_all add: allocated_def)

lemma allocated_upd_coro: "upd_coro c g s = Some t \<Longrightarrow> allocated t = allocated s"
  by (auto simp: upd_coro_def allocated_def split: bind_splits if_splits)

lemma allocated_yield: "coro_yield c p s = Some (d, t) \<Longrightarrow> allocated t = allocated s"
  by (auto simp: coro_yield_def Let_def dest!: allocated_upd_coro split: bind_splits if_splits)

lemma allocated_upd_ptr:
  "(case p of None \<Rightarrow> Some s | Some a \<Rightarrow> upd_coro a (g a) s) = Some t \<Longrightarrow> allocated t = allocated s"
  by (cases p) (auto dest: allocated_upd_coro)

lemma allocated_list_delete: "coro_list_delete c s = Some t \<Longrightarrow> allocated t = allocated s"
  unfolding coro_list_delete_def Let_def
  by (auto elim!: bind_eq_SomeE dest!: allocated_upd_ptr split: if_splits)

lemma allocated_body:
  "coro_body c s = Some r \<Longrightarrow> case r of Inl n \<Rightarrow> True | Inr t \<Rightarrow> allocated t = allocated s"
proof (rule coro_body.raw_induct [where P = "\<lambda>c s r. case r of Inl n \<Rightarrow> True | Inr t \<Rightarrow> allocated t = allocated s"])
  fix body and c and s :: "'a sched" and r
  assume IH: "\<And>c s r. body c s = Some r \<Longrightarrow> case r of Inl n \<Rightarrow> True | Inr t \<Rightarrow> allocated t = allocated (s :: 'a sched)"
    and run: "do {
     co \<leftarrow> coros s c;
     let s = s\<lparr>coro_this_ptr := Coro c\<rparr>;
     r \<leftarrow> run_slice (switch_count co) (ctx co) (user s);
     (case r of
        Exited n \<Rightarrow> Some (Inl n)
      | Returned r u \<Rightarrow> do {
          s \<leftarrow> upd_coro c (\<lambda>co. co\<lparr>ret := r\<rparr>) (s\<lparr>user := u\<rparr>);
          s \<leftarrow> upd_coro c (\<lambda>co. co\<lparr>is_finished := True\<rparr>) s;
          if \<not> is_sched_waiting s then Some (Inl (-1)) else Some (Inr s) }
      | Yielded p u \<Rightarrow> do {
          (to, s) \<leftarrow> coro_yield c p (s\<lparr>user := u\<rparr>);
          (case to of None \<Rightarrow> Some (Inr s) | Some d \<Rightarrow> body d s) }) } = Some r"
  show "case r of Inl n \<Rightarrow> True | Inr t \<Rightarrow> allocated t = allocated s"
    using run by (auto simp: Let_def dest!: allocated_upd_coro allocated_yield IH
        split: bind_splits stop.splits option.splits if_splits sum.splits)
qed

lemma allocated_count: "count_sched_switch s = Some t \<Longrightarrow> allocated t = allocated s"
  by (auto simp: count_sched_switch_def split: who.splits)

lemma allocated_wait:
  "coro_sched_wait s = Some r \<Longrightarrow> case r of Inl n \<Rightarrow> True | Inr (q, t) \<Rightarrow> allocated t = allocated s"
proof (rule coro_sched_wait.raw_induct [where P = "\<lambda>s r. case r of Inl n \<Rightarrow> True | Inr (q, t) \<Rightarrow> allocated t = allocated s"])
  fix wait and s :: "'a sched" and r
  assume IH: "\<And>s r. wait s = Some r \<Longrightarrow> case r of Inl n \<Rightarrow> True | Inr (q, t) \<Rightarrow> allocated t = allocated (s :: 'a sched)"
    and run: "(case coro_list s of None \<Rightarrow> Some (Inr (None, s))
      | Some h \<Rightarrow> do {
          found \<leftarrow> find_finished (Some h) s;
          (case found of
             Some c \<Rightarrow> do { s \<leftarrow> coro_list_delete c s; Some (Inr (Some c, s)) }
           | None \<Rightarrow> do {
               let s = s\<lparr>is_sched_waiting := True\<rparr>;
               s \<leftarrow> count_sched_switch s;
               r \<leftarrow> coro_body h s;
               (case r of
                  Inl n \<Rightarrow> Some (Inl n)
                | Inr s \<Rightarrow> do {
                    let s = s\<lparr>coro_this_ptr := Sched\<rparr>;
                    wait (s\<lparr>is_sched_waiting := False\<rparr>) }) }) }) = Some r"
  show "case r of Inl n \<Rightarrow> True | Inr (q, t) \<Rightarrow> allocated t = allocated s"
    using run by (auto simp: Let_def dest!: allocated_list_delete allocated_body allocated_count IH
        split: bind_splits option.splits sum.splits)
qed

context finishing
begin

lemma wait_all_returns:
  "sched_rel cl s \<Longrightarrow> ready (set cl) C s \<Longrightarrow> allocated s = set cl \<Longrightarrow>
   \<exists>r. wait_all s = Some r \<and> (case r of Inl n \<Rightarrow> okx n
     | Inr t \<Rightarrow> sched_rel [] t \<and> allocated t = {} \<and> (\<exists>C'. ready {} C' t))"
proof (induction "length cl" arbitrary: cl s C)
  case 0
  then have "coro_sched_wait s = Some (Inr (None, s))" using wait_empty by simp
  then show ?case using 0 by (auto simp: wait_all.simps [of s])
next
  case (Suc k)
  then obtain h l where cl: "cl = h # l" by (cases cl) auto
  obtain r where r: "coro_sched_wait s = Some r" "case r of Inl n \<Rightarrow> okx n
    | Inr (q, t) \<Rightarrow> \<exists>c C'. q = Some c \<and> c \<in> set cl \<and> sched_rel (remove1 c cl) t \<and>
        map_option is_finished (coros t c) = Some True \<and> ready (set cl - {c}) C' t"
    using wait_returns Suc.prems(1,2) unfolding cl by blast
  show ?case
  proof (cases r)
    case (Inl n)
    with r show ?thesis by (simp add: wait_all.simps [of s])
  next
    case (Inr x)
    with r(2) obtain c t C' where x: "x = (Some c, t)" "c \<in> set cl" "sched_rel (remove1 c cl) t"
      "map_option is_finished (coros t c) = Some True" "ready (set cl - {c}) C' t"
      by (cases x) auto
    have "distinct cl"
      using Suc.prems(1) dll_distinct [of next_coro prev_coro "coros s" None "coro_list s" cl]
      by (simp add: sched_rel_def linked_def)
    then have rest: "set (remove1 c cl) = set cl - {c}" by (rule set_remove1_eq)
    obtain co where co: "coros t c = Some co" using x(4) by auto
    let ?t = "t\<lparr>coros := (coros t)(c := None)\<rparr>"
    have del: "coro_delete c t = Some ?t" "sched_rel (remove1 c cl) ?t"
      using coro_delete_rel [OF x(3) _ co] rest by simp_all
    have "ready (set (remove1 c cl)) C' ?t" using x(5) unfolding rest ready_def by simp
    moreover have "allocated ?t = set (remove1 c cl)"
      using allocated_wait [OF r(1)] Inr x(1) Suc.prems(3) rest by (simp add: allocated_def)
    moreover have "k = length (remove1 c cl)" using Suc.hyps(2) x(2) by (simp add: length_remove1)
    ultimately obtain y where y: "wait_all ?t = Some y" "case y of Inl n \<Rightarrow> okx n
      | Inr t \<Rightarrow> sched_rel [] t \<and> allocated t = {} \<and> (\<exists>C'. ready {} C' t)"
      using Suc.hyps(1) del(2) by blast
    have "wait_all s = Some y" using r(1) Inr x(1) del(1) y(1) by (simp add: wait_all.simps [of s])
    with y(2) show ?thesis by blast
  qed
qed

end

subsection \<open>Starting the coroutines\<close>

lemma coro_name_fits: "int i + 1 \<le> int_max \<Longrightarrow> coro_name i = Some (''coro#'' @ show_int (int i + 1))"
proof -
  assume "int i + 1 \<le> int_max"
  then have "Suc i < 10 ^ 10" by (simp add: int_max_def)
  then have "length (show_nat (Suc i)) \<le> 10" by (intro length_show_nat) simp_all
  moreover have "show_int (int i + 1) = show_nat (Suc i)" by (simp add: show_int_def nat_add_distrib)
  ultimately show ?thesis by (simp add: coro_name_def Let_def)
qed

text \<open>What holds when \<open>k\<close> coroutines have been started.\<close>

definition started :: "world \<Rightarrow> config \<Rightarrow> nat \<Rightarrow> addr list \<Rightarrow> prog sched \<Rightarrow> bool" where
  "started w cfg k cl s \<longleftrightarrow>
     sched_rel cl s \<and> allocated s = set cl \<and> length cl = k \<and>
     (\<forall>c \<in> set cl. \<exists>i < k. map_option ctx (coros s c) =
        Some (coroutine_func_f w (Suc (length (filenames cfg))) i)) \<and>
     well_formed (filenames cfg) k (user s) \<and> file_to_sort_idx (user s) = 0 \<and>
     length (contexts (user s)) = nat (coroutines_count cfg)"

lemma started_zero: "started w cfg 0 [] (coro_sched_init (coro_start (initial_prog cfg)))"
  by (simp add: started_def sched_rel_start allocated_def)
    (simp add: coro_sched_init_def coro_start_def initial_prog_def well_formed_def)

lemma start_step:
  assumes st: "started w cfg k cl s" and k: "k < nat (coroutines_count cfg)" "coroutines_count cfg \<le> int_max"
  shows "\<exists>c t. start_coroutine w cfg k s = Some t \<and> started w cfg (Suc k) (c # cl) t"
proof -
  define con where "con = \<lparr>name = ''coro#'' @ show_int (int k + 1), total_work_time = 0, total_switch_count = 0,
     files_count = length (filenames cfg), filenames_to_sort = filenames cfg,
     coroutine_quantum = target_latency cfg div coroutines_count cfg\<rparr>"
  define p where "p = coroutine_func_f w (Suc (length (filenames cfg))) k"
  define s' where "s' = s\<lparr>user := (user s)\<lparr>contexts := (contexts (user s))[k := Some con]\<rparr>\<rparr>"
  have name: "coro_name k = Some (''coro#'' @ show_int (int k + 1))" using k by (intro coro_name_fits) simp
  have rel: "sched_rel cl s" "allocated s = set cl" "length cl = k"
    and funcs: "\<And>c. c \<in> set cl \<Longrightarrow> \<exists>i < k. map_option ctx (coros s c) =
        Some (coroutine_func_f w (Suc (length (filenames cfg))) i)"
    and prog: "well_formed (filenames cfg) k (user s)" "file_to_sort_idx (user s) = 0"
      "length (contexts (user s)) = nat (coroutines_count cfg)"
    using st by (simp_all add: started_def)
  have "sched_rel cl s'" using rel(1) by (simp add: s'_def sched_rel_def linked_def running_def)
  from coro_new_rel [OF this, of p] obtain t where
    t: "coro_new p s' = Some (fresh_coro s', t)" "sched_rel (fresh_coro s' # cl) t" "created_coro p s' t"
      "fresh_coro s' \<notin> set cl" by blast
  let ?c = "fresh_coro s'"
  have start: "start_coroutine w cfg k s = Some t"
    using name t(1) by (simp add: start_coroutine_def s'_def con_def p_def)
  have dom: "allocated t = set (?c # cl)"
  proof -
    have "c \<in> allocated t \<longleftrightarrow> c = ?c \<or> c \<in> allocated s" for c
    proof (cases "c = ?c")
      case True
      with t(3) show ?thesis by (auto simp: created_coro_def allocated_def)
    next
      case False
      with t(3) have "map_option ctx (coros t c) = map_option ctx (coros s c)"
        by (simp add: created_coro_def s'_def)
      then show ?thesis using False by (cases "coros t c"; cases "coros s c") (simp_all add: allocated_def domIff)
    qed
    then show ?thesis using rel(2) by auto
  qed
  have "\<exists>i < Suc k. map_option ctx (coros t c) = Some (coroutine_func_f w (Suc (length (filenames cfg))) i)"
    if "c \<in> set (?c # cl)" for c
  proof (cases "c = ?c")
    case True
    with t(3) have "map_option ctx (coros t c) = Some p" by (auto simp: created_coro_def)
    then show ?thesis unfolding p_def by blast
  next
    case False
    with that obtain i where "i < k" "map_option ctx (coros s c) =
        Some (coroutine_func_f w (Suc (length (filenames cfg))) i)" using funcs [of c] by auto
    moreover have "map_option ctx (coros t c) = map_option ctx (coros s c)"
      using t(3) False by (simp add: created_coro_def s'_def)
    ultimately show ?thesis by (intro exI [of _ i]) simp
  qed
  moreover have "user t = user s'" using t(3) by (simp add: created_coro_def)
  moreover have "well_formed (filenames cfg) (Suc k) (user s')"
    using prog k by (auto simp: s'_def con_def well_formed_def context_at_def at_def nth_list_update less_Suc_eq)
  ultimately have "started w cfg (Suc k) (?c # cl) t"
    using t(2) dom rel(3) prog unfolding started_def by (simp add: s'_def)
  with start show ?thesis by blast
qed

lemma start_all:
  assumes "coroutines_count cfg \<le> int_max" and "k \<le> nat (coroutines_count cfg)"
  shows "\<exists>cl s. for_each [0..<k] (\<lambda>i s. do { _ \<leftarrow> c_int (int i + 1); start_coroutine w cfg i s })
      (coro_sched_init (coro_start (initial_prog cfg))) = Some s \<and> started w cfg k cl s"
  using assms(2)
proof (induction k)
  case 0
  with started_zero show ?case by auto
next
  case (Suc k)
  then obtain cl s where s: "for_each [0..<k] (\<lambda>i s. do { _ \<leftarrow> c_int (int i + 1); start_coroutine w cfg i s })
      (coro_sched_init (coro_start (initial_prog cfg))) = Some s" "started w cfg k cl s" by auto
  have k: "k < nat (coroutines_count cfg)" using Suc.prems by simp
  from start_step [OF s(2) k assms(1)] obtain c t where
    t: "start_coroutine w cfg k s = Some t" "started w cfg (Suc k) (c # cl) t" by blast
  have "in_int (int k + 1)" using k assms(1) by (intro in_intI) (simp_all add: int_max_def)
  with s(1) t show ?case by (auto simp: for_each_append)
qed

subsection \<open>The whole run\<close>

definition valid_config :: "world \<Rightarrow> config \<Rightarrow> bool" where
  "valid_config w cfg \<longleftrightarrow> 1 \<le> coroutines_count cfg \<and> coroutines_count cfg \<le> int_max \<and> good_input w (filenames cfg)"

definition all_done :: "world \<Rightarrow> string list \<Rightarrow> nat \<Rightarrow> prog \<Rightarrow> bool" where
  "all_done w fs n u \<longleftrightarrow> well_formed fs n u \<and> (\<forall>f < length fs. file_done w fs f u)"

lemma run_all:
  assumes "valid_config w cfg"
  shows "\<exists>s r. start_coroutines w cfg (coro_sched_init (coro_start (initial_prog cfg))) = Some s \<and>
    wait_all s = Some r \<and>
    (case r of Inl n \<Rightarrow> n = -1 \<and> (\<exists>name \<in> set (filenames cfg). contents w name = None)
     | Inr t \<Rightarrow> all_done w (filenames cfg) (nat (coroutines_count cfg)) (user t) \<and> allocated t = {})"
proof -
  let ?fs = "filenames cfg" and ?n = "nat (coroutines_count cfg)"
  have cfg: "1 \<le> coroutines_count cfg" "coroutines_count cfg \<le> int_max" "good_input w ?fs"
    using assms by (simp_all add: valid_config_def)
  obtain cl s where s: "start_coroutines w cfg (coro_sched_init (coro_start (initial_prog cfg))) = Some s"
    "started w cfg ?n cl s"
    using start_all [OF cfg(2) order_refl, of w] unfolding start_coroutines_def by blast
  have st: "sched_rel cl s" "allocated s = set cl" "length cl = ?n"
    "well_formed ?fs ?n (user s)" "file_to_sort_idx (user s) = 0"
    using s(2) by (simp_all add: started_def)
  have fit: "claims_fit w ?fs ?n (set cl) (set cl) (\<lambda>c. None) (user s)"
    using st(4,5) by (simp add: claims_fit_def)
  have code: "code_ok w ?fs ?n None (coroutine_func_f w (Suc (length ?fs)) i) (user s)" if "i < ?n" for i
    using st(4) safe_coroutine_func [OF cfg(3) that] ends_coroutine_func by (simp add: code_ok_def rely_def)
  have rdy: "sorter.ready w ?fs ?n (set cl) (set cl) (\<lambda>c. None) s"
    unfolding sorter.ready_def
  proof (intro conjI fit ballI)
    fix c assume "c \<in> set cl"
    then obtain i where "i < ?n" "map_option ctx (coros s c) = Some (coroutine_func_f w (Suc (length ?fs)) i)"
      using s(2) unfolding started_def by blast
    with code show "\<exists>co. coros s c = Some co \<and> code_ok w ?fs ?n None (ctx co) (user s)" by auto
  qed
  from sorter.wait_all_returns [OF st(1) rdy st(2)] obtain r where r: "wait_all s = Some r"
    "case r of Inl n \<Rightarrow> n = -1 \<and> (\<exists>name \<in> set ?fs. contents w name = None)
     | Inr t \<Rightarrow> sched_rel [] t \<and> allocated t = {} \<and> (\<exists>C'. sorter.ready w ?fs ?n (set cl) {} C' t)"
    by blast
  have "all_done w ?fs ?n (user t)" if "claims_fit w ?fs ?n (set cl) {} C (user t)" for C t
  proof -
    have "cl \<noteq> []" using st(3) cfg(1) by auto
    with that show ?thesis by (auto simp: claims_fit_def all_done_def)
  qed
  with s(1) r show ?thesis by (auto simp: sorter.ready_def split: sum.splits)
qed

text \<open>What is merged when all files are done.\<close>

definition input_numbers :: "world \<Rightarrow> string \<Rightarrow> int list" where
  "input_numbers w f = (case contents w f of None \<Rightarrow> [] | Some text \<Rightarrow>
     (case file_numbers text of None \<Rightarrow> [] | Some xs \<Rightarrow> xs))"

lemma merged_text_mset: "mset xs = mset ys \<Longrightarrow> merged_text xs = merged_text ys"
proof -
  assume "mset xs = mset ys"
  then have "sort (filter (\<lambda>v. v < int_max) xs) = sort (filter (\<lambda>v. v < int_max) ys)"
    by (intro properties_for_sort) simp_all
  then show ?thesis by (simp add: merged_text_def)
qed

lemma all_done_merge:
  assumes "all_done w fs n u"
  shows "merge_arrays (sorted_arrays u) (sorted_arrays_sizes u) (length fs) =
    Some (merged_text (concat (map (input_numbers w) fs)))"
proof -
  let ?xss = "map (\<lambda>f. sort (input_numbers w f)) fs"
  have len: "length (sorted_arrays u) = length fs" "length (sorted_arrays_sizes u) = length fs"
    using assms by (simp_all add: all_done_def well_formed_def)
  have at: "sorted_arrays u ! f = Some (map Some (sort (input_numbers w (fs ! f)))) \<and>
      sorted_arrays_sizes u ! f = Some (length (input_numbers w (fs ! f)))" if "f < length fs" for f
    using assms that by (auto simp: all_done_def file_done_def input_numbers_def)
  have "holds_arrays (sorted_arrays u) (sorted_arrays_sizes u) ?xss"
    unfolding holds_arrays_def using len at by (auto intro!: nth_equalityI)
  moreover have "\<forall>xs \<in> set ?xss. sorted xs" by auto
  ultimately have "merge_arrays (sorted_arrays u) (sorted_arrays_sizes u) (length ?xss) =
      Some (merged_text (concat ?xss))" by (rule merge_arrays_correct)
  also have "merged_text (concat ?xss) = merged_text (concat (map (input_numbers w) fs))"
    by (rule merged_text_mset) (simp add: mset_concat comp_def)
  finally show ?thesis by simp
qed

text \<open>Every array is freed, and none twice.\<close>

lemma free_arrays_frees:
  "list_all (\<lambda>a. a \<noteq> None) arrs \<Longrightarrow> free_arrays (length arrs) arrs = Some (replicate (length arrs) None)"
proof -
  assume all: "list_all (\<lambda>a. a \<noteq> None) arrs"
  have "for_each [0..<k] free_array arrs = Some (replicate k None @ drop k arrs)" if "k \<le> length arrs" for k
    using that
  proof (induction k)
    case (Suc k)
    then have k: "k < length arrs" by simp
    with all obtain a where "arrs ! k = Some a" by (auto simp: list_all_length)
    with Suc k show ?case
      by (simp add: for_each_append free_array_def nth_append list_update_append replicate_append_same [symmetric]
          Cons_nth_drop_Suc [symmetric])
  qed simp
  from this [of "length arrs"] show ?thesis by (simp add: free_arrays_def)
qed

lemma all_done_free:
  assumes "all_done w fs n u"
  shows "free_arrays (length fs) (sorted_arrays u) = Some (replicate (length fs) None)"
proof -
  have len: "length (sorted_arrays u) = length fs"
    using assms by (simp add: all_done_def well_formed_def)
  have "sorted_arrays u ! f \<noteq> None" if "f < length fs" for f
    using assms that by (auto simp: all_done_def file_done_def)
  with len free_arrays_frees [of "sorted_arrays u"] show ?thesis by (simp add: list_all_length)
qed

lemma work_time_adds_up:
  assumes "well_formed fs n u"
  shows "\<exists>t. coroutines_total_work_time u n = Some t"
proof -
  have "\<exists>t'. for_each [0..<k] (\<lambda>i t. do { con \<leftarrow> context_at u i; Some (t + total_work_time con) }) t = Some t'"
    if "k \<le> n" for k t
    using that
  proof (induction k)
    case (Suc k)
    moreover have "k < n" using Suc.prems by simp
    then obtain con where "context_at u k = Some con" using assms unfolding well_formed_def by blast
    ultimately show ?case by (auto simp: for_each_append)
  qed simp
  then show ?thesis unfolding coroutines_total_work_time_def by blast
qed

lemma main_result:
  assumes "read_config argv = Some cfg" and "valid_config w cfg"
  shows "main w argv = Some (
    if \<exists>name \<in> set (filenames cfg). contents w name = None then (-1, None)
    else if output_opens w then (0, Some (merged_text (concat (map (input_numbers w) (filenames cfg)))))
    else (1, None))"
proof -
  let ?fs = "filenames cfg" and ?n = "nat (coroutines_count cfg)"
  obtain s r where r: "start_coroutines w cfg (coro_sched_init (coro_start (initial_prog cfg))) = Some s"
    "wait_all s = Some r"
    "case r of Inl n \<Rightarrow> n = -1 \<and> (\<exists>name \<in> set ?fs. contents w name = None)
     | Inr t \<Rightarrow> all_done w ?fs ?n (user t) \<and> allocated t = {}"
    using run_all [OF assms(2)] by blast
  show ?thesis
  proof (cases r)
    case (Inl n)
    with r assms(1) show ?thesis by (simp add: main_def)
  next
    case (Inr t)
    with r(3) have d: "all_done w ?fs ?n (user t)" by simp
    then obtain time where time: "coroutines_total_work_time (user t) ?n = Some time"
      using work_time_adds_up unfolding all_done_def by blast
    have "contents w name \<noteq> None" if "name \<in> set ?fs" for name
      using d that by (auto simp: all_done_def file_done_def in_set_conv_nth)
    then have all: "\<not> (\<exists>name \<in> set ?fs. contents w name = None)" by blast
    show ?thesis
      unfolding if_not_P [OF all]
      using Inr r(1,2) time assms(1) all_done_merge [OF d] all_done_free [OF d] by (simp add: main_def)
  qed
qed

end
