(* ===== verification/SortCorrect.thy ===== *)
theory SortCorrect
  imports SortMain
begin

section \<open>The external sort: properties\<close>

text \<open>
  What the sorting program computes, on which inputs it fails, and the example input the
  properties are applied to.
\<close>

subsection \<open>Files of numbers\<close>

lemma those_map_Some [simp]: "those (map Some xs) = Some xs"
  by (induction xs) simp_all

lemma file_numbers_show: "xs \<noteq> [] \<Longrightarrow> \<forall>x \<in> set xs. in_int x \<Longrightarrow> file_numbers (show_numbers xs) = Some xs"
  by (simp add: file_numbers_def file_of_numbers)

definition starts_number :: "string \<Rightarrow> bool" where
  "starts_number s \<longleftrightarrow> (case s of [] \<Rightarrow> False | c # _ \<Rightarrow> is_space c \<or> is_digit c \<or> c = CHR ''-'' \<or> c = CHR ''+'')"

lemma scan_word: "s \<noteq> [] \<Longrightarrow> \<not> starts_number s \<Longrightarrow> scan_int s = Some (None, s, False)"
  by (cases s) (auto simp: starts_number_def scan_int_def read_sign_def)

lemma count_word:
  assumes "s \<noteq> []" and "\<not> starts_number s"
  shows "count_numbers s False n = None"
proof (cases "count_numbers s False n")
  case (Some m)
  have "\<not> (t = s \<and> \<not> e)" if "count_numbers t e k = Some m" for t e k
  proof (rule count_numbers.raw_induct [where P = "\<lambda>t e k m. \<not> (t = s \<and> \<not> e)", OF _ that])
    fix count and t e k m
    assume IH: "\<And>t e k m. count t e k = Some m \<Longrightarrow> \<not> (t = s \<and> \<not> e)"
      and run: "(if e then Some k else do { (v, rest, eof) \<leftarrow> scan_int t; count rest eof (Suc k) }) = Some m"
    show "\<not> (t = s \<and> \<not> e)"
    proof
      assume "t = s \<and> \<not> e"
      with run have "count s False (Suc k) = Some m" by (simp add: scan_word [OF assms])
      from IH [OF this] show False by simp
    qed
  qed
  from this [OF Some] show ?thesis by simp
qed simp

subsection \<open>The command line\<close>

definition plain_args :: "string list \<Rightarrow> bool" where
  "plain_args fs \<longleftrightarrow> list_all (\<lambda>a. a \<noteq> ''-n'' \<and> a \<noteq> ''-t'') fs"

lemma parse_plain: "plain_args fs \<Longrightarrow> parse_args fs cfg = (True, cfg)"
proof (induction fs arbitrary: cfg)
  case (Cons a fs)
  obtain c l n where "cfg = (c, l, n)" by (cases cfg)
  with Cons show ?case by (simp add: plain_args_def)
qed simp

lemma show_int_plain: "show_int x \<noteq> ''-n''" "show_int x \<noteq> ''-t''"
proof -
  have "show_nat n \<noteq> c # cs" if "\<not> is_digit c" for n c cs
  proof -
    obtain d ds where "show_nat n = d # ds" "is_digit d" by (rule show_nat_first)
    with that show ?thesis by auto
  qed
  moreover have "\<not> is_digit CHR ''-''" "\<not> is_digit CHR ''n''" "\<not> is_digit CHR ''t''"
    by (simp_all add: is_digit_def)
  ultimately show "show_int x \<noteq> ''-n''" "show_int x \<noteq> ''-t''" by (auto simp: show_int_def)
qed

lemma read_config_options:
  assumes "plain_args fs" and "fs \<noteq> []" and "1 \<le> c" "c \<le> l" "l \<le> long_max"
  shows "read_config (prog # ''-n'' # show_int c # ''-t'' # show_int l # fs) =
    Some \<lparr>coroutines_count = c, target_latency = l, filenames = fs\<rparr>"
proof -
  have "strtol (show_int c) = c" "strtol (show_int l) = l"
    using assms(3-5) by (intro strtol_show; simp add: long_min_def)+
  then have "parse_args (''-n'' # show_int c # ''-t'' # show_int l # fs) (3, 1000, int (length fs) + 4) =
      (True, c, l, int (length fs))"
    using parse_plain [OF assms(1)] show_int_plain by simp
  moreover have "0 < length fs" using assms(2) by simp
  ultimately show ?thesis
    using assms(3,4) by (simp add: read_config_def DEFAULT_COROUTINES_def DEFAULT_TARGET_LATENCY_def nat_add_distrib)
qed

subsection \<open>An example\<close>

text \<open>Two files; the clock moves by one microsecond with every reading.\<close>

definition demo_world :: world where
  "demo_world = \<lparr>clock_gettime = (\<lambda>n. (0, 1000 * int n)),
     contents = [''a'' \<mapsto> show_numbers [3, 1, 2], ''b'' \<mapsto> show_numbers [7, -5]], output_opens = True\<rparr>"

definition demo_args :: "string list" where
  "demo_args = ''sort'' # ''-n'' # show_int 2 # ''-t'' # show_int 4 # [''a'', ''b'']"

definition demo_config :: config where
  "demo_config = \<lparr>coroutines_count = 2, target_latency = 4, filenames = [''a'', ''b'']\<rparr>"

lemma demo_read: "read_config demo_args = Some demo_config"
  unfolding demo_args_def demo_config_def
  by (rule read_config_options) (simp_all add: plain_args_def long_max_def)

lemma demo_files:
  "file_numbers (show_numbers [3, 1, 2]) = Some [3, 1, 2]" "file_numbers (show_numbers [7, -5]) = Some [7, -5]"
  by (rule file_numbers_show; auto)+

lemma demo_valid: "valid_config demo_world demo_config"
  unfolding valid_config_def demo_config_def good_input_def demo_world_def readable_def
  by (simp add: demo_files int_max_def del: show_numbers.simps)

subsection \<open>Properties\<close>

text \<open>
  C19: On files of numbers, and whatever the clock shows, the program ends with status 0
  and the output file holds all numbers below INT_MAX of all files in order.
\<close>

theorem sort_main_correct:
  assumes "read_config argv = Some cfg" and "valid_config w cfg"
    and "\<forall>f \<in> set (filenames cfg). contents w f \<noteq> None" and "output_opens w"
  shows "main w argv = Some (0, Some (merged_text (concat (map (input_numbers w) (filenames cfg)))))"
  using main_result [OF assms(1,2)] assms(3,4) by simp

theorem sort_main_correct_witness:
  "main demo_world demo_args = Some (0, Some (merged_text [3, 1, 2, 7, -5]))"
proof -
  have "main demo_world demo_args =
      Some (0, Some (merged_text (concat (map (input_numbers demo_world) (filenames demo_config)))))"
    by (rule sort_main_correct [OF demo_read demo_valid])
      (simp_all add: demo_config_def demo_world_def)
  moreover have "concat (map (input_numbers demo_world) (filenames demo_config)) = [3, 1, 2, 7, -5]"
    using demo_files unfolding demo_config_def input_numbers_def demo_world_def
    by (simp del: show_numbers.simps)
  ultimately show ?thesis by simp
qed

text \<open>
  C20: When an input file cannot be opened, the program exits with status -1 and writes
  no output, whichever coroutine meets that file, and after however many yields.
\<close>

theorem sort_main_missing:
  assumes "read_config argv = Some cfg" and "valid_config w cfg"
    and "f \<in> set (filenames cfg)" and "contents w f = None"
  shows "main w argv = Some (-1, None)"
  using main_result [OF assms(1,2)] assms(3,4) by auto

theorem sort_main_missing_witness:
  "main (demo_world\<lparr>contents := (contents demo_world)(''b'' := None)\<rparr>) demo_args = Some (-1, None)"
proof (rule sort_main_missing [OF demo_read])
  show "valid_config (demo_world\<lparr>contents := (contents demo_world)(''b'' := None)\<rparr>) demo_config"
    unfolding valid_config_def demo_config_def good_input_def demo_world_def readable_def
    by (simp add: demo_files int_max_def del: show_numbers.simps)
  show "''b'' \<in> set (filenames demo_config)" by (simp add: demo_config_def)
qed simp

text \<open>
  C21: The result depends on the input files alone: neither the clock, which decides where
  coroutines yield, nor the number of coroutines or the latency changes it.
\<close>

theorem sort_schedule_independent:
  assumes "read_config argv = Some cfg" and "valid_config w cfg"
    and "read_config argv' = Some cfg'" and "valid_config w' cfg'"
    and "filenames cfg' = filenames cfg" and "contents w' = contents w" and "output_opens w' = output_opens w"
  shows "main w' argv' = main w argv"
proof -
  have "input_numbers w' = input_numbers w" by (rule ext) (simp add: input_numbers_def assms(6))
  then show ?thesis unfolding main_result [OF assms(1,2)] main_result [OF assms(3,4)] assms(5-7) by simp
qed

theorem sort_schedule_independent_witness:
  "main (demo_world\<lparr>clock_gettime := (\<lambda>n. (int n, 0))\<rparr>) demo_args = main demo_world demo_args"
proof (rule sort_schedule_independent [OF demo_read demo_valid demo_read])
  show "valid_config (demo_world\<lparr>clock_gettime := (\<lambda>n. (int n, 0))\<rparr>) demo_config"
    using demo_valid by (simp add: valid_config_def good_input_def)
qed simp_all

text \<open>
  C22: \<open>heap_sort\<close> sorts the array of the file its coroutine works on, although the other
  coroutines run whenever it yields: if the code behind it is safe with the array sorted,
  then \<open>heap_sort\<close> with that code is safe.
\<close>

theorem heap_sort_safe:
  assumes "holds fs n m (Some f) (ints a) u" and "2 * int (length a) \<le> int_max" and "i < n"
    and "\<And>v start. holds fs n m (Some f) (ints (sort a)) v \<Longrightarrow> safe w fs n (k start) (Some f) v"
  shows "safe w fs n (heap_sort w i quantum f (length a) start k) (Some f) u"
  using assms by (rule safe_heap_sort)

definition demo_prog :: "int list \<Rightarrow> prog" where
  "demo_prog a = \<lparr>ticks = 0, file_to_sort_idx = 1, sorted_arrays = [Some (map Some a)],
     sorted_arrays_sizes = [Some (length a)],
     contexts = [Some \<lparr>name = [], total_work_time = 0, total_switch_count = 0, files_count = 1,
       filenames_to_sort = [''c''], coroutine_quantum = 5\<rparr>]\<rparr>"

lemma demo_holds: "holds [''c''] 1 0 (Some 0) (ints [2, 3, 1]) (demo_prog [2, 3, 1])"
  by (simp add: holds_def well_formed_def demo_prog_def context_at_def)

text \<open>Code that goes on only when it finds the least number first and the greatest last.\<close>

definition demo_check :: code where
  "demo_check = array_get 0 0 (\<lambda>x. array_get 0 2 (\<lambda>y. if x = 1 \<and> y = 3 then Exit (-1) else Fail))"

lemma demo_check_safe:
  assumes "holds [''c''] 1 0 (Some 0) (ints (sort [2, 3, 1])) v"
  shows "safe demo_world [''c''] 1 demo_check (Some 0) v"
proof -
  have v: "holds [''c''] 1 0 (Some 0) (ints [1, 2, 3]) v" using assms by simp
  have "safe demo_world [''c''] 1 (Exit (-1)) (Some 0) v" by (simp add: demo_world_def)
  then show ?thesis unfolding demo_check_def by (intro safe_array_get [OF v]) simp_all
qed

theorem heap_sort_safe_witness:
  "safe demo_world [''c''] 1 (heap_sort demo_world 0 5 0 (length [2, 3, 1 :: int]) 0 (\<lambda>start. demo_check))
     (Some 0) (demo_prog [2, 3, 1])"
  by (rule heap_sort_safe [OF demo_holds _ _ demo_check_safe]) (simp_all add: int_max_def)

text \<open>
  C23: The final merge never reads outside an array, ends, and writes the numbers of the
  sorted arrays in order, as long as they are below INT_MAX.
\<close>

theorem merge_arrays_sorted:
  assumes "holds_arrays arrs szs xss" and "\<forall>xs \<in> set xss. sorted xs"
  shows "merge_arrays arrs szs (length xss) = Some (merged_text (concat xss))"
  using assms by (rule merge_arrays_correct)

theorem merge_arrays_sorted_witness:
  "merge_arrays [Some [Some 1, Some 4], Some [Some 2]] [Some 2, Some 1] 2 = Some (merged_text [1, 4, 2])"
  using merge_arrays_sorted [of "[Some [Some 1, Some 4], Some [Some 2]]" "[Some 2, Some 1]" "[[1, 4], [2]]"]
  by (simp add: holds_arrays_def numeral_2_eq_2)

text \<open>
  C24: A file that holds numbers with one blank between two of them is read as these
  numbers: the counting loop finds how many there are, the reading loop all of them.
\<close>

theorem input_roundtrip:
  assumes "xs \<noteq> []" and "\<forall>x \<in> set xs. in_int x"
  shows "count_numbers (show_numbers xs) False 0 = Some (length xs) \<and>
    read_numbers (length xs) (show_numbers xs) = Some (map Some xs)"
  using file_of_numbers [OF assms] by simp

theorem input_roundtrip_witness:
  "count_numbers (show_numbers [12, -7]) False 0 = Some (length [12, -7 :: int]) \<and>
    read_numbers (length [12, -7 :: int]) (show_numbers [12, -7]) = Some (map Some [12, -7])"
  by (rule input_roundtrip) auto

text \<open>
  C25: When the file ends with a blank or a newline, the counting loop counts one number
  too many, and the last element of the array is never assigned.
\<close>

theorem input_final_blank:
  assumes "xs \<noteq> []" and "\<forall>x \<in> set xs. in_int x" and "spaced t"
  shows "count_numbers (show_numbers xs @ t) False 0 = Some (Suc (length xs)) \<and>
    read_numbers (Suc (length xs)) (show_numbers xs @ t) = Some (map Some xs @ [None])"
  using file_with_final_blank [OF assms] by simp

theorem input_final_blank_witness:
  "count_numbers (show_numbers [5] @ [CHR 0x0A]) False 0 = Some 2 \<and>
    read_numbers 2 (show_numbers [5] @ [CHR 0x0A]) = Some [Some 5, None]"
  using input_final_blank [of "[5]" "[CHR 0x0A]"] by (simp add: in_intI spaced_def numeral_2_eq_2)

text \<open>
  C26: On text that is no number the counting loop does not return: \<open>fscanf\<close> consumes
  nothing and the end of the file is never met.
\<close>

theorem input_text_loops:
  assumes "s \<noteq> []" and "\<not> starts_number s"
  shows "scan_int s = Some (None, s, False) \<and> count_numbers s False n = None"
  using scan_word [OF assms] count_word [OF assms] by blast

theorem input_text_loops_witness:
  "scan_int ''abc'' = Some (None, ''abc'', False) \<and> count_numbers ''abc'' False 0 = None"
  by (rule input_text_loops) (simp_all add: starts_number_def is_space_def is_digit_def)

end
