(* ===== verification/Doubles.thy ===== *)
theory Doubles
  imports Complex_Main Prelude
begin

section \<open>Doubles\<close>

text \<open>
  What \<open>homework-04/thread_pool.c\<close> uses of \<open>double\<close>, on a platform with IEEE arithmetic: the
  conversions from and to \<open>long\<close>, a difference, a product and a comparison. \<open>Finite m e\<close> is the
  number \<open>m * 2 ^ e\<close>; a zero has no sign. Results are rounded to the nearest double, ties to
  the even one, with subnormal results and overflow to an infinity.
\<close>

datatype double = Finite int int | PosInf | NegInf | NaN

fun is_double :: "double \<Rightarrow> bool" where
  "is_double (Finite m e) \<longleftrightarrow> \<bar>m\<bar> < 2 ^ 53 \<and> -1074 \<le> e \<and> e \<le> 971"
| "is_double _ \<longleftrightarrow> True"

text \<open>What a finite double stands for.\<close>

definition scaled :: "int \<Rightarrow> int \<Rightarrow> rat" where
  "scaled m e = of_int m * 2 powi e"

subsection \<open>Rounding\<close>

text \<open>The number of binary digits.\<close>

function bits :: "int \<Rightarrow> nat" where
  "bits n = (if n \<le> 0 then 0 else Suc (bits (n div 2)))"
  by auto
termination by (relation "measure nat") auto

declare bits.simps [simp del]

text \<open>\<open>n\<close> divided by \<open>2 ^ k\<close>, rounded.\<close>

definition round_quot :: "int \<Rightarrow> nat \<Rightarrow> int" where
  "round_quot n k = (let q = n div 2 ^ k; r = n mod 2 ^ k in
     if 2 * r < 2 ^ k \<or> 2 * r = 2 ^ k \<and> even q then q else q + 1)"

text \<open>The double nearest to \<open>n * 2 ^ e\<close>.\<close>

definition fround :: "int \<Rightarrow> int \<Rightarrow> double" where
  "fround n e =
     (if n = 0 then Finite 0 0
      else
        let k = max (int (bits \<bar>n\<bar>) - 53) (- 1074 - e);
            (q, f) = (if k \<le> 0 then (\<bar>n\<bar>, e) else (round_quot \<bar>n\<bar> (nat k), e + k))
        in if int (bits q) + f > 1024 then (if n < 0 then NegInf else PosInf)
           else Finite (sgn n * q) f)"

subsection \<open>Operations\<close>

text \<open>The sign of an infinity, and back.\<close>

fun inf_sign :: "double \<Rightarrow> int" where
  "inf_sign PosInf = 1"
| "inf_sign NegInf = -1"
| "inf_sign _ = 0"

fun sign_of :: "double \<Rightarrow> int" where
  "sign_of (Finite m e) = sgn m"
| "sign_of x = inf_sign x"

definition inf_of :: "int \<Rightarrow> double" where
  "inf_of s = (if s > 0 then PosInf else if s < 0 then NegInf else NaN)"

fun fsub :: "double \<Rightarrow> double \<Rightarrow> double" where
  "fsub (Finite m e) (Finite n f) =
     (let g = min e f in fround (m * 2 ^ nat (e - g) - n * 2 ^ nat (f - g)) g)"
| "fsub x y = (if x = NaN \<or> y = NaN then NaN else inf_of (inf_sign x - inf_sign y))"

fun fmul :: "double \<Rightarrow> double \<Rightarrow> double" where
  "fmul (Finite m e) (Finite n f) = fround (m * n) (e + f)"
| "fmul x y = inf_of (sign_of x * sign_of y)"

fun fless :: "double \<Rightarrow> double \<Rightarrow> bool" where
  "fless (Finite m e) (Finite n f) \<longleftrightarrow> (let g = min e f in m * 2 ^ nat (e - g) < n * 2 ^ nat (f - g))"
| "fless x y \<longleftrightarrow> x \<noteq> NaN \<and> y \<noteq> NaN \<and> inf_sign x < inf_sign y"

text \<open>\<open>long\<close> has 64 bits; signed overflow is undefined, and so is the cast of a double it cannot hold.\<close>

definition c_long :: "int \<Rightarrow> int option" where
  "c_long i = (if - (2 ^ 63) \<le> i \<and> i < 2 ^ 63 then Some i else None)"

definition of_long :: "int \<Rightarrow> double" where
  "of_long z = fround z 0"

fun to_long :: "double \<Rightarrow> int option" where
  "to_long (Finite m e) = c_long (if 0 \<le> e then m * 2 ^ nat e else m sdiv 2 ^ nat (- e))"
| "to_long _ = None"

subsection \<open>Facts on rounding\<close>

lemma bits_bounds: "0 < n \<Longrightarrow> 0 < bits n \<and> 2 ^ (bits n - 1) \<le> n \<and> n < 2 ^ bits n"
proof (induction n rule: bits.induct)
  case (1 n)
  show ?case
  proof (cases "n = 1")
    case True
    then show ?thesis by (simp add: bits.simps)
  next
    case False
    with 1 have IH: "0 < bits (n div 2)" "2 ^ (bits (n div 2) - 1) \<le> n div 2" "n div 2 < 2 ^ bits (n div 2)" by auto
    then obtain b where b: "bits (n div 2) = Suc b" by (cases "bits (n div 2)") auto
    have "bits n = Suc (Suc b)" using 1(2) b by (simp add: bits.simps [of n])
    with IH b show ?thesis by auto
  qed
qed

lemma bits_le: "n < 2 ^ k \<Longrightarrow> bits n \<le> k"
proof (cases "0 < n")
  case True
  assume n: "n < 2 ^ k"
  have "(2 :: int) ^ (bits n - 1) < 2 ^ k" using bits_bounds [OF True] n by linarith
  then have "bits n - 1 < k" by (rule power_less_imp_less_exp [rotated]) simp
  then show ?thesis by simp
qed (simp add: bits.simps)

lemma bits_eq: "2 ^ k \<le> n \<Longrightarrow> n < 2 ^ Suc k \<Longrightarrow> bits n = Suc k"
proof -
  assume n: "2 ^ k \<le> n" "n < 2 ^ Suc k"
  have "0 < (2 :: int) ^ k" by simp
  with n have "0 < n" by linarith
  from bits_bounds [OF this] n have "(2 :: int) ^ k < 2 ^ bits n" by linarith
  then have "k < bits n" by (rule power_less_imp_less_exp [rotated]) simp
  with bits_le [OF n(2)] show ?thesis by simp
qed

lemma round_quot_near: "2 * \<bar>round_quot n k * 2 ^ k - n\<bar> \<le> 2 ^ k"
proof -
  define q r where "q = n div 2 ^ k" and "r = n mod 2 ^ k"
  have n: "n = q * 2 ^ k + r" unfolding q_def r_def by (rule div_mult_mod_eq [symmetric])
  have r: "0 \<le> r" "r < 2 ^ k" by (simp_all add: r_def)
  have "round_quot n k = q \<and> 2 * r \<le> 2 ^ k \<or> round_quot n k = q + 1 \<and> 2 ^ k \<le> 2 * r"
    by (auto simp: round_quot_def Let_def q_def r_def)
  then show ?thesis
  proof (elim disjE conjE)
    assume "round_quot n k = q" "2 * r \<le> 2 ^ k"
    with n r show ?thesis by simp
  next
    assume q: "round_quot n k = q + 1" "2 ^ k \<le> 2 * r"
    have eq: "round_quot n k * 2 ^ k - n = 2 ^ k - r" unfolding q(1) by (subst n) (simp add: distrib_right)
    show ?thesis unfolding eq using q(2) r by simp
  qed
qed

lemma div_lessI: "0 < d \<Longrightarrow> n < c * d \<Longrightarrow> n div d < (c :: int)"
proof (rule ccontr)
  assume d: "0 < d" "n < c * d" and "\<not> n div d < c"
  then have "c * d \<le> n div d * d" by (simp add: mult_right_mono)
  also have "\<dots> \<le> n" using d(1) by (simp add: minus_mod_eq_div_mult [symmetric])
  finally show False using d(2) by simp
qed

lemma round_quot_exact: "2 ^ k dvd n \<Longrightarrow> round_quot n k * 2 ^ k = n"
  by (auto simp: round_quot_def Let_def)

lemma round_quot_nonneg: "0 \<le> n \<Longrightarrow> 0 \<le> round_quot n k"
  by (simp add: round_quot_def Let_def pos_imp_zdiv_nonneg_iff)

lemma scaled_shift: "scaled (m * 2 ^ k) e = scaled m (e + int k)"
  by (simp add: scaled_def power_int_add)

text \<open>A positive result that does not overflow is within half a unit in the last place.\<close>

lemma fround_near:
  assumes n: "0 < n" "n < 2 ^ b" and e: "-1074 \<le> e" "int b + e \<le> 1023"
  obtains q f where "fround n e = Finite q f" "e \<le> f" "0 \<le> q"
    "\<bar>scaled q f - scaled n e\<bar> \<le> 2 powi (int b + e - 54)"
    "\<And>j. 2 ^ j dvd n \<Longrightarrow> bits n \<le> 53 + j \<Longrightarrow> scaled q f = scaled n e"
proof (cases "bits n \<le> 53")
  case True
  have "bits n \<le> b" by (rule bits_le [OF n(2)])
  with True n(1) e have "fround n e = Finite n e"
    by (simp add: fround_def Let_def)
  then show thesis by (rule that) (use n in simp_all)
next
  case False
  let ?k = "bits n - 53"
  let ?q = "round_quot n ?k" and ?f = "e + int ?k"
  have b: "bits n \<le> b" by (rule bits_le [OF n(2)])
  have "n < 2 ^ (53 + ?k)" using bits_bounds [OF n(1)] False by simp
  then have "n div 2 ^ ?k < 2 ^ 53" by (intro div_lessI) (simp_all add: power_add)
  moreover have "?q \<le> n div 2 ^ ?k + 1" by (simp add: round_quot_def Let_def)
  ultimately have "?q < 2 ^ 54" by simp
  then have "bits ?q \<le> 54" by (rule bits_le)
  then have "int (bits ?q) + ?f \<le> 1024" using e b False by simp
  moreover have "max (int (bits n) - 53) (- 1074 - e) = int ?k" "0 < ?k" using False e(1) by auto
  moreover have "nat (int (bits n) - 53) = ?k" by (simp add: nat_diff_distrib)
  ultimately have r: "fround n e = Finite ?q ?f"
    using n(1) by (simp add: fround_def Let_def)
  have "scaled ?q ?f - scaled n e = of_int (?q * 2 ^ ?k - n) * 2 powi e"
    by (simp add: scaled_def power_int_add left_diff_distrib)
  then have half: "\<bar>scaled ?q ?f - scaled n e\<bar> = of_int \<bar>?q * 2 ^ ?k - n\<bar> * 2 powi e"
    by (simp only: abs_mult) simp
  show thesis
  proof (rule that [OF r])
    show "0 \<le> ?q" using n(1) by (simp add: round_quot_nonneg)
    show "scaled ?q ?f = scaled n e" if "2 ^ j dvd n" "bits n \<le> 53 + j" for j
    proof -
      have "2 ^ ?k dvd n" by (rule dvd_trans [OF le_imp_power_dvd that(1)]) (use that(2) in simp)
      from round_quot_exact [OF this] half show ?thesis by simp
    qed
    have "2 * \<bar>?q * 2 ^ ?k - n\<bar> \<le> 2 ^ ?k" by (rule round_quot_near)
    then have "of_int (2 * \<bar>?q * 2 ^ ?k - n\<bar>) \<le> (of_int (2 ^ ?k) :: rat)" by (simp only: of_int_le_iff)
    then have "of_int \<bar>?q * 2 ^ ?k - n\<bar> \<le> (2 ^ ?k / 2 :: rat)" by simp
    then have "\<bar>scaled ?q ?f - scaled n e\<bar> \<le> 2 ^ ?k / 2 * 2 powi e"
      unfolding half by (rule mult_right_mono) simp
    also have "\<dots> = 2 powi (int ?k + e - 1)" by (simp add: power_int_add power_int_diff)
    also have "\<dots> \<le> 2 powi (int b + e - 54)" by (rule power_int_increasing) (use b False in auto)
    finally show "\<bar>scaled ?q ?f - scaled n e\<bar> \<le> 2 powi (int b + e - 54)" .
  qed simp
qed

lemma fround_small:
  assumes "0 \<le> n" "n < 2 ^ 53" "-1074 \<le> e" "e \<le> 971"
  shows "fround n e = Finite n (if n = 0 then 0 else e)"
proof -
  have "bits n \<le> 53" by (rule bits_le [OF assms(2)])
  with assms show ?thesis by (simp add: fround_def Let_def)
qed

subsection \<open>Whole and fractional part\<close>

lemma scaled_nonneg: "0 \<le> m \<Longrightarrow> 0 \<le> scaled m e"
  by (simp add: scaled_def)

lemma scaled_inject: "scaled m e = scaled n e \<Longrightarrow> m = n"
  by (simp add: scaled_def)

lemma scaled_neg: "e < 0 \<Longrightarrow> scaled m e = of_int m / of_int (2 ^ nat (- e))"
  by (simp add: scaled_def power_int_def field_simps)

lemma scaled_pos: "0 \<le> e \<Longrightarrow> scaled m e = of_int (m * 2 ^ nat e)"
  by (simp add: scaled_def power_int_def)

lemma floor_scaled:
  "\<lfloor>scaled m e\<rfloor> = (if 0 \<le> e then m * 2 ^ nat e else m div 2 ^ nat (- e))"
proof (cases "0 \<le> e")
  case True
  then show ?thesis by (simp only: scaled_pos floor_of_int if_True)
next
  case False
  then have "scaled m e = of_int m / of_int (2 ^ nat (- e))" by (intro scaled_neg) simp
  then show ?thesis unfolding if_not_P [OF False] by (simp only: floor_divide_of_int_eq)
qed

lemma to_long_floor: "0 \<le> m \<Longrightarrow> to_long (Finite m e) = c_long \<lfloor>scaled m e\<rfloor>"
  by (cases "m = 0") (simp_all add: floor_scaled signed_divide_int_def)

text \<open>The subtraction of the whole part is exact.\<close>

lemma fractional_part:
  assumes m: "0 < m" "is_double (Finite m e)" and small: "\<lfloor>scaled m e\<rfloor> < 2 ^ 63"
  obtains r g where "fsub (Finite m e) (of_long \<lfloor>scaled m e\<rfloor>) = Finite r g" "0 \<le> r" "r < 2 ^ 53" "-1074 \<le> g"
    "scaled r g = scaled m e - of_int \<lfloor>scaled m e\<rfloor>" "g \<le> 0" "r < 2 ^ nat (- g)"
proof (cases "0 \<le> e")
  case True
  let ?T = "m * 2 ^ nat e"
  have T: "\<lfloor>scaled m e\<rfloor> = ?T" using True by (simp add: floor_scaled)
  have "m * 2 ^ nat e < 2 ^ 53 * 2 ^ nat e" using m by (intro mult_strict_right_mono) simp_all
  then have "bits ?T \<le> 53 + nat e" by (intro bits_le) (simp add: power_add)
  moreover have "0 < ?T" "?T < 2 ^ 63" using m(1) small T by simp_all
  then obtain q f where q: "fround ?T 0 = Finite q f" "0 \<le> f" "0 \<le> q"
    "\<bar>scaled q f - scaled ?T 0\<bar> \<le> 2 powi (int 63 + 0 - 54)"
    "\<And>j. 2 ^ j dvd ?T \<Longrightarrow> bits ?T \<le> 53 + j \<Longrightarrow> scaled q f = scaled ?T 0"
    by (rule fround_near [where b = 63 and e = 0]) simp_all
  ultimately have ex: "scaled q f = scaled ?T 0" by (intro q(5)) simp_all
  have eq: "scaled q f = scaled m e" using ex scaled_shift [of m "nat e" 0] True by simp
  let ?g = "min e f"
  have al: "scaled (m * 2 ^ nat (e - ?g)) ?g = scaled m e" "scaled (q * 2 ^ nat (f - ?g)) ?g = scaled q f"
    by (simp_all add: scaled_shift)
  have "m * 2 ^ nat (e - ?g) = q * 2 ^ nat (f - ?g)"
    using al eq by (intro scaled_inject [of _ ?g]) simp
  then have "fsub (Finite m e) (of_long \<lfloor>scaled m e\<rfloor>) = Finite 0 0"
    unfolding T of_long_def q(1) by (simp add: Let_def fround_def)
  from that [OF this] T scaled_pos [OF True, of m] show thesis by (simp add: scaled_def)
next
  case False
  let ?d = "nat (- e)" and ?T = "m div 2 ^ nat (- e)" and ?r = "m mod 2 ^ nat (- e)"
  have T: "\<lfloor>scaled m e\<rfloor> = ?T" using False by (simp add: floor_scaled)
  have "?T \<le> m" using zdiv_mono2 [of m 1 "2 ^ ?d"] m(1) by simp
  then have one: "of_long ?T = Finite ?T 0"
    using m by (simp add: of_long_def fround_small pos_imp_zdiv_nonneg_iff)
  have r: "0 \<le> ?r" "?r < 2 ^ 53" "?r < 2 ^ ?d"
    using m zmod_le_nonneg_dividend [of m "2 ^ ?d"] by simp_all
  have "m - ?T * 2 ^ ?d = ?r" by (simp add: minus_div_mult_eq_mod)
  then have "fsub (Finite m e) (of_long \<lfloor>scaled m e\<rfloor>) = fround ?r e"
    using False unfolding T one by (simp add: Let_def min_def)
  also have "\<dots> = Finite ?r (if ?r = 0 then 0 else e)" using r m(2) by (intro fround_small) simp_all
  finally have f: "fsub (Finite m e) (of_long \<lfloor>scaled m e\<rfloor>) = Finite ?r (if ?r = 0 then 0 else e)" .
  have neg: "e < 0" using False by simp
  have "of_int (m - ?T * 2 ^ ?d) / of_int (2 ^ ?d) = of_int m / of_int (2 ^ ?d) - (of_int ?T :: rat)"
    by (simp add: diff_divide_distrib)
  then have "scaled m e - of_int ?T = scaled (m - ?T * 2 ^ ?d) e"
    unfolding scaled_neg [OF neg] by simp
  then have v: "scaled ?r (if ?r = 0 then 0 else e) = scaled m e - of_int \<lfloor>scaled m e\<rfloor>"
    unfolding T by (simp add: minus_div_mult_eq_mod) (simp add: scaled_def)
  show thesis by (rule that [OF f r(1,2) _ v]) (use r False m(2) in auto)
qed

text \<open>The fraction times a billion: the product is rounded once, then cut to a whole number.\<close>

lemma of_long_small: "0 \<le> z \<Longrightarrow> z < 2 ^ 53 \<Longrightarrow> of_long z = Finite z 0"
  by (simp add: of_long_def fround_small)

lemma fraction_nsec:
  assumes m: "0 < m" "is_double (Finite m e)" and small: "\<lfloor>scaled m e\<rfloor> < 2 ^ 63"
  obtains N where
    "to_long (fmul (fsub (Finite m e) (of_long \<lfloor>scaled m e\<rfloor>)) (of_long 1000000000)) = Some N"
    "0 \<le> N" "N \<le> 1000000000"
    "\<bar>of_int N + 1 / 2 - (scaled m e - of_int \<lfloor>scaled m e\<rfloor>) * 1000000000\<bar> \<le> 1 / 2 + 1 / 2 ^ 24"
proof -
  obtain r g where r: "fsub (Finite m e) (of_long \<lfloor>scaled m e\<rfloor>) = Finite r g" "0 \<le> r" "r < 2 ^ 53" "-1074 \<le> g"
    "scaled r g = scaled m e - of_int \<lfloor>scaled m e\<rfloor>" "g \<le> 0" "r < 2 ^ nat (- g)"
    by (rule fractional_part [OF m small])
  obtain q f where q: "fround (r * 1000000000) g = Finite q f" "0 \<le> q"
    "\<bar>scaled q f - scaled (r * 1000000000) g\<bar> \<le> 1 / 2 ^ 24"
  proof (cases "r = 0")
    case True
    then show thesis by (intro that [of 0 0]) (simp_all add: fround_def scaled_def)
  next
    case False
    have "r * 1000000000 < 2 ^ nat (- g) * 2 ^ 30"
      using r(7) by (intro mult_strict_mono) (use r(2) in simp_all)
    then have lt: "r * 1000000000 < 2 ^ (nat (- g) + 30)" by (simp add: power_add)
    have "int (nat (- g) + 30) + g - 54 = - 24" using r(6) by simp
    then have "(2 :: rat) powi (int (nat (- g) + 30) + g - 54) = 1 / 2 ^ 24"
      by (simp only:) (simp add: power_int_def power_divide)
    with fround_near [OF _ lt, of g] False r(2,4,6) that show thesis by fastforce
  qed
  let ?v = "scaled q f" and ?x = "scaled m e - of_int \<lfloor>scaled m e\<rfloor>"
  have x: "scaled (r * 1000000000) g = ?x * 1000000000"
    unfolding r(5) [symmetric] by (simp add: scaled_def)
  have "?x < 1" by linarith
  have v: "\<bar>?v - ?x * 1000000000\<bar> \<le> 1 / 2 ^ 24" using q(3) unfolding x .
  have v0: "0 \<le> ?v" by (rule scaled_nonneg [OF q(2)])
  have "1 / 2 ^ 24 \<le> (1 :: rat)" by simp
  with v have "?v - ?x * 1000000000 \<le> 1" by linarith
  moreover have "?x * 1000000000 < 1000000000" using mult_strict_right_mono [OF \<open>?x < 1\<close>, of 1000000000] by simp
  ultimately have "?v < 1000000000 + 1" by linarith
  then have "?v < 1000000001" by simp
  then have N: "0 \<le> \<lfloor>?v\<rfloor>" "\<lfloor>?v\<rfloor> \<le> 1000000000" using v0 by linarith+
  have "to_long (fmul (fsub (Finite m e) (of_long \<lfloor>scaled m e\<rfloor>)) (of_long 1000000000)) = Some \<lfloor>?v\<rfloor>"
    using N by (simp add: r(1) of_long_small q(1) to_long_floor [OF q(2)] c_long_def del: to_long.simps)
  moreover have "\<bar>of_int \<lfloor>?v\<rfloor> + 1 / 2 - ?x * 1000000000\<bar> \<le> 1 / 2 + 1 / 2 ^ 24"
    using v floor_correct [of ?v] by linarith
  ultimately show thesis by (rule that [OF _ N])
qed

end
