(* ===== verification/PoolModel.thy ===== *)
theory PoolModel
  imports Doubles Links
begin

section \<open>The thread pool: state and operations\<close>

text \<open>
  \<open>homework-04/thread_pool.c\<close>: worker threads take tasks from a list and run them; clients
  push tasks, join them and delete the pool.

  All data of the pool is guarded by \<open>pool->mutex\<close>, that of a task by \<open>task->mutex\<close>. A
  section of code between taking a mutex and giving it up (by unlocking it or by waiting
  on a condition variable) is one atomic operation here; what is done without a mutex
  (\<open>task->is_running = true\<close>, calling the function of the task) is an operation of its own.
  A thread is where it stands between two such sections. A thread that waits on a condition
  variable sleeps until a signal wakes it, and then tests its condition again.

  \<open>None\<close> is undefined behaviour: an access to a task or pool that has been freed.
\<close>

subsection \<open>Data\<close>

definition TPOOL_MAX_THREADS :: int where "TPOOL_MAX_THREADS = 20"

definition TPOOL_MAX_TASKS :: int where "TPOOL_MAX_TASKS = 100000"

text \<open>\<open>enum thread_pool_errcode\<close>, and 0 for success.\<close>

datatype errcode =
    TPOOL_OK
  | TPOOL_ERR_INVALID_ARGUMENT
  | TPOOL_ERR_TOO_MANY_TASKS
  | TPOOL_ERR_HAS_TASKS
  | TPOOL_ERR_TASK_NOT_PUSHED
  | TPOOL_ERR_TASK_IN_POOL
  | TPOOL_ERR_NOT_IMPLEMENTED
  | TPOOL_ERR_TIMEOUT

text \<open>There is one pool, so \<open>task->pool\<close> is NULL (\<open>False\<close>) or points to it.\<close>

record task =
  task_function :: nat
  task_arg :: int
  task_pool :: bool
  is_detached :: bool
  is_running :: bool
  is_finished :: bool
  task_result :: int
  next_task :: ptr

text \<open>\<open>threads\<close> is an array of thread numbers, an element being \<open>None\<close> before it is stored.\<close>

record tpool =
  threads :: "nat option list option"
  max_thread_count :: int
  thread_count :: int
  idle_thread_count :: int
  thread_idx_that_should_exit :: int
  pending_task_count :: int
  running_task_count :: int
  pending_task_list :: ptr

text \<open>
  Where a worker stands: created; asleep on \<open>pool->cv\<close>; woken; with a task taken; with
  \<open>is_running\<close> set; with the result of the function; gone.
\<close>

datatype worker_pc = WStart | WSleep | WWoken | WTaken addr | WRunning addr | WResult addr int | WExited

text \<open>
  Where a client stands: outside the library, with the last return code and \<open>*result\<close>; in
  the push of a task, waiting on \<open>spawn_cv\<close> until there are that many threads; in a join,
  waiting on the \<open>cv\<close> of a task; in the deletion of the pool, waiting for the exit of
  \<open>threads[i]\<close>. The last component tells whether it has been woken.
\<close>

datatype client_pc =
    CReturned errcode "int option"
  | CSpawn addr int bool
  | CJoin addr bool
  | CTimedJoin addr bool
  | CDelete int

record tsys =
  pool :: "tpool option"
  tasks :: "addr \<rightharpoonup> task"
  fresh_task :: addr
  worker_idx :: "int list"
  worker_pc :: "worker_pc list"
  client :: "nat \<Rightarrow> client_pc"

definition upd_pool :: "(tpool \<Rightarrow> tpool) \<Rightarrow> tsys \<Rightarrow> tsys option" where
  "upd_pool g s = do { p \<leftarrow> pool s; Some (s\<lparr>pool := Some (g p)\<rparr>) }"

definition upd_task :: "addr \<Rightarrow> (task \<Rightarrow> task) \<Rightarrow> tsys \<Rightarrow> tsys option" where
  "upd_task t g s = do { x \<leftarrow> tasks s t; Some (s\<lparr>tasks := (tasks s)(t \<mapsto> g x)\<rparr>) }"

definition set_worker :: "nat \<Rightarrow> worker_pc \<Rightarrow> tsys \<Rightarrow> tsys" where
  "set_worker w pc s = s\<lparr>worker_pc := (worker_pc s)[w := pc]\<rparr>"

definition set_client :: "nat \<Rightarrow> client_pc \<Rightarrow> tsys \<Rightarrow> tsys" where
  "set_client c pc s = s\<lparr>client := (client s)(c := pc)\<rparr>"

subsection \<open>Condition variables\<close>

text \<open>
  A signal wakes one of the threads that sleep, if there is one; which one is given by a
  choice. A broadcast wakes all.
\<close>

definition worker_choice :: "tsys \<Rightarrow> nat option \<Rightarrow> bool" where
  "worker_choice s ch = (case ch of None \<Rightarrow> WSleep \<notin> set (worker_pc s)
     | Some w \<Rightarrow> w < length (worker_pc s) \<and> worker_pc s ! w = WSleep)"

definition signal_worker :: "nat option \<Rightarrow> tsys \<Rightarrow> tsys" where
  "signal_worker ch s = (case ch of None \<Rightarrow> s | Some w \<Rightarrow> set_worker w WWoken s)"

definition broadcast_workers :: "tsys \<Rightarrow> tsys" where
  "broadcast_workers s = s\<lparr>worker_pc := map (\<lambda>pc. if pc = WSleep then WWoken else pc) (worker_pc s)\<rparr>"

fun waits_spawn :: "client_pc \<Rightarrow> bool" where
  "waits_spawn (CSpawn t n woken) \<longleftrightarrow> \<not> woken"
| "waits_spawn _ \<longleftrightarrow> False"

fun waits_task :: "addr \<Rightarrow> client_pc \<Rightarrow> bool" where
  "waits_task t (CJoin u woken) \<longleftrightarrow> u = t \<and> \<not> woken"
| "waits_task t (CTimedJoin u woken) \<longleftrightarrow> u = t \<and> \<not> woken"
| "waits_task t _ \<longleftrightarrow> False"

fun wake_client :: "client_pc \<Rightarrow> client_pc" where
  "wake_client (CSpawn t n woken) = CSpawn t n True"
| "wake_client (CJoin t woken) = CJoin t True"
| "wake_client (CTimedJoin t woken) = CTimedJoin t True"
| "wake_client pc = pc"

definition client_choice :: "(client_pc \<Rightarrow> bool) \<Rightarrow> tsys \<Rightarrow> nat option \<Rightarrow> bool" where
  "client_choice waits s ch = (case ch of None \<Rightarrow> (\<forall>c. \<not> waits (client s c)) | Some c \<Rightarrow> waits (client s c))"

definition signal_client :: "nat option \<Rightarrow> tsys \<Rightarrow> tsys" where
  "signal_client ch s = (case ch of None \<Rightarrow> s | Some c \<Rightarrow> set_client c (wake_client (client s c)) s)"

subsection \<open>Tasks\<close>

definition thread_task_new :: "nat \<Rightarrow> int \<Rightarrow> tsys \<Rightarrow> addr \<times> tsys" where
  "thread_task_new f a s =
     (let t = fresh_task s in
      (t, s\<lparr>tasks := (tasks s)(t \<mapsto> \<lparr>task_function = f, task_arg = a, task_pool = False,
             is_detached = False, is_running = False, is_finished = False, task_result = 0,
             next_task = None\<rparr>), fresh_task := Suc t\<rparr>))"

definition thread_task_is_finished :: "addr \<Rightarrow> tsys \<Rightarrow> bool option" where
  "thread_task_is_finished t s = map_option is_finished (tasks s t)"

definition thread_task_is_running :: "addr \<Rightarrow> tsys \<Rightarrow> bool option" where
  "thread_task_is_running t s = map_option is_running (tasks s t)"

definition thread_task_delete :: "addr \<Rightarrow> tsys \<Rightarrow> (errcode \<times> tsys) option" where
  "thread_task_delete t s = do {
     x \<leftarrow> tasks s t;
     if task_pool x then Some (TPOOL_ERR_TASK_IN_POOL, s)
     else Some (TPOOL_OK, s\<lparr>tasks := (tasks s)(t := None)\<rparr>) }"

definition thread_task_detach :: "addr \<Rightarrow> tsys \<Rightarrow> (errcode \<times> tsys) option" where
  "thread_task_detach t s = do {
     x \<leftarrow> tasks s t;
     if \<not> task_pool x then Some (TPOOL_ERR_TASK_NOT_PUSHED, s)
     else do {
       s \<leftarrow> upd_task t (\<lambda>x. x\<lparr>task_pool := False\<rparr>) s;
       if is_finished x then do { (_, s) \<leftarrow> thread_task_delete t s; Some (TPOOL_OK, s) }
       else do {
         s \<leftarrow> upd_task t (\<lambda>x. x\<lparr>is_detached := True\<rparr>) s;
         Some (TPOOL_OK, s) } } }"

subsection \<open>A worker\<close>

text \<open>
  The head of the loop of \<open>_thread_worker\<close>, with the mutex of the pool held: the worker
  goes to sleep, exits, or takes the first task.
\<close>

definition worker_loop :: "nat \<Rightarrow> tsys \<Rightarrow> tsys option" where
  "worker_loop w s = do {
     p \<leftarrow> pool s;
     let idx = worker_idx s ! w;
     if pending_task_count p < 1 \<and> thread_idx_that_should_exit p \<noteq> idx then Some (set_worker w WSleep s)
     else if thread_idx_that_should_exit p = idx then Some (set_worker w WExited s)
     else do {
       t \<leftarrow> pending_task_list p;
       x \<leftarrow> tasks s t;
       s \<leftarrow> upd_pool (\<lambda>p. p\<lparr>pending_task_list := next_task x\<rparr>) s;
       s \<leftarrow> upd_task t (\<lambda>x. x\<lparr>next_task := None\<rparr>) s;
       s \<leftarrow> upd_pool (\<lambda>p. p\<lparr>idle_thread_count := idle_thread_count p - 1,
              pending_task_count := pending_task_count p - 1,
              running_task_count := running_task_count p + 1\<rparr>) s;
       Some (set_worker w (WTaken t) s) } }"

definition worker_start :: "nat \<Rightarrow> nat option \<Rightarrow> tsys \<Rightarrow> tsys option" where
  "worker_start w ch s = do {
     s \<leftarrow> upd_pool (\<lambda>p. p\<lparr>thread_count := thread_count p + 1\<rparr>) s;
     let s = signal_client ch s;
     s \<leftarrow> upd_pool (\<lambda>p. p\<lparr>idle_thread_count := idle_thread_count p + 1\<rparr>) s;
     worker_loop w s }"

definition worker_mark :: "nat \<Rightarrow> addr \<Rightarrow> tsys \<Rightarrow> tsys option" where
  "worker_mark w t s = do {
     s \<leftarrow> upd_task t (\<lambda>x. x\<lparr>is_running := True\<rparr>) s;
     Some (set_worker w (WRunning t) s) }"

text \<open>The functions of the tasks are given by \<open>call\<close>: what they return for an argument.\<close>

definition worker_call :: "(nat \<Rightarrow> int \<Rightarrow> int) \<Rightarrow> nat \<Rightarrow> addr \<Rightarrow> tsys \<Rightarrow> tsys option" where
  "worker_call call w t s = do {
     x \<leftarrow> tasks s t;
     Some (set_worker w (WResult t (call (task_function x) (task_arg x))) s) }"

definition worker_finish :: "nat \<Rightarrow> addr \<Rightarrow> int \<Rightarrow> nat option \<Rightarrow> tsys \<Rightarrow> tsys option" where
  "worker_finish w t r ch s = do {
     s \<leftarrow> upd_pool (\<lambda>p. p\<lparr>running_task_count := running_task_count p - 1\<rparr>) s;
     x \<leftarrow> tasks s t;
     s \<leftarrow> (if is_detached x then do { (_, s) \<leftarrow> thread_task_delete t s; Some s }
           else do {
             s \<leftarrow> upd_task t (\<lambda>x. x\<lparr>is_running := False, is_finished := True, task_result := r\<rparr>) s;
             Some (signal_client ch s) });
     _ \<leftarrow> tasks s t;
     s \<leftarrow> upd_pool (\<lambda>p. p\<lparr>idle_thread_count := idle_thread_count p + 1\<rparr>) s;
     worker_loop w s }"

text \<open>The access to \<open>tasks s t\<close> after the branch is \<open>pthread_mutex_unlock(&task->mutex)\<close>.\<close>

subsection \<open>The pool\<close>

definition thread_pool_new :: "int \<Rightarrow> errcode + tpool" where
  "thread_pool_new n =
     (if n < 1 \<or> n > TPOOL_MAX_THREADS then Inl TPOOL_ERR_INVALID_ARGUMENT
      else Inr \<lparr>threads = None, max_thread_count = n, thread_count = 0, idle_thread_count = 0,
             thread_idx_that_should_exit = -1, pending_task_count = 0, running_task_count = 0,
             pending_task_list = None\<rparr>)"

definition thread_pool_thread_count :: "tsys \<Rightarrow> int option" where
  "thread_pool_thread_count s = map_option thread_count (pool s)"

text \<open>\<open>realloc\<close> to \<open>n\<close> elements; \<open>pthread_create(&pool->threads[k], ...)\<close> of worker \<open>idx = k\<close>.\<close>

definition grow_threads :: "nat option list \<Rightarrow> nat \<Rightarrow> nat option list" where
  "grow_threads ths n = take n ths @ replicate (n - length ths) None"

definition create_worker :: "nat option list \<Rightarrow> nat \<Rightarrow> tsys \<Rightarrow> tsys option" where
  "create_worker ths k s = do {
     s \<leftarrow> upd_pool (\<lambda>p. p\<lparr>threads := Some (ths[k := Some (length (worker_pc s))])\<rparr>) s;
     Some (s\<lparr>worker_idx := worker_idx s @ [int k], worker_pc := worker_pc s @ [WStart]\<rparr>) }"

text \<open>The number of threads that are required, and a new worker when there is no idle one.\<close>

definition spawn_worker :: "tsys \<Rightarrow> (int \<times> tsys) option" where
  "spawn_worker s = do {
     p \<leftarrow> pool s;
     (case threads p of
        None \<Rightarrow> do { s \<leftarrow> create_worker [None] 0 s; Some (1, s) }
      | Some ths \<Rightarrow>
          if idle_thread_count p = 0 \<and> thread_count p < max_thread_count p
          then do {
            s \<leftarrow> create_worker (grow_threads ths (nat (thread_count p + 1))) (nat (thread_count p)) s;
            Some (thread_count p + 1, s) }
          else Some (thread_count p, s)) }"

definition push_finish :: "nat \<Rightarrow> addr \<Rightarrow> nat option \<Rightarrow> tsys \<Rightarrow> tsys option" where
  "push_finish c t ch s = do {
     p \<leftarrow> pool s;
     s \<leftarrow> upd_task t (\<lambda>x. x\<lparr>task_pool := True, next_task := pending_task_list p,
            is_finished := False, is_running := False\<rparr>) s;
     s \<leftarrow> upd_pool (\<lambda>p. p\<lparr>pending_task_list := Some t, pending_task_count := pending_task_count p + 1\<rparr>) s;
     Some (set_client c (CReturned TPOOL_OK None) (signal_worker ch s)) }"

text \<open>The loop that waits for the new worker.\<close>

definition push_wait :: "nat \<Rightarrow> addr \<Rightarrow> int \<Rightarrow> nat option \<Rightarrow> tsys \<Rightarrow> tsys option" where
  "push_wait c t required ch s = do {
     p \<leftarrow> pool s;
     if thread_count p \<noteq> required then Some (set_client c (CSpawn t required False) s)
     else push_finish c t ch s }"

definition thread_pool_push_task :: "nat \<Rightarrow> addr \<Rightarrow> nat option \<Rightarrow> tsys \<Rightarrow> tsys option" where
  "thread_pool_push_task c t ch s = do {
     p \<leftarrow> pool s;
     if pending_task_count p \<ge> TPOOL_MAX_TASKS
     then Some (set_client c (CReturned TPOOL_ERR_TOO_MANY_TASKS None) s)
     else do { (required, s) \<leftarrow> spawn_worker s; push_wait c t required ch s } }"

text \<open>The loop over the workers in \<open>thread_pool_delete\<close>, from \<open>i\<close> on.\<close>

definition delete_workers :: "nat \<Rightarrow> int \<Rightarrow> tsys \<Rightarrow> tsys option" where
  "delete_workers c i s = do {
     p \<leftarrow> pool s;
     if threads p \<noteq> None \<and> i < thread_count p
     then do {
       s \<leftarrow> upd_pool (\<lambda>p. p\<lparr>thread_idx_that_should_exit := i\<rparr>) s;
       Some (set_client c (CDelete i) (broadcast_workers s)) }
     else Some (set_client c (CReturned TPOOL_OK None) (s\<lparr>pool := None\<rparr>)) }"

definition thread_pool_delete :: "nat \<Rightarrow> tsys \<Rightarrow> tsys option" where
  "thread_pool_delete c s = do {
     p \<leftarrow> pool s;
     if running_task_count p > 0 \<or> pending_task_count p > 0 \<or> idle_thread_count p \<noteq> thread_count p
     then Some (set_client c (CReturned TPOOL_ERR_HAS_TASKS None) s)
     else delete_workers c 0 s }"

text \<open>\<open>pthread_join(pool->threads[i], NULL)\<close> returns when that thread is gone.\<close>

definition joinable :: "int \<Rightarrow> tsys \<Rightarrow> bool" where
  "joinable i s = (case pool s of None \<Rightarrow> False | Some p \<Rightarrow>
     (case threads p of None \<Rightarrow> False | Some ths \<Rightarrow>
       0 \<le> i \<and> nat i < length ths \<and>
       (case ths ! nat i of None \<Rightarrow> False | Some w \<Rightarrow> w < length (worker_pc s) \<and> worker_pc s ! w = WExited)))"

subsection \<open>Joining\<close>

definition join_finish :: "nat \<Rightarrow> addr \<Rightarrow> tsys \<Rightarrow> tsys option" where
  "join_finish c t s = do {
     x \<leftarrow> tasks s t;
     s \<leftarrow> upd_task t (\<lambda>x. x\<lparr>task_pool := False\<rparr>) s;
     Some (set_client c (CReturned TPOOL_OK (Some (task_result x))) s) }"

text \<open>The loops that wait for \<open>is_finished\<close>.\<close>

definition join_wait :: "nat \<Rightarrow> addr \<Rightarrow> tsys \<Rightarrow> tsys option" where
  "join_wait c t s = do {
     x \<leftarrow> tasks s t;
     if is_finished x then join_finish c t s else Some (set_client c (CJoin t False) s) }"

definition timed_join_wait :: "nat \<Rightarrow> addr \<Rightarrow> tsys \<Rightarrow> tsys option" where
  "timed_join_wait c t s = do {
     x \<leftarrow> tasks s t;
     if is_finished x then join_finish c t s else Some (set_client c (CTimedJoin t False) s) }"

definition thread_task_join :: "nat \<Rightarrow> addr \<Rightarrow> tsys \<Rightarrow> tsys option" where
  "thread_task_join c t s = do {
     x \<leftarrow> tasks s t;
     if \<not> task_pool x then Some (set_client c (CReturned TPOOL_ERR_TASK_NOT_PUSHED None) s)
     else join_wait c t s }"

text \<open>
  The deadline of a timed join, from \<open>gettimeofday\<close> and the timeout in seconds. A cast of the
  timeout that \<open>long\<close> cannot hold is undefined, and so is a sum that overflows. \<open>ONE_NANO\<close> is the
  double that \<open>0.000000001\<close> is read as.
\<close>

definition ONE_NANO :: double where "ONE_NANO = Finite 4835703278458517 (-82)"

definition timed_join_deadline :: "int \<Rightarrow> int \<Rightarrow> double \<Rightarrow> (int \<times> int) option" where
  "timed_join_deadline tv_sec tv_usec timeout = do {
     timeout_sec \<leftarrow> to_long timeout;
     timeout_nsec \<leftarrow> to_long (fmul (fsub timeout (of_long timeout_sec)) (of_long 1000000000));
     tv_nsec \<leftarrow> c_long (tv_usec * 1000);
     total_nsec \<leftarrow> c_long (tv_nsec + timeout_nsec);
     whole_sec \<leftarrow> c_long (tv_sec + timeout_sec);
     total_sec \<leftarrow> c_long (whole_sec + total_nsec sdiv 1000000000);
     Some (total_sec, total_nsec smod 1000000000) }"

text \<open>
  When the deadline passes is not tied to a clock: \<open>pthread_cond_timedwait\<close> may time out at
  every moment of the wait (\<open>step_timeout\<close> in \<open>PoolSteps\<close>).
\<close>

definition thread_task_timed_join :: "nat \<Rightarrow> addr \<Rightarrow> double \<Rightarrow> int \<Rightarrow> int \<Rightarrow> tsys \<Rightarrow> tsys option" where
  "thread_task_timed_join c t timeout tv_sec tv_usec s = do {
     x \<leftarrow> tasks s t;
     if \<not> task_pool x then Some (set_client c (CReturned TPOOL_ERR_TASK_NOT_PUSHED None) s)
     else if fless timeout ONE_NANO then
       (if is_finished x then join_finish c t s
        else Some (set_client c (CReturned TPOOL_ERR_TIMEOUT None) s))
     else do {
       ts \<leftarrow> timed_join_deadline tv_sec tv_usec timeout;
       timed_join_wait c t s } }"

end
