(* ===== verification/PoolSteps.thy ===== *)
theory PoolSteps
  imports PoolModel
begin

section \<open>The thread pool: steps and invariant\<close>

text \<open>
  The system of workers and clients as a step relation, the contract of the calls, and what
  holds in every state that one client can reach.
\<close>

subsection \<open>Steps\<close>

datatype tcall =
    NewTask nat int
  | PushTask addr
  | JoinTask addr
  | TimedJoinTask addr double int int
  | DetachTask addr
  | DeleteTask addr
  | DeletePool

text \<open>
  A call by client \<open>c\<close>; \<open>ch\<close> is the worker woken when a task is pushed at once. A timed join has
  the time of day that \<open>gettimeofday\<close> returns, seconds and microseconds, as its last arguments.
\<close>

definition do_call :: "nat \<Rightarrow> tcall \<Rightarrow> nat option \<Rightarrow> tsys \<Rightarrow> tsys option" where
  "do_call c x ch s = (case x of
       NewTask f a \<Rightarrow> Some (set_client c (CReturned TPOOL_OK None) (snd (thread_task_new f a s)))
     | PushTask t \<Rightarrow> thread_pool_push_task c t ch s
     | JoinTask t \<Rightarrow> thread_task_join c t s
     | TimedJoinTask t timeout sec usec \<Rightarrow> thread_task_timed_join c t timeout sec usec s
     | DetachTask t \<Rightarrow> do { (e, s) \<leftarrow> thread_task_detach t s; Some (set_client c (CReturned e None) s) }
     | DeleteTask t \<Rightarrow> do { (e, s) \<leftarrow> thread_task_delete t s; Some (set_client c (CReturned e None) s) }
     | DeletePool \<Rightarrow> thread_pool_delete c s)"

text \<open>
  Every thread takes its next atomic operation; the result \<open>None\<close> is undefined behaviour.
  \<open>C\<close> are the clients, \<open>ok\<close> the calls they may make.
\<close>

inductive tp_step :: "(nat \<Rightarrow> int \<Rightarrow> int) \<Rightarrow> nat set \<Rightarrow> (tcall \<Rightarrow> tsys \<Rightarrow> bool) \<Rightarrow> tsys \<Rightarrow> tsys option \<Rightarrow> bool"
  for call C ok where
  step_start: "w < length (worker_pc s) \<Longrightarrow> worker_pc s ! w = WStart \<Longrightarrow> client_choice waits_spawn s ch \<Longrightarrow>
    tp_step call C ok s (worker_start w ch s)"
| step_sleep: "w < length (worker_pc s) \<Longrightarrow> worker_pc s ! w = WSleep \<Longrightarrow>
    tp_step call C ok s (Some (set_worker w WWoken s))"
| step_woken: "w < length (worker_pc s) \<Longrightarrow> worker_pc s ! w = WWoken \<Longrightarrow>
    tp_step call C ok s (worker_loop w s)"
| step_mark: "w < length (worker_pc s) \<Longrightarrow> worker_pc s ! w = WTaken t \<Longrightarrow>
    tp_step call C ok s (worker_mark w t s)"
| step_call: "w < length (worker_pc s) \<Longrightarrow> worker_pc s ! w = WRunning t \<Longrightarrow>
    tp_step call C ok s (worker_call call w t s)"
| step_finish: "w < length (worker_pc s) \<Longrightarrow> worker_pc s ! w = WResult t r \<Longrightarrow> client_choice (waits_task t) s ch \<Longrightarrow>
    tp_step call C ok s (worker_finish w t r ch s)"
| step_invoke: "c \<in> C \<Longrightarrow> client s c = CReturned e v \<Longrightarrow> ok x s \<Longrightarrow> worker_choice s ch \<Longrightarrow>
    tp_step call C ok s (do_call c x ch s)"
| step_wake: "c \<in> C \<Longrightarrow> tp_step call C ok s (Some (set_client c (wake_client (client s c)) s))"
| step_spawned: "c \<in> C \<Longrightarrow> client s c = CSpawn t n True \<Longrightarrow> worker_choice s ch \<Longrightarrow>
    tp_step call C ok s (push_wait c t n ch s)"
| step_join: "c \<in> C \<Longrightarrow> client s c = CJoin t True \<Longrightarrow> tp_step call C ok s (join_wait c t s)"
| step_timed_join: "c \<in> C \<Longrightarrow> client s c = CTimedJoin t True \<Longrightarrow> tp_step call C ok s (timed_join_wait c t s)"
| step_timeout: "c \<in> C \<Longrightarrow> client s c = CTimedJoin t b \<Longrightarrow>
    tp_step call C ok s (Some (set_client c (CReturned TPOOL_ERR_TIMEOUT None) s))"
| step_joined: "c \<in> C \<Longrightarrow> client s c = CDelete i \<Longrightarrow> joinable i s \<Longrightarrow>
    tp_step call C ok s (delete_workers c (i + 1) s)"

inductive_cases tp_stepE: "tp_step call C ok s r"

text \<open>
  The contract of \<open>thread_pool.h\<close>: handles are those of tasks that exist, a task is pushed when
  it is not in the pool, and a task that has been detached is not accessed any more. The
  deadline of a timed join must fit \<open>long\<close> (the header has no such restriction).
\<close>

definition handle :: "tsys \<Rightarrow> addr \<Rightarrow> (task \<Rightarrow> bool) \<Rightarrow> bool" where
  "handle s t P \<longleftrightarrow> (case tasks s t of None \<Rightarrow> False | Some x \<Rightarrow> P x)"

definition proper_call :: "tcall \<Rightarrow> tsys \<Rightarrow> bool" where
  "proper_call x s = (case x of
       NewTask f a \<Rightarrow> True
     | PushTask t \<Rightarrow> pool s \<noteq> None \<and> handle s t (\<lambda>x. \<not> task_pool x \<and> \<not> is_detached x)
     | JoinTask t \<Rightarrow> handle s t (\<lambda>x. \<not> is_detached x)
     | TimedJoinTask t timeout sec usec \<Rightarrow> handle s t (\<lambda>x. \<not> is_detached x) \<and>
         (fless timeout ONE_NANO \<or> timed_join_deadline sec usec timeout \<noteq> None)
     | DetachTask t \<Rightarrow> handle s t (\<lambda>x. \<not> is_detached x)
     | DeleteTask t \<Rightarrow> handle s t (\<lambda>x. \<not> is_detached x)
     | DeletePool \<Rightarrow> pool s \<noteq> None)"

definition tp_start :: "tpool \<Rightarrow> tsys" where
  "tp_start p = \<lparr>pool = Some p, tasks = Map.empty, fresh_task = 0, worker_idx = [], worker_pc = [],
     client = (\<lambda>c. CReturned TPOOL_OK None)\<rparr>"

definition tp_init :: "tsys \<Rightarrow> bool" where
  "tp_init s \<longleftrightarrow> (\<exists>n p. thread_pool_new n = Inr p \<and> s = tp_start p)"

subsection \<open>Counting workers\<close>

definition number :: "('a \<Rightarrow> bool) \<Rightarrow> 'a list \<Rightarrow> int" where
  "number P xs = int (length (filter P xs))"

lemma number_simps [simp]: "number P [] = 0" "number P (xs @ ys) = number P xs + number P ys"
  "number P (x # xs) = (if P x then 1 else 0) + number P xs"
  by (simp_all add: number_def)

lemma number_nonneg [simp]: "0 \<le> number P xs"
  by (simp add: number_def)

lemma number_upd:
  "i < length xs \<Longrightarrow>
   number P (xs[i := x]) = number P xs + (if P x then 1 else 0) - (if P (xs ! i) then 1 else 0)"
proof (induction xs arbitrary: i)
  case (Cons y xs)
  then show ?case by (cases i) simp_all
qed simp

lemma number_pos: "0 < number P xs \<longleftrightarrow> (\<exists>x \<in> set xs. P x)"
  by (simp add: number_def filter_empty_conv)

lemma number_zero: "number P xs = 0 \<longleftrightarrow> (\<forall>x \<in> set xs. \<not> P x)"
  by (simp add: number_def filter_empty_conv)

lemma number_nth: "i < length xs \<Longrightarrow> P (xs ! i) \<Longrightarrow> 0 < number P xs"
  unfolding number_pos by (meson nth_mem)

lemma number_all: "\<forall>x \<in> set xs. P x \<Longrightarrow> number P xs = int (length xs)"
  by (simp add: number_def)

lemma number_add: "\<forall>x. P x \<longleftrightarrow> \<not> Q x \<Longrightarrow> number P xs + number Q xs = int (length xs)"
  by (induction xs) simp_all

subsection \<open>The invariant\<close>

fun task_of :: "worker_pc \<Rightarrow> addr option" where
  "task_of (WTaken t) = Some t"
| "task_of (WRunning t) = Some t"
| "task_of (WResult t r) = Some t"
| "task_of _ = None"

abbreviation started :: "worker_pc \<Rightarrow> bool" where "started pc \<equiv> pc \<noteq> WStart"

abbreviation busy :: "worker_pc \<Rightarrow> bool" where "busy pc \<equiv> task_of pc \<noteq> None"

abbreviation idle :: "worker_pc \<Rightarrow> bool" where "idle pc \<equiv> pc \<noteq> WStart \<and> task_of pc = None"

definition held :: "tsys \<Rightarrow> addr list" where
  "held s = List.map_filter task_of (worker_pc s)"

definition counts_ok :: "tsys \<Rightarrow> bool" where
  "counts_ok s \<longleftrightarrow> (case pool s of
       None \<Rightarrow> \<forall>pc \<in> set (worker_pc s). pc = WExited
     | Some p \<Rightarrow>
         thread_count p = number started (worker_pc s) \<and> idle_thread_count p = number idle (worker_pc s) \<and>
         running_task_count p = number busy (worker_pc s) \<and> pending_task_count p \<le> TPOOL_MAX_TASKS \<and>
         int (length (worker_pc s)) \<le> max_thread_count p \<and> 1 \<le> max_thread_count p \<and>
         max_thread_count p \<le> TPOOL_MAX_THREADS \<and>
         worker_idx s = map int [0..<length (worker_pc s)] \<and>
         threads p = (if worker_pc s = [] then None else Some (map Some [0..<length (worker_pc s)])))"

definition queue_ok :: "tsys \<Rightarrow> addr list \<Rightarrow> bool" where
  "queue_ok s q \<longleftrightarrow> (case pool s of
       None \<Rightarrow> q = []
     | Some p \<Rightarrow> sll next_task (tasks s) (pending_task_list p) q None \<and> pending_task_count p = int (length q) \<and>
         (q \<noteq> [] \<longrightarrow> worker_pc s \<noteq> []) \<and>
         (WSleep \<in> set (worker_pc s) \<longrightarrow> int (length q) \<le> number (\<lambda>pc. pc = WWoken) (worker_pc s)))"

definition unfinished :: "tsys \<Rightarrow> addr \<Rightarrow> bool" where
  "unfinished s t \<longleftrightarrow> (\<exists>x. tasks s t = Some x \<and> (task_pool x \<or> is_detached x) \<and> \<not> is_finished x)"

text \<open>The unfinished tasks, detached ones too, are those in the list and those a worker has, each once.\<close>

definition tasks_ok :: "(nat \<Rightarrow> int \<Rightarrow> int) \<Rightarrow> tsys \<Rightarrow> addr list \<Rightarrow> bool" where
  "tasks_ok call s q \<longleftrightarrow>
     distinct (q @ held s) \<and> (\<forall>t. t \<in> set (q @ held s) \<longleftrightarrow> unfinished s t) \<and>
     (\<forall>t x. tasks s t = Some x \<longrightarrow> t < fresh_task s \<and> (is_detached x \<longrightarrow> \<not> task_pool x) \<and>
        (is_finished x \<longrightarrow> task_result x = call (task_function x) (task_arg x))) \<and>
     (\<forall>t r. WResult t r \<in> set (worker_pc s) \<longrightarrow>
        (\<forall>x. tasks s t = Some x \<longrightarrow> r = call (task_function x) (task_arg x)))"

definition stage_ok :: "tsys \<Rightarrow> bool" where
  "stage_ok s \<longleftrightarrow> (\<forall>c. c \<noteq> 0 \<longrightarrow> client s c = CReturned TPOOL_OK None) \<and>
     (case pool s of
        None \<Rightarrow> (\<forall>t n b. client s 0 \<noteq> CSpawn t n b) \<and> (\<forall>i. client s 0 \<noteq> CDelete i)
      | Some p \<Rightarrow>
         (case client s 0 of
            CDelete i \<Rightarrow> 0 \<le> i \<and> i < int (length (worker_pc s)) \<and> thread_idx_that_should_exit p = i \<and>
              pending_task_count p = 0 \<and> (\<forall>pc \<in> set (worker_pc s). idle pc) \<and>
              worker_pc s ! nat i \<noteq> WSleep \<and>
              (\<forall>w < length (worker_pc s). int w < i \<longrightarrow> worker_pc s ! w = WExited) \<and>
              (\<forall>w < length (worker_pc s). i < int w \<longrightarrow> worker_pc s ! w \<noteq> WExited)
          | CSpawn t n b \<Rightarrow> thread_idx_that_should_exit p = -1 \<and> WExited \<notin> set (worker_pc s) \<and>
              n = int (length (worker_pc s)) \<and> 0 < length (worker_pc s) \<and>
              pending_task_count p < TPOOL_MAX_TASKS \<and>
              handle s t (\<lambda>x. \<not> task_pool x \<and> \<not> is_detached x) \<and> (\<not> b \<longrightarrow> WStart \<in> set (worker_pc s))
          | _ \<Rightarrow> thread_idx_that_should_exit p = -1 \<and> WExited \<notin> set (worker_pc s) \<and> WStart \<notin> set (worker_pc s))) \<and>
     (case client s 0 of
        CJoin t b \<Rightarrow> handle s t (\<lambda>x. task_pool x \<and> (is_finished x \<longrightarrow> b))
      | CTimedJoin t b \<Rightarrow> handle s t (\<lambda>x. task_pool x \<and> (is_finished x \<longrightarrow> b))
      | _ \<Rightarrow> True)"

definition tp_inv :: "(nat \<Rightarrow> int \<Rightarrow> int) \<Rightarrow> tsys \<Rightarrow> bool" where
  "tp_inv call s \<longleftrightarrow> counts_ok s \<and> stage_ok s \<and> (\<exists>q. queue_ok s q \<and> tasks_ok call s q)"

end
