(* ===== verification/PoolInvariant.thy ===== *)
theory PoolInvariant
  imports PoolSteps "HOL-Library.Multiset"
begin

section \<open>The thread pool: the invariant is kept\<close>

text \<open>
  Each atomic operation, on a state that satisfies the invariant and as far as the contract
  allows it, has a result that satisfies the invariant again.
\<close>

subsection \<open>What an operation leaves alone\<close>

lemma set_client_simps [simp]:
  "pool (set_client c pc s) = pool s" "tasks (set_client c pc s) = tasks s"
  "worker_pc (set_client c pc s) = worker_pc s" "worker_idx (set_client c pc s) = worker_idx s"
  "fresh_task (set_client c pc s) = fresh_task s" "client (set_client c pc s) = (client s)(c := pc)"
  by (simp_all add: set_client_def)

lemma set_worker_simps [simp]:
  "pool (set_worker w pc s) = pool s" "tasks (set_worker w pc s) = tasks s"
  "worker_pc (set_worker w pc s) = (worker_pc s)[w := pc]" "worker_idx (set_worker w pc s) = worker_idx s"
  "fresh_task (set_worker w pc s) = fresh_task s" "client (set_worker w pc s) = client s"
  by (simp_all add: set_worker_def)

text \<open>The parts of the invariant depend on the state only through some of its fields.\<close>

lemma counts_ok_cong:
  "pool t = pool s \<Longrightarrow> worker_pc t = worker_pc s \<Longrightarrow> worker_idx t = worker_idx s \<Longrightarrow> counts_ok t = counts_ok s"
  unfolding counts_ok_def by (cases "pool s") simp_all

lemma queue_ok_cong:
  "pool t = pool s \<Longrightarrow> worker_pc t = worker_pc s \<Longrightarrow> tasks t = tasks s \<Longrightarrow> queue_ok t q = queue_ok s q"
  unfolding queue_ok_def by (cases "pool s") simp_all

lemma tasks_ok_cong:
  "worker_pc t = worker_pc s \<Longrightarrow> tasks t = tasks s \<Longrightarrow> fresh_task t = fresh_task s \<Longrightarrow> tasks_ok call t q = tasks_ok call s q"
  by (simp add: tasks_ok_def held_def unfinished_def)

lemma tp_inv_client:
  assumes "tp_inv call s" and "stage_ok (set_client c pc s)"
  shows "tp_inv call (set_client c pc s)"
proof -
  let ?t = "set_client c pc s"
  have "counts_ok ?t = counts_ok s" by (rule counts_ok_cong) simp_all
  moreover have "queue_ok ?t q = queue_ok s q" for q by (rule queue_ok_cong) simp_all
  moreover have "tasks_ok call ?t q = tasks_ok call s q" for q by (rule tasks_ok_cong) simp_all
  ultimately show ?thesis using assms by (auto simp: tp_inv_def)
qed

lemma handle_simps [simp]:
  "handle (set_client c pc s) t P = handle s t P" "handle (set_worker w wpc s) t P = handle s t P"
  by (simp_all add: handle_def)

lemma set_client_same: "set_client c (client s c) s = s"
  by (simp add: set_client_def)

lemma stage_wake: "stage_ok s \<Longrightarrow> stage_ok (set_client c (wake_client (client s c)) s)"
proof (cases "c = 0")
  case True
  then show "stage_ok s \<Longrightarrow> stage_ok (set_client c (wake_client (client s c)) s)"
    by (cases "client s 0"; cases "pool s") (auto simp: stage_ok_def handle_def split: option.splits)
next
  case False
  then show "stage_ok s \<Longrightarrow> stage_ok (set_client c (wake_client (client s c)) s)"
    by (metis set_client_same stage_ok_def wake_client.simps(4))
qed

lemma stage_signal: "stage_ok s \<Longrightarrow> stage_ok (signal_client ch s)"
  by (cases ch) (simp_all add: signal_client_def stage_wake)

lemma signal_client_simps [simp]:
  "pool (signal_client ch s) = pool s" "tasks (signal_client ch s) = tasks s"
  "worker_pc (signal_client ch s) = worker_pc s" "worker_idx (signal_client ch s) = worker_idx s"
  "fresh_task (signal_client ch s) = fresh_task s"
  by (cases ch; simp add: signal_client_def)+

text \<open>The tasks the workers have, when one of them moves on.\<close>

definition opt_mset :: "'a option \<Rightarrow> 'a multiset" where
  "opt_mset y = (case y of None \<Rightarrow> {#} | Some a \<Rightarrow> {#a#})"

lemma opt_mset_simps [simp]: "opt_mset None = {#}" "opt_mset (Some a) = {#a#}"
  by (simp_all add: opt_mset_def)

lemma mset_map_filter_upd:
  "w < length xs \<Longrightarrow>
   mset (List.map_filter f (xs[w := x])) + opt_mset (f (xs ! w)) = mset (List.map_filter f xs) + opt_mset (f x)"
proof (induction xs arbitrary: w)
  case (Cons y ys)
  then show ?case by (cases w) (auto simp: List.map_filter_simps ac_simps opt_mset_def split: option.splits)
qed simp

lemma held_upd:
  "w < length (worker_pc s) \<Longrightarrow> worker_pc t = (worker_pc s)[w := pc] \<Longrightarrow>
   mset (held t) + opt_mset (task_of (worker_pc s ! w)) = mset (held s) + opt_mset (task_of pc)"
  unfolding held_def by (simp add: mset_map_filter_upd)

lemma held_task: "w < length (worker_pc s) \<Longrightarrow> task_of (worker_pc s ! w) = Some t \<Longrightarrow> t \<in> set (held s)"
  by (force simp: held_def List.map_filter_def)

text \<open>Tasks in the pool, up to order.\<close>

lemma tasks_ok_mset:
  assumes ok: "tasks_ok call s q" and m: "mset (q' @ held t) = mset (q @ held s)"
    and "\<And>u. unfinished t u \<longleftrightarrow> unfinished s u" and "fresh_task t = fresh_task s"
    and x: "\<And>u y. tasks t u = Some y \<Longrightarrow> \<exists>x. tasks s u = Some x \<and>
      (is_detached y \<and> task_pool y \<longrightarrow> is_detached x \<and> task_pool x) \<and> is_finished y = is_finished x \<and> task_result y = task_result x \<and> task_function y = task_function x \<and>
      task_arg y = task_arg x"
    and r: "\<And>u r x. WResult u r \<in> set (worker_pc t) \<Longrightarrow> WResult u r \<notin> set (worker_pc s) \<Longrightarrow> tasks t u = Some x \<Longrightarrow>
      r = call (task_function x) (task_arg x)"
  shows "tasks_ok call t q'"
  unfolding tasks_ok_def
proof (intro conjI allI impI)
  show "distinct (q' @ held t)" using ok mset_eq_imp_distinct_iff [OF m] by (simp add: tasks_ok_def)
  have "set (q' @ held t) = set (q @ held s)" by (rule mset_eq_setD [OF m])
  then show "u \<in> set (q' @ held t) \<longleftrightarrow> unfinished t u" for u using ok assms(3) unfolding tasks_ok_def by blast
  fix u y assume y: "tasks t u = Some y"
  from x [OF y] obtain z where z: "tasks s u = Some z" "is_detached y \<and> task_pool y \<longrightarrow> is_detached z \<and> task_pool z"
      "is_finished y = is_finished z" "task_result y = task_result z" "task_function y = task_function z"
      "task_arg y = task_arg z" by blast
  with ok assms(4) show "u < fresh_task t" "is_detached y \<Longrightarrow> \<not> task_pool y" by (auto simp: tasks_ok_def)
  show "task_result y = call (task_function y) (task_arg y)" if "is_finished y"
    using that ok z by (auto simp: tasks_ok_def)
  show "r = call (task_function y) (task_arg y)" if w: "WResult u r \<in> set (worker_pc t)" for r
  proof (cases "WResult u r \<in> set (worker_pc s)")
    case True
    with ok z show ?thesis by (auto simp: tasks_ok_def)
  next
    case False
    from r [OF w False y] show ?thesis .
  qed
qed

text \<open>Only the place of a worker changes, and it keeps its task.\<close>

lemma tasks_ok_move:
  assumes "tasks_ok call s q" and "w < length (worker_pc s)" and "task_of pc = task_of (worker_pc s ! w)"
    and "\<And>u r x. pc = WResult u r \<Longrightarrow> tasks s u = Some x \<Longrightarrow> r = call (task_function x) (task_arg x)"
  shows "tasks_ok call (set_worker w pc s) q"
proof (rule tasks_ok_mset [OF assms(1)])
  show "mset (q @ held (set_worker w pc s)) = mset (q @ held s)"
    using held_upd [OF assms(2), of "set_worker w pc s" pc] assms(3) by simp
  show "r = call (task_function x) (task_arg x)"
    if "WResult u r \<in> set (worker_pc (set_worker w pc s))" "WResult u r \<notin> set (worker_pc s)"
      "tasks (set_worker w pc s) u = Some x" for u r x
    using that assms(4) set_update_subset_insert [of "worker_pc s" w pc] by auto
qed (simp_all add: unfinished_def)

subsection \<open>Workers\<close>

lemma inv_pool:
  assumes "tp_inv call s" and "w < length (worker_pc s)" and "worker_pc s ! w \<noteq> WExited"
  obtains p where "pool s = Some p"
proof -
  have "worker_pc s ! w \<in> set (worker_pc s)" using assms(2) by simp
  with assms(1,3) show thesis using that by (cases "pool s") (auto simp: tp_inv_def counts_ok_def)
qed

lemma counts_okD:
  assumes "counts_ok s" and "pool s = Some p"
  shows "thread_count p = number started (worker_pc s)" "idle_thread_count p = number idle (worker_pc s)"
    "running_task_count p = number busy (worker_pc s)" "pending_task_count p \<le> TPOOL_MAX_TASKS"
    "int (length (worker_pc s)) \<le> max_thread_count p" "worker_idx s = map int [0..<length (worker_pc s)]"
    "threads p = (if worker_pc s = [] then None else Some (map Some [0..<length (worker_pc s)]))"
    "1 \<le> max_thread_count p" "max_thread_count p \<le> TPOOL_MAX_THREADS"
  using assms by (simp_all add: counts_ok_def)

lemma queue_okD:
  assumes "queue_ok s q" and "pool s = Some p"
  shows "sll next_task (tasks s) (pending_task_list p) q None" "pending_task_count p = int (length q)"
    "q \<noteq> [] \<Longrightarrow> worker_pc s \<noteq> []"
    "WSleep \<in> set (worker_pc s) \<Longrightarrow> int (length q) \<le> number (\<lambda>pc. pc = WWoken) (worker_pc s)"
  using assms by (simp_all add: queue_ok_def)

text \<open>A worker that moves among the idle places.\<close>

lemma counts_move:
  assumes "counts_ok s" and "w < length (worker_pc s)" and "started (worker_pc s ! w)" "started pc"
    and "task_of pc = task_of (worker_pc s ! w)" and "pool s = Some p"
  shows "counts_ok (set_worker w pc s)"
  using assms by (auto simp: counts_ok_def number_upd)

lemma queue_move:
  assumes "queue_ok s q" and "w < length (worker_pc s)" and "pool s = Some p"
    and "q = [] \<or> (worker_pc s ! w \<noteq> WWoken \<and> (pc = WSleep \<longrightarrow> worker_pc s ! w = WSleep))"
  shows "queue_ok (set_worker w pc s) q"
proof -
  have old: "WSleep \<in> set (worker_pc s)" if "WSleep \<in> set ((worker_pc s)[w := pc])" "q \<noteq> []"
    using that assms(2,4) set_update_subset_insert [of "worker_pc s" w pc] by (metis insertE nth_mem subsetD)
  have "int (length q) \<le> number (\<lambda>pc. pc = WWoken) ((worker_pc s)[w := pc])"
    if "WSleep \<in> set ((worker_pc s)[w := pc])"
  proof (cases "q = []")
    case False
    with that assms(1-4) show ?thesis by (auto simp: queue_ok_def number_upd old)
  qed simp
  then show ?thesis using assms(1,3) by (simp add: queue_ok_def)
qed

lemma set_upd_notin: "x \<notin> set xs \<Longrightarrow> x \<noteq> y \<Longrightarrow> x \<notin> set (xs[i := y])"
  by (meson in_set_conv_nth insertE set_update_subset_insert subsetD)

lemma set_upd_other: "x \<in> set xs \<Longrightarrow> w < length xs \<Longrightarrow> xs ! w \<noteq> x \<Longrightarrow> x \<in> set (xs[w := y])"
  by (metis in_set_conv_nth length_list_update nth_list_update_neq)

text \<open>A place is changed that the current call of the client does not depend on.\<close>

lemma stage_move:
  assumes "stage_ok s" and "w < length (worker_pc s)" and "pool s = Some p"
    and "worker_pc s ! w \<noteq> WStart" "pc \<noteq> WStart" "pc \<noteq> WExited" "worker_pc s ! w \<noteq> WExited"
    and "idle (worker_pc s ! w) \<Longrightarrow> idle pc"
    and "pc = WSleep \<Longrightarrow> thread_idx_that_should_exit p \<noteq> int w"
  shows "stage_ok (set_worker w pc s)"
proof (cases "client s 0")
  case (CDelete i)
  have "pc \<noteq> WSleep" if "w = nat i" using assms(1,3,9) CDelete that by (auto simp: stage_ok_def)
  moreover have "idle pc" using assms(1-3,8) CDelete by (simp add: stage_ok_def)
  moreover have "\<not> int w < i" using assms(1-3,7) CDelete by (auto simp: stage_ok_def)
  ultimately show ?thesis
    using assms(1-3,6) CDelete set_update_subset_insert [of "worker_pc s" w pc]
    by (auto simp: stage_ok_def nth_list_update)
next
  case (CSpawn t n b)
  have "WStart \<in> set ((worker_pc s)[w := pc])" if "WStart \<in> set (worker_pc s)"
    using that assms(2,4) by (rule set_upd_other)
  moreover have "WExited \<notin> set ((worker_pc s)[w := pc])"
  proof (rule set_upd_notin)
    show "WExited \<notin> set (worker_pc s)" using assms(1,3) CSpawn by (auto simp: stage_ok_def)
  qed (use assms(6) in simp)
  ultimately show ?thesis using assms(1,3) CSpawn by (auto simp: stage_ok_def)
qed (use assms in \<open>auto simp: stage_ok_def set_upd_notin\<close>)

lemma worker_loop_pc: "worker_loop w (set_worker w pc s) = worker_loop w s"
  by (simp add: worker_loop_def upd_pool_def upd_task_def set_worker_def Let_def cong: if_cong Option.bind_cong)

text \<open>A worker that takes the first task.\<close>

definition taken :: "nat \<Rightarrow> addr \<Rightarrow> task \<Rightarrow> tpool \<Rightarrow> tsys \<Rightarrow> tsys" where
  "taken w t x p s = s\<lparr>
     pool := Some (p\<lparr>pending_task_list := next_task x, idle_thread_count := idle_thread_count p - 1,
       pending_task_count := pending_task_count p - 1, running_task_count := running_task_count p + 1\<rparr>),
     tasks := (tasks s)(t \<mapsto> x\<lparr>next_task := None\<rparr>), worker_pc := (worker_pc s)[w := WTaken t]\<rparr>"

lemma worker_loop_taken:
  "pool s = Some p \<Longrightarrow> thread_idx_that_should_exit p \<noteq> worker_idx s ! w \<Longrightarrow> 1 \<le> pending_task_count p \<Longrightarrow>
   pending_task_list p = Some t \<Longrightarrow> tasks s t = Some x \<Longrightarrow> worker_loop w s = Some (taken w t x p s)"
  by (simp add: worker_loop_def upd_pool_def upd_task_def set_worker_def taken_def)

lemma unfinished_upd:
  "tasks s t = Some x \<Longrightarrow> tasks s' = (tasks s)(t \<mapsto> y) \<Longrightarrow> task_pool y = task_pool x \<Longrightarrow> is_finished y = is_finished x \<Longrightarrow>
   is_detached y = is_detached x \<Longrightarrow> unfinished s' u = unfinished s u"
  by (auto simp: unfinished_def)

lemma handle_upd:
  "tasks s t = Some x \<Longrightarrow> tasks s' = (tasks s)(t \<mapsto> y) \<Longrightarrow> P y = P x \<Longrightarrow> handle s' u P = handle s u P"
  by (auto simp: handle_def)

lemma taken_inv:
  assumes counts: "counts_ok s" and stage: "stage_ok s" and queue: "queue_ok s (t # q)"
    and tok: "tasks_ok call s (t # q)"
    and w: "w < length (worker_pc s)" "worker_pc s ! w = WWoken" and p: "pool s = Some p" "tasks s t = Some x"
  shows "tp_inv call (taken w t x p s)"
proof -
  let ?s = "taken w t x p s"
  have pcs: "worker_pc ?s = (worker_pc s)[w := WTaken t]" and tks: "tasks ?s = (tasks s)(t \<mapsto> x\<lparr>next_task := None\<rparr>)"
    by (simp_all add: taken_def)
  have pending: "pending_task_count p = 1 + int (length q)" using queue_okD(2) [OF queue p(1)] by simp
  have "counts_ok ?s"
    using counts w p(1) pending by (auto simp: counts_ok_def taken_def number_upd)
  moreover have "queue_ok ?s q"
  proof -
    have new: "t \<notin> set q" using tok by (simp add: tasks_ok_def)
    have "sll next_task (tasks s) (next_task x) q None"
      using queue_okD(1) [OF queue p(1)] p(2) by simp
    then have "sll next_task (tasks ?s) (next_task x) q None"
      unfolding tks using new by (subst sll_cong [where h' = "tasks s"]) auto
    moreover have "WSleep \<in> set (worker_pc s)" if "WSleep \<in> set (worker_pc ?s)"
      using that set_upd_notin [of WSleep "worker_pc s" "WTaken t" w] unfolding pcs by auto
    then have "int (length q) \<le> number (\<lambda>pc. pc = WWoken) (worker_pc ?s)" if "WSleep \<in> set (worker_pc ?s)"
      using that queue_okD(4) [OF queue p(1)] w unfolding pcs by (simp add: number_upd)
    moreover have "worker_pc ?s \<noteq> []" using w(1) unfolding pcs by auto
    ultimately show ?thesis using pending unfolding queue_ok_def by (simp add: taken_def)
  qed
  moreover have "tasks_ok call ?s q"
  proof (rule tasks_ok_mset [OF tok])
    show "mset (q @ held ?s) = mset ((t # q) @ held s)"
      using held_upd [OF w(1) pcs] w(2) by simp
    show "unfinished ?s u = unfinished s u" for u by (rule unfinished_upd [OF p(2) tks]) simp_all
    show "\<exists>x. tasks s u = Some x \<and> (is_detached y \<and> task_pool y \<longrightarrow> is_detached x \<and> task_pool x) \<and> is_finished y = is_finished x \<and>
        task_result y = task_result x \<and> task_function y = task_function x \<and> task_arg y = task_arg x"
      if "tasks ?s u = Some y" for u y
      using that p(2) unfolding tks by (cases "u = t") auto
    show "r = call (task_function y) (task_arg y)"
      if "WResult u r \<in> set (worker_pc ?s)" "WResult u r \<notin> set (worker_pc s)" for u r y
      using that set_upd_notin [of "WResult u r" "worker_pc s" "WTaken t" w] unfolding pcs by auto
  qed (simp add: taken_def)
  moreover have "stage_ok ?s"
  proof -
    have hnd: "handle ?s u P = handle s u P" if "P (x\<lparr>next_task := None\<rparr>) = P x" for u P
      by (rule handle_upd [OF p(2) tks that])
    have ex: "WExited \<notin> set (worker_pc ?s)" if "WExited \<notin> set (worker_pc s)"
      unfolding pcs by (rule set_upd_notin [OF that]) simp
    have st: "WStart \<notin> set (worker_pc ?s)" if "WStart \<notin> set (worker_pc s)"
      unfolding pcs by (rule set_upd_notin [OF that]) simp
    have st': "WStart \<in> set (worker_pc ?s)" if "WStart \<in> set (worker_pc s)"
      unfolding pcs using that w by (intro set_upd_other) simp_all
    show ?thesis
      using stage p(1) pending ex st st' hnd
      by (cases "client s 0") (auto simp: stage_ok_def taken_def)
  qed
  ultimately show ?thesis unfolding tp_inv_def by blast
qed

lemma loop_sleep:
  assumes inv: "tp_inv call s" and w: "w < length (worker_pc s)" "worker_pc s ! w = WWoken" and p: "pool s = Some p"
    and c: "pending_task_count p < 1" "thread_idx_that_should_exit p \<noteq> int w"
  shows "tp_inv call (set_worker w WSleep s)"
proof -
  from inv obtain q where q: "counts_ok s" "stage_ok s" "queue_ok s q" "tasks_ok call s q"
    by (auto simp: tp_inv_def)
  have "q = []" using queue_okD(2) [OF q(3) p] c(1) by simp
  moreover have "counts_ok (set_worker w WSleep s)" by (rule counts_move [OF q(1) w(1) _ _ _ p]) (simp_all add: w(2))
  moreover have "queue_ok (set_worker w WSleep s) q" by (rule queue_move [OF q(3) w(1) p]) (use \<open>q = []\<close> in simp)
  moreover have "tasks_ok call (set_worker w WSleep s) q" by (rule tasks_ok_move [OF q(4) w(1)]) (simp_all add: w(2))
  moreover have "stage_ok (set_worker w WSleep s)" by (rule stage_move [OF q(2) w(1) p]) (simp_all add: w(2) c(2))
  ultimately show ?thesis unfolding tp_inv_def by blast
qed

lemma loop_exit:
  assumes inv: "tp_inv call s" and w: "w < length (worker_pc s)" "worker_pc s ! w = WWoken" and p: "pool s = Some p"
    and c: "thread_idx_that_should_exit p = int w"
  shows "tp_inv call (set_worker w WExited s)"
proof -
  from inv obtain q where q: "counts_ok s" "stage_ok s" "queue_ok s q" "tasks_ok call s q"
    by (auto simp: tp_inv_def)
  obtain i where i: "client s 0 = CDelete i"
    using q(2) p c by (cases "client s 0") (auto simp: stage_ok_def)
  then have "i = int w" "pending_task_count p = 0" using q(2) p c by (simp_all add: stage_ok_def)
  then have "q = []" using queue_okD(2) [OF q(3) p] by simp
  moreover have "counts_ok (set_worker w WExited s)" by (rule counts_move [OF q(1) w(1) _ _ _ p]) (simp_all add: w(2))
  moreover have "queue_ok (set_worker w WExited s) q" by (rule queue_move [OF q(3) w(1) p]) (use \<open>q = []\<close> in simp)
  moreover have "tasks_ok call (set_worker w WExited s) q" by (rule tasks_ok_move [OF q(4) w(1)]) (simp_all add: w(2))
  moreover have "stage_ok (set_worker w WExited s)"
    using q(2) p i \<open>i = int w\<close> w set_update_subset_insert [of "worker_pc s" w WExited]
    by (auto simp: stage_ok_def nth_list_update)
  ultimately show ?thesis unfolding tp_inv_def by blast
qed

lemma worker_loop_ok:
  assumes inv: "tp_inv call s" and w: "w < length (worker_pc s)" "worker_pc s ! w = WWoken"
  shows "\<exists>t. worker_loop w s = Some t \<and> tp_inv call t"
proof -
  obtain p where p: "pool s = Some p" by (rule inv_pool [OF inv w(1)]) (use w(2) in auto)
  from inv obtain q where q: "counts_ok s" "stage_ok s" "queue_ok s q" "tasks_ok call s q"
    by (auto simp: tp_inv_def)
  have idx: "worker_idx s ! w = int w" using counts_okD(6) [OF q(1) p] w(1) by simp
  consider (sleep) "pending_task_count p < 1" "thread_idx_that_should_exit p \<noteq> int w"
    | (exit) "thread_idx_that_should_exit p = int w"
    | (take) "1 \<le> pending_task_count p" "thread_idx_that_should_exit p \<noteq> int w" by linarith
  then show ?thesis
  proof cases
    case sleep
    with loop_sleep [OF inv w p] p idx show ?thesis by (simp add: worker_loop_def)
  next
    case exit
    with loop_exit [OF inv w p] p idx show ?thesis by (simp add: worker_loop_def)
  next
    case take
    then obtain t r where tr: "q = t # r" using queue_okD(2) [OF q(3) p] by (cases q) auto
    then obtain x where "pending_task_list p = Some t" "tasks s t = Some x"
      using queue_okD(1) [OF q(3) p] by (auto split: option.splits)
    with worker_loop_taken [OF p] take idx taken_inv [OF q(1,2) q(3,4) [unfolded tr] w p]
    show ?thesis by auto
  qed
qed

text \<open>The first section of a new worker, up to the head of its loop.\<close>

definition arrived :: "nat \<Rightarrow> nat option \<Rightarrow> tpool \<Rightarrow> tsys \<Rightarrow> tsys" where
  "arrived w ch p s = set_worker w WWoken ((signal_client ch s)
     \<lparr>pool := Some (p\<lparr>thread_count := thread_count p + 1, idle_thread_count := idle_thread_count p + 1\<rparr>)\<rparr>)"

lemma signal_client_pool: "signal_client ch (s\<lparr>pool := p\<rparr>) = (signal_client ch s)\<lparr>pool := p\<rparr>"
  by (cases ch) (simp_all add: signal_client_def set_client_def)

lemma signal_client_tasks: "signal_client ch (s\<lparr>tasks := m\<rparr>) = (signal_client ch s)\<lparr>tasks := m\<rparr>"
  by (cases ch) (simp_all add: signal_client_def set_client_def)

lemma worker_start_arrived:
  "pool s = Some p \<Longrightarrow> worker_start w ch s = worker_loop w (arrived w ch p s)"
  by (simp add: worker_start_def upd_pool_def arrived_def signal_client_pool worker_loop_pc)

text \<open>The client a signal for a condition wakes.\<close>

lemma choice_client:
  assumes "client_choice waits s ch" and "\<forall>c. c \<noteq> 0 \<longrightarrow> \<not> waits (client s c)"
  shows "client (signal_client ch s) = (client s)(0 := if waits (client s 0) then wake_client (client s 0) else client s 0)"
proof (cases ch)
  case None
  with assms(1) show ?thesis by (auto simp: client_choice_def signal_client_def)
next
  case (Some c)
  with assms(1) have "waits (client s c)" by (simp add: client_choice_def)
  with assms(2) have "c = 0" by blast
  with Some \<open>waits (client s c)\<close> show ?thesis by (simp add: signal_client_def)
qed

lemma arrived_inv:
  assumes inv: "tp_inv call s" and w: "w < length (worker_pc s)" "worker_pc s ! w = WStart"
    and p: "pool s = Some p" and ch: "client_choice waits_spawn s ch"
  shows "tp_inv call (arrived w ch p s)"
proof -
  from inv obtain q where q: "counts_ok s" "stage_ok s" "queue_ok s q" "tasks_ok call s q"
    by (auto simp: tp_inv_def)
  let ?s = "arrived w ch p s"
  have pcs: "worker_pc ?s = (worker_pc s)[w := WWoken]" and tks: "tasks ?s = tasks s"
    by (simp_all add: arrived_def)
  have "WStart \<in> set (worker_pc s)" using w by (metis nth_mem)
  then obtain t n b where cl: "client s 0 = CSpawn t n b"
    using q(2) p by (cases "client s 0") (auto simp: stage_ok_def)
  have others: "\<forall>c. c \<noteq> 0 \<longrightarrow> client s c = CReturned TPOOL_OK None" using q(2) by (simp add: stage_ok_def)
  then have "client ?s = (client s)(0 := CSpawn t n True)"
    using choice_client [OF ch] cl by (auto simp: arrived_def)
  then have cl': "client ?s 0 = CSpawn t n True" "\<forall>c. c \<noteq> 0 \<longrightarrow> client ?s c = CReturned TPOOL_OK None"
    using others by simp_all
  have "counts_ok ?s" using q(1) w p by (auto simp: counts_ok_def arrived_def number_upd)
  moreover have "queue_ok ?s q"
  proof -
    have "WSleep \<in> set (worker_pc s)" if "WSleep \<in> set (worker_pc ?s)"
      using that set_upd_notin [of WSleep "worker_pc s" WWoken w] unfolding pcs by auto
    then have "int (length q) \<le> number (\<lambda>pc. pc = WWoken) (worker_pc ?s)" if "WSleep \<in> set (worker_pc ?s)"
      using that queue_okD(4) [OF q(3) p] w unfolding pcs by (auto simp: number_upd)
    with q(3) p show ?thesis by (simp add: queue_ok_def arrived_def)
  qed
  moreover have "tasks_ok call ?s q"
  proof -
    have "tasks_ok call (set_worker w WWoken s) q" by (rule tasks_ok_move [OF q(4) w(1)]) (simp_all add: w(2))
    moreover have "tasks_ok call ?s q = tasks_ok call (set_worker w WWoken s) q"
      by (rule tasks_ok_cong) (simp_all add: arrived_def)
    ultimately show ?thesis by simp
  qed
  moreover have "stage_ok ?s"
  proof -
    have "WExited \<notin> set (worker_pc s)" using q(2) p cl by (simp add: stage_ok_def)
    then have "WExited \<notin> set (worker_pc ?s)" unfolding pcs by (rule set_upd_notin) simp
    then show ?thesis using q(2) p cl cl' by (auto simp: stage_ok_def handle_def arrived_def)
  qed
  ultimately show ?thesis unfolding tp_inv_def by blast
qed

lemma worker_start_ok:
  assumes inv: "tp_inv call s" and w: "w < length (worker_pc s)" "worker_pc s ! w = WStart"
    and ch: "client_choice waits_spawn s ch"
  shows "\<exists>t. worker_start w ch s = Some t \<and> tp_inv call t"
proof -
  obtain p where p: "pool s = Some p" by (rule inv_pool [OF inv w(1)]) (use w(2) in auto)
  show ?thesis
    unfolding worker_start_arrived [OF p]
    by (rule worker_loop_ok [OF arrived_inv [OF inv w p ch]]) (use w(1) in \<open>simp_all add: arrived_def\<close>)
qed

text \<open>The worker runs its task.\<close>

lemma worker_task:
  assumes inv: "tp_inv call s" and w: "w < length (worker_pc s)" "task_of (worker_pc s ! w) = Some t"
  obtains q x p where "counts_ok s" "stage_ok s" "queue_ok s q" "tasks_ok call s q" "pool s = Some p"
    "tasks s t = Some x" "\<not> is_finished x" "t \<notin> set q"
proof -
  from inv obtain q where q: "counts_ok s" "stage_ok s" "queue_ok s q" "tasks_ok call s q"
    by (auto simp: tp_inv_def)
  obtain p where p: "pool s = Some p" by (rule inv_pool [OF inv w(1)]) (use w(2) in auto)
  have "t \<in> set (held s)" by (rule held_task [OF w])
  moreover from this have "unfinished s t" using q(4) unfolding tasks_ok_def by auto
  then obtain x where "tasks s t = Some x" "\<not> is_finished x" by (auto simp: unfinished_def)
  moreover have "t \<notin> set q" using calculation(1) q(4) by (auto simp: tasks_ok_def)
  ultimately show thesis using q p that by blast
qed

lemma queue_task_upd:
  assumes "queue_ok s q" and "tasks s t = Some x" and "pool s' = pool s" "worker_pc s' = worker_pc s"
    and "tasks s' = (tasks s)(t \<mapsto> y)" and "next_task y = next_task x"
  shows "queue_ok s' q"
proof -
  have "sll next_task (tasks s') a q None = sll next_task (tasks s) a q None" for a
    using assms(2,5,6) by (intro sll_cong) auto
  then show ?thesis using assms(1,3,4) by (simp add: queue_ok_def split: option.splits)
qed

lemma stage_task_upd:
  assumes "stage_ok s" and "tasks s t = Some x" and "pool s' = pool s" "worker_pc s' = worker_pc s" "client s' = client s"
    and "tasks s' = (tasks s)(t \<mapsto> y)" and "task_pool y = task_pool x" "is_finished y = is_finished x"
      "is_detached y = is_detached x"
  shows "stage_ok s'"
proof -
  have "handle s' u (\<lambda>x. \<not> task_pool x \<and> \<not> is_detached x) = handle s u (\<lambda>x. \<not> task_pool x \<and> \<not> is_detached x)" for u
    by (rule handle_upd [OF assms(2,6)]) (simp add: assms)
  moreover have "handle s' u (\<lambda>x. task_pool x \<and> (is_finished x \<longrightarrow> b)) = handle s u (\<lambda>x. task_pool x \<and> (is_finished x \<longrightarrow> b))"
    for u b by (rule handle_upd [OF assms(2,6)]) (simp add: assms)
  ultimately show ?thesis
    using assms(1,3-5) by (cases "pool s"; cases "client s 0") (simp_all add: stage_ok_def)
qed

lemma worker_mark_ok:
  assumes inv: "tp_inv call s" and w: "w < length (worker_pc s)" "worker_pc s ! w = WTaken t"
  shows "\<exists>u. worker_mark w t s = Some u \<and> tp_inv call u"
proof -
  from w have "task_of (worker_pc s ! w) = Some t" by simp
  from worker_task [OF inv w(1) this] obtain q x p where q: "counts_ok s" "stage_ok s" "queue_ok s q"
    "tasks_ok call s q" and p: "pool s = Some p" and x: "tasks s t = Some x" by metis
  let ?y = "x\<lparr>is_running := True\<rparr>"
  let ?m = "s\<lparr>tasks := (tasks s)(t \<mapsto> ?y)\<rparr>"
  have "counts_ok ?m" using q(1) counts_ok_cong [of ?m s] by simp
  then have "counts_ok (set_worker w (WRunning t) ?m)"
    by (rule counts_move) (use w p in simp_all)
  moreover have "queue_ok ?m q" by (rule queue_task_upd [OF q(3) x, of _ ?y]) simp_all
  then have "queue_ok (set_worker w (WRunning t) ?m) q"
    by (rule queue_move) (use w p in simp_all)
  moreover have "tasks_ok call ?m q"
    by (rule tasks_ok_mset [OF q(4)]) (use x in \<open>auto simp: held_def unfinished_def split: if_splits\<close>)
  then have "tasks_ok call (set_worker w (WRunning t) ?m) q"
    by (rule tasks_ok_move) (use w in simp_all)
  moreover have "stage_ok ?m" by (rule stage_task_upd [OF q(2) x, of _ ?y]) simp_all
  then have "stage_ok (set_worker w (WRunning t) ?m)"
    by (rule stage_move) (use w p in simp_all)
  ultimately have "tp_inv call (set_worker w (WRunning t) ?m)" unfolding tp_inv_def by blast
  then show ?thesis using x by (simp add: worker_mark_def upd_task_def)
qed

lemma worker_call_ok:
  assumes inv: "tp_inv call s" and w: "w < length (worker_pc s)" "worker_pc s ! w = WRunning t"
  shows "\<exists>u. worker_call call w t s = Some u \<and> tp_inv call u"
proof -
  from w have "task_of (worker_pc s ! w) = Some t" by simp
  from worker_task [OF inv w(1) this] obtain q x p where q: "counts_ok s" "stage_ok s" "queue_ok s q"
    "tasks_ok call s q" and p: "pool s = Some p" and x: "tasks s t = Some x" by metis
  let ?pc = "WResult t (call (task_function x) (task_arg x))"
  have "counts_ok (set_worker w ?pc s)" by (rule counts_move [OF q(1) w(1) _ _ _ p]) (simp_all add: w(2))
  moreover have "queue_ok (set_worker w ?pc s) q" by (rule queue_move [OF q(3) w(1) p]) (simp add: w(2))
  moreover have "tasks_ok call (set_worker w ?pc s) q" by (rule tasks_ok_move [OF q(4) w(1)]) (use x w(2) in auto)
  moreover have "stage_ok (set_worker w ?pc s)" by (rule stage_move [OF q(2) w(1) p]) (simp_all add: w(2))
  ultimately have "tp_inv call (set_worker w ?pc s)" unfolding tp_inv_def by blast
  then show ?thesis using x by (simp add: worker_call_def)
qed

text \<open>The end of a task, up to the head of the loop.\<close>

definition completed :: "nat \<Rightarrow> addr \<Rightarrow> int \<Rightarrow> nat option \<Rightarrow> tpool \<Rightarrow> task \<Rightarrow> tsys \<Rightarrow> tsys" where
  "completed w t r ch p x s = set_worker w WWoken ((signal_client ch s)
     \<lparr>tasks := (tasks s)(t \<mapsto> x\<lparr>is_running := False, is_finished := True, task_result := r\<rparr>),
      pool := Some (p\<lparr>running_task_count := running_task_count p - 1, idle_thread_count := idle_thread_count p + 1\<rparr>)\<rparr>)"

lemma worker_finish_completed:
  "pool s = Some p \<Longrightarrow> tasks s t = Some x \<Longrightarrow> \<not> is_detached x \<Longrightarrow>
   worker_finish w t r ch s = worker_loop w (completed w t r ch p x s)"
  by (simp add: worker_finish_def upd_pool_def upd_task_def completed_def signal_client_pool
      signal_client_tasks worker_loop_pc)

lemma completed_stage:
  assumes inv: "stage_ok s" and w: "w < length (worker_pc s)" "worker_pc s ! w = WResult t r"
    and p: "pool s = Some p" and x: "tasks s t = Some x" and ch: "client_choice (waits_task t) s ch"
  shows "stage_ok (completed w t r ch p x s)"
proof -
  let ?s = "completed w t r ch p x s"
  let ?y = "x\<lparr>is_running := False, is_finished := True, task_result := r\<rparr>"
  have pcs: "worker_pc ?s = (worker_pc s)[w := WWoken]" and tks: "tasks ?s = (tasks s)(t \<mapsto> ?y)"
    by (simp_all add: completed_def)
  have others: "\<forall>c. c \<noteq> 0 \<longrightarrow> client s c = CReturned TPOOL_OK None" using inv by (simp add: stage_ok_def)
  then have cl: "client ?s = (client s)(0 := if waits_task t (client s 0) then wake_client (client s 0) else client s 0)"
    using choice_client [OF ch] by (auto simp: completed_def)
  have "WResult t r \<in> set (worker_pc s)" using w by (metis nth_mem)
  then have "\<not> (\<forall>pc \<in> set (worker_pc s). idle pc)" by force
  then have del: "client s 0 \<noteq> CDelete i" for i using inv p by (auto simp: stage_ok_def simp del: de_Morgan_conj)
  have ex: "WExited \<notin> set (worker_pc ?s)" if "WExited \<notin> set (worker_pc s)"
    unfolding pcs by (rule set_upd_notin [OF that]) simp
  have st: "WStart \<notin> set (worker_pc ?s)" if "WStart \<notin> set (worker_pc s)"
    unfolding pcs by (rule set_upd_notin [OF that]) simp
  have st': "WStart \<in> set (worker_pc ?s)" if "WStart \<in> set (worker_pc s)"
    unfolding pcs using that w by (intro set_upd_other) simp_all
  have hs: "handle ?s u (\<lambda>x. \<not> task_pool x \<and> \<not> is_detached x) = handle s u (\<lambda>x. \<not> task_pool x \<and> \<not> is_detached x)" for u
    by (rule handle_upd [OF x tks]) simp
  have hj: "handle ?s u (\<lambda>x. task_pool x \<and> (is_finished x \<longrightarrow> b'))"
    if "handle s u (\<lambda>x. task_pool x \<and> (is_finished x \<longrightarrow> b))" "b \<longrightarrow> b'" "u = t \<longrightarrow> b'" for u b b'
    using that x unfolding handle_def tks by (auto split: option.splits if_splits)
  have len: "length (worker_pc ?s) = length (worker_pc s)" unfolding pcs by simp
  obtain p' where p': "pool ?s = Some p'" "thread_idx_that_should_exit p' = thread_idx_that_should_exit p"
      "pending_task_count p' = pending_task_count p" by (simp add: completed_def)
  note parts = inv [unfolded stage_ok_def p option.case]
  have others': "\<forall>c. c \<noteq> 0 \<longrightarrow> client ?s c = CReturned TPOOL_OK None" using others cl by simp
  show ?thesis
  proof (cases "client s 0")
    case (CReturned e v)
    then show ?thesis using parts p' others' cl ex st unfolding stage_ok_def by simp
  next
    case (CSpawn u n b)
    then show ?thesis using parts p' others' cl ex st' hs len unfolding stage_ok_def by simp
  next
    case (CJoin u b)
    then have "client ?s 0 = CJoin u (b \<or> u = t)" using cl by auto
    moreover have "handle ?s u (\<lambda>x. task_pool x \<and> (is_finished x \<longrightarrow> b \<or> u = t))"
      using parts CJoin by (intro hj [of u b]) simp_all
    ultimately show ?thesis using CJoin parts p' others' ex st unfolding stage_ok_def by simp
  next
    case (CTimedJoin u b)
    then have "client ?s 0 = CTimedJoin u (b \<or> u = t)" using cl by auto
    moreover have "handle ?s u (\<lambda>x. task_pool x \<and> (is_finished x \<longrightarrow> b \<or> u = t))"
      using parts CTimedJoin by (intro hj [of u b]) simp_all
    ultimately show ?thesis using CTimedJoin parts p' others' ex st unfolding stage_ok_def by simp
  next
    case (CDelete i)
    with del show ?thesis by blast
  qed
qed

lemma completed_inv:
  assumes inv: "tp_inv call s" and w: "w < length (worker_pc s)" "worker_pc s ! w = WResult t r"
    and p: "pool s = Some p" and x: "tasks s t = Some x" and ch: "client_choice (waits_task t) s ch"
  shows "tp_inv call (completed w t r ch p x s)"
proof -
  let ?s = "completed w t r ch p x s"
  let ?y = "x\<lparr>is_running := False, is_finished := True, task_result := r\<rparr>"
  have pcs: "worker_pc ?s = (worker_pc s)[w := WWoken]" and tks: "tasks ?s = (tasks s)(t \<mapsto> ?y)"
    by (simp_all add: completed_def)
  from inv obtain q where q: "counts_ok s" "stage_ok s" "queue_ok s q" "tasks_ok call s q"
    by (auto simp: tp_inv_def)
  have m: "mset (held s) = add_mset t (mset (held ?s))" using held_upd [OF w(1) pcs] w(2) by simp
  then have new: "t \<notin> set (held ?s)" "t \<notin> set q" "distinct (q @ held ?s)"
    using q(4) mset_eq_imp_distinct_iff [of "held s" "t # held ?s"] mset_eq_setD [of "held s" "t # held ?s"]
    by (auto simp: tasks_ok_def)
  have sets: "set (held s) = insert t (set (held ?s))" using mset_eq_setD [of "held s" "t # held ?s"] m by simp
  have "counts_ok ?s" using q(1) w p by (auto simp: counts_ok_def completed_def number_upd)
  moreover have "queue_ok ?s q"
  proof -
    have "sll next_task (tasks ?s) (pending_task_list p) q None"
      unfolding tks using queue_okD(1) [OF q(3) p] new(2) by (subst sll_cong [where h' = "tasks s"]) auto
    moreover have "WSleep \<in> set (worker_pc s)" if "WSleep \<in> set (worker_pc ?s)"
      using that set_upd_notin [of WSleep "worker_pc s" WWoken w] unfolding pcs by auto
    then have "int (length q) \<le> number (\<lambda>pc. pc = WWoken) (worker_pc ?s)" if "WSleep \<in> set (worker_pc ?s)"
      using that queue_okD(4) [OF q(3) p] w unfolding pcs by (auto simp: number_upd)
    ultimately show ?thesis using q(3) p by (simp add: queue_ok_def completed_def)
  qed
  moreover have "tasks_ok call ?s q"
    unfolding tasks_ok_def
  proof (intro conjI allI impI)
    show "distinct (q @ held ?s)" by (rule new(3))
    have "unfinished ?s u \<longleftrightarrow> u \<noteq> t \<and> unfinished s u" for u by (auto simp: unfinished_def tks)
    then show "u \<in> set (q @ held ?s) \<longleftrightarrow> unfinished ?s u" for u
      using q(4) sets new unfolding tasks_ok_def by auto
    have r: "r = call (task_function x) (task_arg x)"
      using q(4) x w unfolding tasks_ok_def by (metis nth_mem)
    fix u y assume y: "tasks ?s u = Some y"
    show "u < fresh_task ?s" "is_detached y \<Longrightarrow> \<not> task_pool y"
      using y x q(4) by (auto simp: tks tasks_ok_def completed_def split: if_splits)
    show "task_result y = call (task_function y) (task_arg y)" if "is_finished y"
    proof (cases "u = t")
      case True
      then have "y = ?y" using y unfolding tks by simp
      then show ?thesis using r by simp
    next
      case False
      with y that q(4) show ?thesis by (simp add: tks tasks_ok_def)
    qed
    show "r' = call (task_function y) (task_arg y)" if "WResult u r' \<in> set (worker_pc ?s)" for r'
    proof -
      have "WResult u r' \<in> set (worker_pc s)"
        using that set_upd_notin [of "WResult u r'" "worker_pc s" WWoken w] unfolding pcs by auto
      then show ?thesis using y x q(4) by (auto simp: tks tasks_ok_def split: if_splits)
    qed
  qed
  moreover have "stage_ok ?s" by (rule completed_stage [OF q(2) w p x ch])
  ultimately show ?thesis unfolding tp_inv_def by blast
qed

text \<open>Unless the task has been detached in the meantime.\<close>

lemma worker_finish_ok:
  assumes inv: "tp_inv call s" and w: "w < length (worker_pc s)" "worker_pc s ! w = WResult t r"
    and ch: "client_choice (waits_task t) s ch" and d: "\<not> handle s t is_detached"
  shows "\<exists>u. worker_finish w t r ch s = Some u \<and> tp_inv call u"
proof -
  from w have "task_of (worker_pc s ! w) = Some t" by simp
  from worker_task [OF inv w(1) this] obtain x p where p: "pool s = Some p" and x: "tasks s t = Some x" by metis
  from d x have "\<not> is_detached x" by (simp add: handle_def)
  from worker_finish_completed [OF p x this] show ?thesis
    using worker_loop_ok [OF completed_inv [OF inv w p x ch], of w] w(1) by (simp add: completed_def)
qed

end
