(* ===== verification/PoolCalls.thy ===== *)
theory PoolCalls
  imports PoolInvariant
begin

section \<open>The thread pool: the calls keep the invariant\<close>

text \<open>The calls of the client, and with them every step of the system.\<close>

lemma stage_others: "stage_ok s \<Longrightarrow> c \<noteq> 0 \<Longrightarrow> client s c = CReturned TPOOL_OK None"
  by (simp add: stage_ok_def)

text \<open>Outside a call, and with the pool there, nobody is told to exit.\<close>

definition at_rest :: "tsys \<Rightarrow> bool" where
  "at_rest s \<longleftrightarrow> (\<forall>c. c \<noteq> 0 \<longrightarrow> client s c = CReturned TPOOL_OK None) \<and>
     (\<forall>p. pool s = Some p \<longrightarrow> thread_idx_that_should_exit p = -1 \<and> WExited \<notin> set (worker_pc s) \<and>
        WStart \<notin> set (worker_pc s))"

lemma at_rest_returned: "client s 0 = CReturned e v \<Longrightarrow> stage_ok s \<longleftrightarrow> at_rest s"
  by (cases "pool s") (simp_all add: stage_ok_def at_rest_def)

lemma at_rest_join: "stage_ok s \<Longrightarrow> client s 0 = CJoin t b \<or> client s 0 = CTimedJoin t b \<Longrightarrow> at_rest s"
  by (cases "pool s") (auto simp: stage_ok_def at_rest_def)

lemma at_rest_stage:
  "at_rest s \<Longrightarrow> pc = CReturned e v \<Longrightarrow> stage_ok (set_client 0 pc s)"
  by (cases "pool s") (simp_all add: stage_ok_def at_rest_def)

lemma at_rest_joining:
  "at_rest s \<Longrightarrow> pc = CJoin t b \<or> pc = CTimedJoin t b \<Longrightarrow> handle s t (\<lambda>x. task_pool x \<and> (is_finished x \<longrightarrow> b)) \<Longrightarrow>
   stage_ok (set_client 0 pc s)"
  by (cases "pool s") (auto simp: stage_ok_def at_rest_def)

lemma return_inv:
  "tp_inv call s \<Longrightarrow> at_rest s \<Longrightarrow> tp_inv call (set_client 0 (CReturned e v) s)"
  by (rule tp_inv_client) (simp_all add: at_rest_stage)

subsection \<open>Tasks\<close>

text \<open>A task outside the list changes, but for its place in the pool.\<close>

lemma task_upd_inv:
  assumes inv: "tp_inv call s" and rest: "at_rest s" and x: "tasks s t = Some x"
    and y: "next_task y = next_task x" "is_finished y = is_finished x"
      "task_result y = task_result x" "task_function y = task_function x" "task_arg y = task_arg x"
    and u: "(task_pool y \<or> is_detached y) \<and> \<not> is_finished y \<longleftrightarrow> (task_pool x \<or> is_detached x) \<and> \<not> is_finished x"
    and d: "is_detached y \<Longrightarrow> \<not> task_pool y"
  shows "tp_inv call (set_client 0 (CReturned e v) (s\<lparr>tasks := (tasks s)(t \<mapsto> y)\<rparr>))"
proof -
  from inv obtain q where q: "counts_ok s" "queue_ok s q" "tasks_ok call s q" by (auto simp: tp_inv_def)
  let ?m = "s\<lparr>tasks := (tasks s)(t \<mapsto> y)\<rparr>"
  let ?s = "set_client 0 (CReturned e v) ?m"
  have "counts_ok ?s" using q(1) counts_ok_cong [of ?s s] by simp
  moreover have "queue_ok ?s q" by (rule queue_task_upd [OF q(2) x, of _ y]) (simp_all add: y)
  moreover have "tasks_ok call ?s q"
  proof (rule tasks_ok_mset [OF q(3)])
    show "unfinished ?s a \<longleftrightarrow> unfinished s a" for a using x u by (auto simp: unfinished_def)
  qed (use x y d in \<open>auto simp: held_def split: if_splits\<close>)
  moreover have "stage_ok ?s" by (rule at_rest_stage) (use rest in \<open>simp_all add: at_rest_def\<close>)
  ultimately show ?thesis unfolding tp_inv_def by blast
qed

lemma thread_task_new_simps [simp]:
  "pool (snd (thread_task_new f a s)) = pool s" "worker_pc (snd (thread_task_new f a s)) = worker_pc s"
  "worker_idx (snd (thread_task_new f a s)) = worker_idx s" "client (snd (thread_task_new f a s)) = client s"
  by (simp_all add: thread_task_new_def Let_def)

lemma task_new_inv:
  assumes inv: "tp_inv call s" and rest: "at_rest s"
  shows "tp_inv call (set_client 0 (CReturned e v) (snd (thread_task_new f a s)))"
proof -
  from inv obtain q where q: "counts_ok s" "queue_ok s q" "tasks_ok call s q" by (auto simp: tp_inv_def)
  let ?s = "set_client 0 (CReturned e v) (snd (thread_task_new f a s))"
  have same: "pool ?s = pool s" "worker_pc ?s = worker_pc s" "worker_idx ?s = worker_idx s"
    by simp_all
  have new: "tasks s (fresh_task s) = None"
    using q(3) by (cases "tasks s (fresh_task s)") (auto simp: tasks_ok_def)
  have uf: "unfinished ?s u \<longleftrightarrow> unfinished s u" for u
    using new by (auto simp: unfinished_def thread_task_new_def Let_def)
  have "counts_ok ?s" using q(1) counts_ok_cong [OF same] by simp
  moreover have "queue_ok ?s q"
  proof -
    have "\<forall>u \<in> set q. unfinished s u" using q(3) unfolding tasks_ok_def by auto
    then have "fresh_task s \<notin> set q" using new by (auto simp: unfinished_def)
    then have "sll next_task (tasks ?s) b q None = sll next_task (tasks s) b q None" for b
      by (intro sll_cong) (auto simp: thread_task_new_def Let_def)
    with q(2) show ?thesis by (cases "pool s") (simp_all add: queue_ok_def same)
  qed
  moreover have "tasks_ok call ?s q"
  proof -
    have held: "held ?s = held s" by (simp add: held_def same)
    have "t \<noteq> fresh_task s" if "WResult t r \<in> set (worker_pc s)" for t r
    proof -
      obtain w where "w < length (worker_pc s)" "worker_pc s ! w = WResult t r"
        using \<open>WResult t r \<in> _\<close> by (metis in_set_conv_nth)
      then have "t \<in> set (held s)" by (intro held_task [of w]) simp_all
      then have "unfinished s t" using q(3) unfolding tasks_ok_def by auto
      with new show ?thesis by (auto simp: unfinished_def)
    qed
    then show ?thesis
      using q(3) uf unfolding tasks_ok_def held same
      by (auto simp: thread_task_new_def Let_def less_SucI)
  qed
  moreover have "stage_ok ?s" by (rule at_rest_stage) (use rest in \<open>simp_all add: at_rest_def thread_task_new_def Let_def\<close>)
  ultimately show ?thesis unfolding tp_inv_def by blast
qed

text \<open>A task outside the pool is freed.\<close>

lemma task_free_inv:
  assumes inv: "tp_inv call s" and rest: "at_rest s" and x: "\<not> unfinished s t"
  shows "tp_inv call (set_client 0 (CReturned e v) (s\<lparr>tasks := (tasks s)(t := None)\<rparr>))"
proof -
  from inv obtain q where q: "counts_ok s" "queue_ok s q" "tasks_ok call s q" by (auto simp: tp_inv_def)
  let ?s = "set_client 0 (CReturned e v) (s\<lparr>tasks := (tasks s)(t := None)\<rparr>)"
  have "t \<notin> set q" using q(3) x unfolding tasks_ok_def by auto
  then have "sll next_task (tasks ?s) b q None = sll next_task (tasks s) b q None" for b
    by (intro sll_cong) auto
  then have "queue_ok ?s q" using q(2) by (cases "pool s") (simp_all add: queue_ok_def)
  moreover have "counts_ok ?s" using q(1) counts_ok_cong [of ?s s] by simp
  moreover have "tasks_ok call ?s q"
  proof (rule tasks_ok_mset [OF q(3)])
    show "unfinished ?s u \<longleftrightarrow> unfinished s u" for u using x by (auto simp: unfinished_def)
  qed (auto simp: held_def split: if_splits)
  moreover have "stage_ok ?s" by (rule at_rest_stage) (use rest in \<open>simp_all add: at_rest_def\<close>)
  ultimately show ?thesis unfolding tp_inv_def by blast
qed

lemma task_delete_ok:
  assumes inv: "tp_inv call s" and rest: "at_rest s" and "handle s t (\<lambda>x. \<not> is_detached x)"
  shows "\<exists>u. do { (e, s) \<leftarrow> thread_task_delete t s; Some (set_client 0 (CReturned e None) s) } = Some u \<and> tp_inv call u"
proof -
  obtain x where x: "tasks s t = Some x" "\<not> is_detached x"
    using assms(3) by (auto simp: handle_def split: option.splits)
  show ?thesis
  proof (cases "task_pool x")
    case True
    with x return_inv [OF inv rest] show ?thesis by (simp add: thread_task_delete_def)
  next
    case False
    then have "\<not> unfinished s t" using x by (simp add: unfinished_def)
    from task_free_inv [OF inv rest this] x False show ?thesis by (simp add: thread_task_delete_def)
  qed
qed

lemma task_detach_ok:
  assumes inv: "tp_inv call s" and rest: "at_rest s" and "handle s t (\<lambda>x. \<not> is_detached x)"
  shows "\<exists>u. do { (e, s) \<leftarrow> thread_task_detach t s; Some (set_client 0 (CReturned e None) s) } = Some u \<and> tp_inv call u"
proof -
  obtain x where x: "tasks s t = Some x" "\<not> is_detached x"
    using assms(3) by (auto simp: handle_def split: option.splits)
  consider "\<not> task_pool x" | "task_pool x" "is_finished x" | "task_pool x" "\<not> is_finished x" by blast
  then show ?thesis
  proof cases
    case 1
    with x return_inv [OF inv rest] show ?thesis by (simp add: thread_task_detach_def)
  next
    case 2
    then have "\<not> unfinished s t" using x by (simp add: unfinished_def)
    from task_free_inv [OF inv rest this] x 2 show ?thesis
      by (simp add: thread_task_detach_def thread_task_delete_def upd_task_def)
  next
    case 3
    have "tp_inv call (set_client 0 (CReturned TPOOL_OK None)
        (s\<lparr>tasks := (tasks s)(t \<mapsto> x\<lparr>task_pool := False, is_detached := True\<rparr>)\<rparr>))"
      by (rule task_upd_inv [OF inv rest x(1)]) (use 3 in simp_all)
    with x 3 show ?thesis by (simp add: thread_task_detach_def upd_task_def)
  qed
qed

lemma join_finish_ok:
  assumes inv: "tp_inv call s" and rest: "at_rest s" and x: "tasks s t = Some x" "is_finished x"
  shows "\<exists>u. join_finish 0 t s = Some u \<and> tp_inv call u"
proof -
  have "tp_inv call (set_client 0 (CReturned TPOOL_OK (Some (task_result x)))
      (s\<lparr>tasks := (tasks s)(t \<mapsto> x\<lparr>task_pool := False\<rparr>)\<rparr>))"
    by (rule task_upd_inv [OF inv rest x(1)]) (simp_all add: x(2))
  with x show ?thesis by (simp add: join_finish_def upd_task_def)
qed

lemma join_wait_ok:
  assumes inv: "tp_inv call s" and rest: "at_rest s" and h: "handle s t task_pool"
  shows "\<exists>u. join_wait 0 t s = Some u \<and> tp_inv call u"
    and "\<exists>u. timed_join_wait 0 t s = Some u \<and> tp_inv call u"
proof -
  obtain x where x: "tasks s t = Some x" "task_pool x" using h by (auto simp: handle_def split: option.splits)
  have sleep: "tp_inv call (set_client 0 pc s)" if "\<not> is_finished x" "pc = CJoin t False \<or> pc = CTimedJoin t False" for pc
  proof (rule tp_inv_client [OF inv])
    have "handle s t (\<lambda>x. task_pool x \<and> (is_finished x \<longrightarrow> False))" using that(1) x by (simp add: handle_def)
    with that(2) show "stage_ok (set_client 0 pc s)" by (rule at_rest_joining [OF rest])
  qed
  show "\<exists>u. join_wait 0 t s = Some u \<and> tp_inv call u"
    using join_finish_ok [OF inv rest x(1)] sleep [of "CJoin t False"] x(1)
    by (cases "is_finished x") (simp_all add: join_wait_def)
  show "\<exists>u. timed_join_wait 0 t s = Some u \<and> tp_inv call u"
    using join_finish_ok [OF inv rest x(1)] sleep [of "CTimedJoin t False"] x(1)
    by (cases "is_finished x") (simp_all add: timed_join_wait_def)
qed

lemma task_join_ok:
  assumes inv: "tp_inv call s" and rest: "at_rest s" and h: "handle s t (\<lambda>x. \<not> is_detached x)"
  shows "\<exists>u. thread_task_join 0 t s = Some u \<and> tp_inv call u"
    and "fless timeout ONE_NANO \<or> timed_join_deadline sec usec timeout \<noteq> None \<Longrightarrow> \<exists>u. thread_task_timed_join 0 t timeout sec usec s = Some u \<and> tp_inv call u"
proof -
  obtain x where x: "tasks s t = Some x" using h by (auto simp: handle_def split: option.splits)
  have "handle s t task_pool" if "task_pool x" using that x by (simp add: handle_def)
  note wait = join_wait_ok [OF inv rest this]
  show "\<exists>u. thread_task_join 0 t s = Some u \<and> tp_inv call u"
    using x wait(1) return_inv [OF inv rest] by (cases "task_pool x") (simp_all add: thread_task_join_def)
  show "\<exists>u. thread_task_timed_join 0 t timeout sec usec s = Some u \<and> tp_inv call u"
    if "fless timeout ONE_NANO \<or> timed_join_deadline sec usec timeout \<noteq> None"
  proof -
    from that consider "fless timeout ONE_NANO" | ts where "timed_join_deadline sec usec timeout = Some ts" by blast
    then show ?thesis
      using x wait(2) return_inv [OF inv rest] join_finish_ok [OF inv rest x]
      by cases (cases "task_pool x"; cases "is_finished x"; simp add: thread_task_timed_join_def)+
  qed
qed

subsection \<open>Pushing a task\<close>

definition pushed :: "addr \<Rightarrow> nat option \<Rightarrow> tpool \<Rightarrow> task \<Rightarrow> tsys \<Rightarrow> tsys" where
  "pushed t ch p x s = set_client 0 (CReturned TPOOL_OK None) (signal_worker ch (s\<lparr>
     tasks := (tasks s)(t \<mapsto> x\<lparr>task_pool := True, next_task := pending_task_list p, is_finished := False, is_running := False\<rparr>),
     pool := Some (p\<lparr>pending_task_list := Some t, pending_task_count := pending_task_count p + 1\<rparr>)\<rparr>))"

lemma push_finish_pushed:
  "pool s = Some p \<Longrightarrow> tasks s t = Some x \<Longrightarrow> push_finish 0 t ch s = Some (pushed t ch p x s)"
  by (simp add: push_finish_def upd_task_def upd_pool_def pushed_def)

definition woken_pcs :: "nat option \<Rightarrow> worker_pc list \<Rightarrow> worker_pc list" where
  "woken_pcs ch pcs = (case ch of None \<Rightarrow> pcs | Some w \<Rightarrow> pcs[w := WWoken])"

lemma pushed_simps [simp]:
  "worker_pc (pushed t ch p x s) = woken_pcs ch (worker_pc s)"
  "pool (pushed t ch p x s) = Some (p\<lparr>pending_task_list := Some t, pending_task_count := pending_task_count p + 1\<rparr>)"
  "tasks (pushed t ch p x s) = (tasks s)(t \<mapsto> x\<lparr>task_pool := True, next_task := pending_task_list p,
     is_finished := False, is_running := False\<rparr>)"
  "worker_idx (pushed t ch p x s) = worker_idx s" "fresh_task (pushed t ch p x s) = fresh_task s"
  "client (pushed t ch p x s) = (client s)(0 := CReturned TPOOL_OK None)"
  by (cases ch; simp add: pushed_def signal_worker_def woken_pcs_def)+

text \<open>A signal that wakes a worker.\<close>

lemma woken_pcs_number:
  assumes "worker_choice s ch" and "P WSleep = P WWoken"
  shows "number P (woken_pcs ch (worker_pc s)) = number P (worker_pc s)"
  using assms by (cases ch) (auto simp: woken_pcs_def worker_choice_def number_upd)

lemma woken_pcs_map_filter:
  assumes "worker_choice s ch"
  shows "mset (List.map_filter task_of (woken_pcs ch (worker_pc s))) = mset (held s)"
proof (cases ch)
  case (Some w)
  with assms have w: "w < length (worker_pc s)" "worker_pc s ! w = WSleep" by (simp_all add: worker_choice_def)
  with Some mset_map_filter_upd [OF w(1), of task_of WWoken] show ?thesis by (simp add: woken_pcs_def held_def)
qed (simp add: woken_pcs_def held_def)

lemma woken_pcs_notin:
  "pc \<notin> set (worker_pc s) \<Longrightarrow> pc \<noteq> WWoken \<Longrightarrow> pc \<notin> set (woken_pcs ch (worker_pc s))"
  by (cases ch) (simp_all add: woken_pcs_def set_upd_notin)

lemma woken_pcs_sleep:
  assumes "worker_choice s ch" and "WSleep \<in> set (woken_pcs ch (worker_pc s))"
  shows "WSleep \<in> set (worker_pc s)"
    and "number (\<lambda>pc. pc = WWoken) (woken_pcs ch (worker_pc s)) = number (\<lambda>pc. pc = WWoken) (worker_pc s) + 1"
proof -
  show "WSleep \<in> set (worker_pc s)" using assms(2) woken_pcs_notin [of WSleep s ch] by auto
  with assms(1) obtain w where "ch = Some w" "w < length (worker_pc s)" "worker_pc s ! w = WSleep"
    by (cases ch) (auto simp: worker_choice_def)
  then show "number (\<lambda>pc. pc = WWoken) (woken_pcs ch (worker_pc s)) = number (\<lambda>pc. pc = WWoken) (worker_pc s) + 1"
    by (simp add: woken_pcs_def number_upd)
qed

lemma length_woken_pcs [simp]: "length (woken_pcs ch pcs) = length pcs"
  by (cases ch) (simp_all add: woken_pcs_def)

lemma woken_pcs_Nil [simp]: "woken_pcs ch pcs = [] \<longleftrightarrow> pcs = []"
  by (metis length_0_conv length_woken_pcs)

lemma pushed_inv:
  assumes inv: "counts_ok s" "queue_ok s q" "tasks_ok call s q" and rest: "at_rest s"
    and p: "pool s = Some p" and x: "tasks s t = Some x" "\<not> task_pool x" "\<not> is_detached x"
    and room: "pending_task_count p < TPOOL_MAX_TASKS" and some: "worker_pc s \<noteq> []" and ch: "worker_choice s ch"
  shows "tp_inv call (pushed t ch p x s)"
proof -
  let ?s = "pushed t ch p x s"
  have new: "t \<notin> set (q @ held s)" using inv(3) x unfolding tasks_ok_def by (auto simp: unfinished_def)
  have "counts_ok ?s"
    using counts_okD [OF inv(1) p] room some
    by (simp add: counts_ok_def woken_pcs_number [OF ch])
  moreover have "queue_ok ?s (t # q)"
  proof -
    have "sll next_task (tasks ?s) (pending_task_list p) q None"
      using queue_okD(1) [OF inv(2) p] new by (subst sll_cong [where h' = "tasks s"]) auto
    moreover have "int (length (t # q)) \<le> number (\<lambda>pc. pc = WWoken) (worker_pc ?s)"
      if "WSleep \<in> set (worker_pc ?s)"
      using woken_pcs_sleep [OF ch] that queue_okD(4) [OF inv(2) p] by simp
    ultimately show ?thesis using queue_okD(2) [OF inv(2) p] some by (simp add: queue_ok_def)
  qed
  moreover have "tasks_ok call ?s (t # q)"
    unfolding tasks_ok_def
  proof (intro conjI allI impI)
    have m: "mset (held ?s) = mset (held s)" using woken_pcs_map_filter [OF ch] by (simp add: held_def)
    then have sets: "set (held ?s) = set (held s)" by (rule mset_eq_setD)
    have "distinct (held ?s)" using inv(3) mset_eq_imp_distinct_iff [OF m] by (simp add: tasks_ok_def)
    then show "distinct ((t # q) @ held ?s)" using inv(3) new sets by (auto simp: tasks_ok_def)
    show "u \<in> set ((t # q) @ held ?s) \<longleftrightarrow> unfinished ?s u" for u
      using inv(3) sets new unfolding tasks_ok_def by (auto simp: unfinished_def)
    fix u y assume y: "tasks ?s u = Some y"
    show "u < fresh_task ?s" "is_detached y \<Longrightarrow> \<not> task_pool y"
      using y x inv(3) by (auto simp: tasks_ok_def split: if_splits)
    show "task_result y = call (task_function y) (task_arg y)" if "is_finished y"
      using that y inv(3) by (auto simp: tasks_ok_def split: if_splits)
    show "r = call (task_function y) (task_arg y)" if "WResult u r \<in> set (worker_pc ?s)" for r
    proof -
      have "WResult u r \<in> set (worker_pc s)" using that woken_pcs_notin [of "WResult u r" s ch] by auto
      then show ?thesis using y x inv(3) by (auto simp: tasks_ok_def split: if_splits)
    qed
  qed
  moreover have "stage_ok ?s"
    using rest p woken_pcs_notin [of WExited s ch] woken_pcs_notin [of WStart s ch]
    by (simp add: stage_ok_def at_rest_def)
  ultimately show ?thesis unfolding tp_inv_def by blast
qed

text \<open>A new worker, for which the client waits.\<close>

definition spawning :: "addr \<Rightarrow> tpool \<Rightarrow> tsys \<Rightarrow> tsys" where
  "spawning t p s = set_client 0 (CSpawn t (int (length (worker_pc s)) + 1) False) (s\<lparr>
     pool := Some (p\<lparr>threads := Some (map Some [0..<Suc (length (worker_pc s))])\<rparr>),
     worker_idx := worker_idx s @ [int (length (worker_pc s))], worker_pc := worker_pc s @ [WStart]\<rparr>)"

lemma spawning_inv:
  assumes inv: "counts_ok s" "queue_ok s q" "tasks_ok call s q" and rest: "at_rest s"
    and p: "pool s = Some p" and t: "handle s t (\<lambda>x. \<not> task_pool x \<and> \<not> is_detached x)"
    and room: "pending_task_count p < TPOOL_MAX_TASKS" "int (length (worker_pc s)) < max_thread_count p"
  shows "tp_inv call (spawning t p s)"
proof -
  let ?s = "spawning t p s"
  have pcs: "worker_pc ?s = worker_pc s @ [WStart]" by (simp add: spawning_def)
  have held: "held ?s = held s" unfolding held_def pcs by (simp add: List.map_filter_def)
  have "counts_ok ?s" using counts_okD [OF inv(1) p] room by (simp add: counts_ok_def spawning_def)
  moreover have "queue_ok ?s q" using inv(2) p by (simp add: queue_ok_def spawning_def)
  moreover have "tasks_ok call ?s q"
    using inv(3) unfolding tasks_ok_def held by (auto simp: spawning_def unfinished_def)
  moreover have "stage_ok ?s"
    using rest p t room by (simp add: stage_ok_def at_rest_def spawning_def handle_def)
  ultimately show ?thesis unfolding tp_inv_def by blast
qed

lemma grow_threads_snoc:
  "(grow_threads (map Some [0..<k]) (Suc k))[k := Some k] = map Some [0..<Suc k]"
  by (simp add: grow_threads_def list_update_append)

lemma push_wait_push:
  "pool s = Some p \<Longrightarrow> tasks s t = Some x \<Longrightarrow> thread_count p = n \<Longrightarrow> push_wait 0 t n ch s = Some (pushed t ch p x s)"
  by (simp add: push_wait_def push_finish_pushed)

lemma push_task_ok:
  assumes inv: "tp_inv call s" and rest: "at_rest s" and h: "handle s t (\<lambda>x. \<not> task_pool x \<and> \<not> is_detached x)"
    and p: "pool s = Some p" and ch: "worker_choice s ch"
  shows "\<exists>u. thread_pool_push_task 0 t ch s = Some u \<and> tp_inv call u"
proof -
  from inv obtain q where q: "counts_ok s" "queue_ok s q" "tasks_ok call s q" by (auto simp: tp_inv_def)
  obtain x where x: "tasks s t = Some x" "\<not> task_pool x" "\<not> is_detached x" using h by (auto simp: handle_def split: option.splits)
  note c = counts_okD [OF q(1) p]
  let ?k = "length (worker_pc s)"
  have "WStart \<notin> set (worker_pc s)" using rest p by (simp add: at_rest_def)
  then have all: "thread_count p = int ?k" unfolding c(1) by (intro number_all) auto
  show ?thesis
  proof (cases "pending_task_count p < TPOOL_MAX_TASKS")
    case False
    with p return_inv [OF inv rest] show ?thesis by (simp add: thread_pool_push_task_def)
  next
    case True
    note push = pushed_inv [OF q rest p x True _ ch] and spawn = spawning_inv [OF q rest p h True]
    consider (first) "worker_pc s = []" | (more) "worker_pc s \<noteq> []" "idle_thread_count p = 0" "thread_count p < max_thread_count p"
      | (none) "worker_pc s \<noteq> []" "\<not> (idle_thread_count p = 0 \<and> thread_count p < max_thread_count p)" by blast
    then show ?thesis
    proof cases
      case first
      then have "thread_pool_push_task 0 t ch s = Some (spawning t p s)"
        using True p c(7) all
        by (simp add: thread_pool_push_task_def spawn_worker_def create_worker_def upd_pool_def push_wait_def spawning_def)
      with spawn first c(8) show ?thesis by simp
    next
      case more
      then have "spawn_worker s = Some (int ?k + 1, s\<lparr>pool := Some (p\<lparr>threads := Some (map Some [0..<Suc ?k])\<rparr>),
          worker_idx := worker_idx s @ [int ?k], worker_pc := worker_pc s @ [WStart]\<rparr>)"
        using p c(7) all grow_threads_snoc [of ?k]
        by (simp add: spawn_worker_def create_worker_def upd_pool_def nat_add_distrib del: upt_Suc)
      then have "thread_pool_push_task 0 t ch s = Some (spawning t p s)"
        using True p all by (simp add: thread_pool_push_task_def push_wait_def spawning_def)
      with spawn more all show ?thesis by simp
    next
      case none
      then have "spawn_worker s = Some (int ?k, s)" using p c(7) all by (auto simp: spawn_worker_def)
      then have "thread_pool_push_task 0 t ch s = push_wait 0 t (int ?k) ch s"
        using True p by (simp add: thread_pool_push_task_def)
      with push none(1) push_wait_push [OF p x(1) all] show ?thesis by simp
    qed
  qed
qed

text \<open>The client that waits for its worker is woken.\<close>

lemma spawned_ok:
  assumes inv: "tp_inv call s" and cl: "client s 0 = CSpawn t n True" and ch: "worker_choice s ch"
  shows "\<exists>u. push_wait 0 t n ch s = Some u \<and> tp_inv call u"
proof -
  from inv obtain q where q: "counts_ok s" "stage_ok s" "queue_ok s q" "tasks_ok call s q" by (auto simp: tp_inv_def)
  obtain p where p: "pool s = Some p" using q(2) cl by (cases "pool s") (auto simp: stage_ok_def)
  note st = q(2) [unfolded stage_ok_def p cl option.case client_pc.case]
  obtain x where x: "tasks s t = Some x" "\<not> task_pool x" "\<not> is_detached x" using st by (auto simp: handle_def split: option.splits)
  have n: "n = int (length (worker_pc s))" using st by simp
  note c = counts_okD [OF q(1) p]
  show ?thesis
  proof (cases "thread_count p = n")
    case True
    have "number started (worker_pc s) + number (\<lambda>pc. pc = WStart) (worker_pc s) = int (length (worker_pc s))"
      by (rule number_add) simp
    then have "number (\<lambda>pc. pc = WStart) (worker_pc s) = 0" using True n c(1) by simp
    then have "WStart \<notin> set (worker_pc s)" by (auto simp: number_zero)
    then have rest: "at_rest s" using st p by (auto simp: at_rest_def)
    have "worker_pc s \<noteq> []" using st by auto
    from pushed_inv [OF q(1,3,4) rest p x _ this ch] st push_wait_push [OF p x(1) True]
    show ?thesis by simp
  next
    case False
    have "WStart \<in> set (worker_pc s)"
    proof (rule ccontr)
      assume "WStart \<notin> set (worker_pc s)"
      then have "number started (worker_pc s) = int (length (worker_pc s))" by (intro number_all) auto
      with False n c(1) show False by simp
    qed
    then have "stage_ok (set_client 0 (CSpawn t n False) s)" using st p by (simp add: stage_ok_def)
    from tp_inv_client [OF inv this] False p show ?thesis by (simp add: push_wait_def)
  qed
qed

subsection \<open>Deleting the pool\<close>

lemma set_broadcast: "set (worker_pc (broadcast_workers s)) = (\<lambda>pc. if pc = WSleep then WWoken else pc) ` set (worker_pc s)"
  by (simp add: broadcast_workers_def)

lemma number_map: "number P (map f xs) = number (\<lambda>x. P (f x)) xs"
  by (induction xs) simp_all

lemma held_broadcast: "held (broadcast_workers s) = held s"
proof -
  have "List.map_filter task_of (map (\<lambda>pc. if pc = WSleep then WWoken else pc) pcs) = List.map_filter task_of pcs" for pcs
    by (induction pcs) (auto simp: List.map_filter_simps split: option.splits)
  then show ?thesis by (simp add: held_def broadcast_workers_def)
qed

lemma broadcast_simps [simp]:
  "pool (broadcast_workers s) = pool s" "tasks (broadcast_workers s) = tasks s"
  "worker_idx (broadcast_workers s) = worker_idx s" "fresh_task (broadcast_workers s) = fresh_task s"
  "client (broadcast_workers s) = client s" "length (worker_pc (broadcast_workers s)) = length (worker_pc s)"
  by (simp_all add: broadcast_workers_def)

text \<open>Before worker \<open>i\<close> is told to exit: the others behind it are there, those before it are gone.\<close>

definition deleting :: "int \<Rightarrow> tsys \<Rightarrow> bool" where
  "deleting i s \<longleftrightarrow> 0 \<le> i \<and> i \<le> int (length (worker_pc s)) \<and> (\<forall>pc \<in> set (worker_pc s). idle pc) \<and>
     (\<forall>w < length (worker_pc s). int w < i \<longrightarrow> worker_pc s ! w = WExited) \<and>
     (\<forall>w < length (worker_pc s). i \<le> int w \<longrightarrow> worker_pc s ! w \<noteq> WExited)"

lemma delete_workers_ok:
  assumes inv: "counts_ok s" "queue_ok s []" "tasks_ok call s []" and p: "pool s = Some p"
    and d: "deleting i s" and others: "\<forall>c. c \<noteq> 0 \<longrightarrow> client s c = CReturned TPOOL_OK None"
  shows "\<exists>u. delete_workers 0 i s = Some u \<and> tp_inv call u"
proof -
  note c = counts_okD [OF inv(1) p]
  have "thread_count p = int (length (worker_pc s))"
    unfolding c(1) using d by (intro number_all) (auto simp: deleting_def)
  then have iff: "threads p \<noteq> None \<and> i < thread_count p \<longleftrightarrow> i < int (length (worker_pc s))"
    using c(7) d by (auto simp: deleting_def)
  show ?thesis
  proof (cases "i < int (length (worker_pc s))")
    case True
    let ?m = "s\<lparr>pool := Some (p\<lparr>thread_idx_that_should_exit := i\<rparr>)\<rparr>"
    let ?s = "set_client 0 (CDelete i) (broadcast_workers ?m)"
    have pcs: "worker_pc ?s = map (\<lambda>pc. if pc = WSleep then WWoken else pc) (worker_pc s)"
      by (simp add: broadcast_workers_def)
    have "number P (worker_pc ?s) = number P (worker_pc s)" if "P WSleep = P WWoken" for P
      unfolding pcs number_map using that by (intro arg_cong2 [where f = number]) auto
    then have "counts_ok ?s" using inv(1) p by (simp add: counts_ok_def broadcast_workers_def)
    moreover have "queue_ok ?s []" using inv(2) p by (simp add: queue_ok_def)
    moreover have "tasks_ok call ?s []"
    proof -
      have "held ?s = held s" using held_broadcast [of ?m] by (simp add: held_def)
      moreover have "\<nexists>t r. WResult t r \<in> set (worker_pc ?s)"
        using d unfolding pcs deleting_def by force
      ultimately show ?thesis using inv(3) unfolding tasks_ok_def by (simp add: unfinished_def)
    qed
    moreover have "stage_ok ?s"
    proof -
      have "idle pc" if "pc \<in> set (worker_pc ?s)" for pc using that d unfolding pcs deleting_def by auto
      moreover have "nat i < length (worker_pc s)" using True d by (simp add: deleting_def nat_less_iff)
      then have "worker_pc ?s ! nat i \<noteq> WSleep" unfolding pcs by simp
      moreover have "int w < i \<longrightarrow> worker_pc ?s ! w = WExited" "i < int w \<longrightarrow> worker_pc ?s ! w \<noteq> WExited"
        if "w < length (worker_pc ?s)" for w
        using that d unfolding pcs deleting_def by auto
      ultimately show ?thesis
        using True d others queue_okD(2) [OF inv(2) p] unfolding stage_ok_def
        by (simp add: deleting_def)
    qed
    ultimately have "tp_inv call ?s" unfolding tp_inv_def by blast
    with True iff p show ?thesis by (simp add: delete_workers_def upd_pool_def)
  next
    case False
    let ?s = "set_client 0 (CReturned TPOOL_OK None) (s\<lparr>pool := None\<rparr>)"
    have "i = int (length (worker_pc s))" using False d by (simp add: deleting_def)
    then have gone: "\<forall>pc \<in> set (worker_pc s). pc = WExited" using d by (auto simp: deleting_def in_set_conv_nth)
    then have "counts_ok ?s" by (simp add: counts_ok_def)
    moreover have "queue_ok ?s []" by (simp add: queue_ok_def)
    moreover have "tasks_ok call ?s []" using inv(3) by (simp add: tasks_ok_def unfinished_def held_def)
    moreover have "stage_ok ?s" using others by (simp add: stage_ok_def)
    ultimately have "tp_inv call ?s" unfolding tp_inv_def by blast
    with False iff p show ?thesis by (auto simp: delete_workers_def)
  qed
qed

lemma pool_delete_ok:
  assumes inv: "tp_inv call s" and rest: "at_rest s" and p: "pool s = Some p"
  shows "\<exists>u. thread_pool_delete 0 s = Some u \<and> tp_inv call u"
proof -
  from inv obtain q where q: "counts_ok s" "queue_ok s q" "tasks_ok call s q" by (auto simp: tp_inv_def)
  note c = counts_okD [OF q(1) p]
  show ?thesis
  proof (cases "running_task_count p > 0 \<or> pending_task_count p > 0 \<or> idle_thread_count p \<noteq> thread_count p")
    case True
    with p return_inv [OF inv rest] show ?thesis by (simp add: thread_pool_delete_def)
  next
    case False
    then have "q = []" using queue_okD(2) [OF q(2) p] by simp
    have "number busy (worker_pc s) = 0"
      using False c(3) number_nonneg [of busy "worker_pc s"] by linarith
    then have "deleting 0 s"
      using rest p by (auto simp: deleting_def at_rest_def number_zero dest: nth_mem)
    from delete_workers_ok [OF q(1) q(2,3) [unfolded \<open>q = []\<close>] p this] rest False p
    show ?thesis by (simp add: thread_pool_delete_def at_rest_def)
  qed
qed

lemma joined_ok:
  assumes inv: "tp_inv call s" and cl: "client s 0 = CDelete i" and j: "joinable i s"
  shows "\<exists>u. delete_workers 0 (i + 1) s = Some u \<and> tp_inv call u"
proof -
  from inv obtain q where q: "counts_ok s" "stage_ok s" "queue_ok s q" "tasks_ok call s q" by (auto simp: tp_inv_def)
  obtain p where p: "pool s = Some p" using j by (auto simp: joinable_def split: option.splits)
  note st = q(2) [unfolded stage_ok_def p cl option.case client_pc.case]
  have "q = []" using queue_okD(2) [OF q(3) p] st by simp
  have "threads p = Some (map Some [0..<length (worker_pc s)])"
    using counts_okD(7) [OF q(1) p] j p by (auto simp: joinable_def split: option.splits if_splits)
  then have "worker_pc s ! nat i = WExited" using j p by (auto simp: joinable_def)
  then have "worker_pc s ! w = WExited" if "w < length (worker_pc s)" "int w < i + 1" for w
    using that st by (cases "int w = i") auto
  then have "deleting (i + 1) s" using st by (auto simp: deleting_def)
  from delete_workers_ok [OF q(1) q(3,4) [unfolded \<open>q = []\<close>] p this] st show ?thesis by blast
qed

end
