(* ===== verification/PoolCorrect.thy ===== *)
theory PoolCorrect
  imports PoolCalls
begin

section \<open>The thread pool: properties\<close>

text \<open>
  All steps keep the invariant, and what follows from it for one client; and the two
  situations in which the pool fails.
\<close>

subsection \<open>All steps\<close>

lemma sleep_ok:
  assumes inv: "tp_inv call s" and w: "w < length (worker_pc s)" "worker_pc s ! w = WSleep"
  shows "tp_inv call (set_worker w WWoken s)"
proof -
  from inv obtain q where q: "counts_ok s" "stage_ok s" "queue_ok s q" "tasks_ok call s q"
    by (auto simp: tp_inv_def)
  obtain p where p: "pool s = Some p" by (rule inv_pool [OF inv w(1)]) (use w(2) in auto)
  have "counts_ok (set_worker w WWoken s)" by (rule counts_move [OF q(1) w(1) _ _ _ p]) (simp_all add: w(2))
  moreover have "queue_ok (set_worker w WWoken s) q" by (rule queue_move [OF q(3) w(1) p]) (simp add: w(2))
  moreover have "tasks_ok call (set_worker w WWoken s) q" by (rule tasks_ok_move [OF q(4) w(1)]) (simp_all add: w(2))
  moreover have "stage_ok (set_worker w WWoken s)" by (rule stage_move [OF q(2) w(1) p]) (simp_all add: w(2))
  ultimately show ?thesis unfolding tp_inv_def by blast
qed

lemma do_call_ok:
  assumes inv: "tp_inv call s" and cl: "client s 0 = CReturned e v" and ok: "proper_call x s" and ch: "worker_choice s ch"
  shows "\<exists>t. do_call 0 x ch s = Some t \<and> tp_inv call t"
proof -
  have rest: "at_rest s" using inv at_rest_returned [OF cl] by (simp add: tp_inv_def)
  show ?thesis
  proof (cases x)
    case (NewTask f a)
    with task_new_inv [OF inv rest] show ?thesis by (simp add: do_call_def)
  next
    case (PushTask t)
    with ok obtain p where "pool s = Some p" "handle s t (\<lambda>x. \<not> task_pool x \<and> \<not> is_detached x)" by (auto simp: proper_call_def)
    with push_task_ok [OF inv rest _ _ ch] PushTask show ?thesis by (simp add: do_call_def)
  next
    case (JoinTask t)
    with ok task_join_ok(1) [OF inv rest] show ?thesis by (simp add: do_call_def proper_call_def)
  next
    case (TimedJoinTask t timeout sec usec)
    with ok task_join_ok(2) [OF inv rest] show ?thesis by (simp add: do_call_def proper_call_def)
  next
    case (DetachTask t)
    with ok task_detach_ok [OF inv rest] show ?thesis by (simp add: do_call_def proper_call_def)
  next
    case (DeleteTask t)
    with ok task_delete_ok [OF inv rest] show ?thesis by (simp add: do_call_def proper_call_def)
  next
    case DeletePool
    with ok obtain p where "pool s = Some p" by (auto simp: proper_call_def)
    with pool_delete_ok [OF inv rest] DeletePool show ?thesis by (simp add: do_call_def)
  qed
qed

text \<open>The last step of a worker with a task that has been detached: it unlocks the mutex of a freed task.\<close>

lemma worker_finish_detached:
  assumes inv: "tp_inv call s" and w: "w < length (worker_pc s)" "worker_pc s ! w = WResult t v"
    and d: "handle s t is_detached"
  shows "worker_finish w t v ch s = None"
proof -
  obtain x where x: "tasks s t = Some x" "is_detached x" using d by (auto simp: handle_def split: option.splits)
  obtain p where p: "pool s = Some p" by (rule inv_pool [OF inv w(1)]) (use w(2) in auto)
  have "\<not> task_pool x" using inv x by (auto simp: tp_inv_def tasks_ok_def)
  with x p show ?thesis by (simp add: worker_finish_def upd_pool_def thread_task_delete_def)
qed

lemma tp_step_ok:
  assumes "tp_step call {0} proper_call s r" and inv: "tp_inv call s"
  shows "r = None \<or> (\<exists>t. r = Some t \<and> tp_inv call t)"
  using assms(1)
proof (cases rule: tp_step.cases)
  case (step_finish w t v ch)
  show ?thesis
  proof (cases "handle s t is_detached")
    case True
    with step_finish worker_finish_detached [OF inv] show ?thesis by simp
  next
    case False
    with step_finish worker_finish_ok [OF inv] show ?thesis by simp
  qed
next
  case (step_join c t)
  then have "at_rest s" "handle s t task_pool"
    using inv by (auto simp: tp_inv_def stage_ok_def handle_def at_rest_join split: option.splits)
  with step_join join_wait_ok(1) [OF inv] show ?thesis by simp
next
  case (step_timed_join c t)
  then have "at_rest s" "handle s t task_pool"
    using inv by (auto simp: tp_inv_def stage_ok_def handle_def at_rest_join split: option.splits)
  with step_timed_join join_wait_ok(2) [OF inv] show ?thesis by simp
next
  case (step_timeout c t b)
  then have "at_rest s" using inv by (auto simp: tp_inv_def at_rest_join)
  with step_timeout return_inv [OF inv] show ?thesis by simp
next
  case (step_wake c)
  have "stage_ok s" using inv by (simp add: tp_inv_def)
  from tp_inv_client [OF inv stage_wake [OF this]] step_wake show ?thesis by simp
qed (use inv worker_start_ok sleep_ok worker_loop_ok worker_mark_ok worker_call_ok
    do_call_ok spawned_ok joined_ok in \<open>simp; blast\<close>)+

lemma tp_init_inv: "tp_init s \<Longrightarrow> tp_inv call s"
  by (auto simp: tp_init_def thread_pool_new_def tp_start_def tp_inv_def counts_ok_def queue_ok_def
      tasks_ok_def stage_ok_def held_def unfinished_def List.map_filter_def TPOOL_MAX_TASKS_def split: if_splits)

text \<open>What each worker, and the client, can do next.\<close>

lemma worker_defined:
  assumes inv: "tp_inv call s" and w: "w < length (worker_pc s)"
  shows "case worker_pc s ! w of
      WStart \<Rightarrow> \<forall>ch. client_choice waits_spawn s ch \<longrightarrow> worker_start w ch s \<noteq> None
    | WSleep \<Rightarrow> True
    | WWoken \<Rightarrow> worker_loop w s \<noteq> None
    | WTaken t \<Rightarrow> worker_mark w t s \<noteq> None
    | WRunning t \<Rightarrow> worker_call call w t s \<noteq> None
    | WResult t v \<Rightarrow> \<forall>ch. client_choice (waits_task t) s ch \<longrightarrow>
        (worker_finish w t v ch s = None \<longleftrightarrow> handle s t is_detached)
    | WExited \<Rightarrow> True"
proof (cases "worker_pc s ! w")
  case (WResult t v)
  note d = worker_finish_detached [OF inv w WResult] and ok = worker_finish_ok [OF inv w WResult]
  show ?thesis unfolding WResult worker_pc.case using d ok by (metis option.distinct(1))
next
  case WStart
  from worker_start_ok [OF inv w this] show ?thesis unfolding WStart worker_pc.case by fastforce
next
  case WWoken
  from worker_loop_ok [OF inv w this] show ?thesis unfolding WWoken worker_pc.case by auto
next
  case (WTaken t)
  from worker_mark_ok [OF inv w this] show ?thesis unfolding WTaken worker_pc.case by auto
next
  case (WRunning t)
  from worker_call_ok [OF inv w this] show ?thesis unfolding WRunning worker_pc.case by auto
qed simp_all

lemma client_defined:
  assumes inv: "tp_inv call s"
  shows "case client s 0 of
      CReturned e v \<Rightarrow> \<forall>x ch. proper_call x s \<and> worker_choice s ch \<longrightarrow> do_call 0 x ch s \<noteq> None
    | CSpawn t n b \<Rightarrow> \<forall>ch. b \<and> worker_choice s ch \<longrightarrow> push_wait 0 t n ch s \<noteq> None
    | CJoin t b \<Rightarrow> b \<longrightarrow> join_wait 0 t s \<noteq> None
    | CTimedJoin t b \<Rightarrow> b \<longrightarrow> timed_join_wait 0 t s \<noteq> None
    | CDelete i \<Rightarrow> joinable i s \<longrightarrow> delete_workers 0 (i + 1) s \<noteq> None"
proof (cases "client s 0")
  case (CReturned e v)
  from do_call_ok [OF inv this] show ?thesis unfolding CReturned client_pc.case by fastforce
next
  case (CSpawn t n b)
  then show ?thesis using spawned_ok [OF inv, of t n] by fastforce
next
  case (CJoin t b)
  then have "at_rest s" "handle s t task_pool"
    using inv by (auto simp: tp_inv_def stage_ok_def handle_def at_rest_join split: option.splits)
  with join_wait_ok(1) [OF inv] CJoin show ?thesis by fastforce
next
  case (CTimedJoin t b)
  then have "at_rest s" "handle s t task_pool"
    using inv by (auto simp: tp_inv_def stage_ok_def handle_def at_rest_join split: option.splits)
  with join_wait_ok(2) [OF inv] CTimedJoin show ?thesis by fastforce
next
  case (CDelete i)
  from joined_ok [OF inv this] CDelete show ?thesis by fastforce
qed

interpretation tp: invariant_system tp_init "\<lambda>s t. tp_step call {0} proper_call s (Some t)" "tp_inv call" for call
proof unfold_locales
  show "tp_init s \<Longrightarrow> tp_inv call s" for s by (rule tp_init_inv)
  show "tp_inv call s \<Longrightarrow> tp_step call {0} proper_call s (Some t) \<Longrightarrow> tp_inv call t" for s t
    using tp_step_ok by (metis option.distinct(1) option.inject)
qed

abbreviation tp_reach :: "(nat \<Rightarrow> int \<Rightarrow> int) \<Rightarrow> tsys \<Rightarrow> bool" where
  "tp_reach call \<equiv> reach tp_init (\<lambda>s t. tp_step call {0} proper_call s (Some t))"

subsection \<open>An example run\<close>

text \<open>One task is pushed to a pool of at most two threads; the first worker is created for it.\<close>

definition demo_tpool :: "int \<Rightarrow> int \<Rightarrow> int \<Rightarrow> ptr \<Rightarrow> nat option list option \<Rightarrow> tpool" where
  "demo_tpool tc idl pend l ths = \<lparr>threads = ths, max_thread_count = 2, thread_count = tc, idle_thread_count = idl,
     thread_idx_that_should_exit = -1, pending_task_count = pend, running_task_count = 0, pending_task_list = l\<rparr>"

definition demo_task :: "bool \<Rightarrow> task" where
  "demo_task b = \<lparr>task_function = 1, task_arg = 5, task_pool = b, is_detached = False, is_running = False,
     is_finished = False, task_result = 0, next_task = None\<rparr>"

definition demo_sys :: "tpool \<Rightarrow> (addr \<rightharpoonup> task) \<Rightarrow> nat \<Rightarrow> int list \<Rightarrow> worker_pc list \<Rightarrow> client_pc \<Rightarrow> client_pc \<Rightarrow> tsys" where
  "demo_sys p tks n idxs pcs c0 c1 = \<lparr>pool = Some p, tasks = tks, fresh_task = n, worker_idx = idxs, worker_pc = pcs,
     client = (\<lambda>c. CReturned TPOOL_OK None)(0 := c0, 1 := c1)\<rparr>"

lemmas demo_defs = demo_sys_def demo_tpool_def demo_task_def

abbreviation outside :: client_pc where "outside \<equiv> CReturned TPOOL_OK None"

definition ready :: tsys where
  "ready = demo_sys (demo_tpool 0 0 0 None None) [0 \<mapsto> demo_task False] 1 [] [] outside outside"

definition creating :: tsys where
  "creating = demo_sys (demo_tpool 0 0 0 None (Some [Some 0])) [0 \<mapsto> demo_task False] 1 [0] [WStart]
     (CSpawn 0 1 False) outside"

definition arrived_sys :: tsys where
  "arrived_sys = demo_sys (demo_tpool 1 1 0 None (Some [Some 0])) [0 \<mapsto> demo_task False] 1 [0] [WSleep]
     (CSpawn 0 1 True) outside"

definition pushed_sys :: tsys where
  "pushed_sys = demo_sys (demo_tpool 1 1 1 (Some 0) (Some [Some 0])) [0 \<mapsto> demo_task True] 1 [0] [WWoken] outside outside"

lemma upd_idle: "(f(0 := a, Suc 0 := b)) = (f :: nat \<Rightarrow> 'a)(Suc 0 := b, 0 := a)"
  by auto

lemma reach_ready: "tp_reach call ready"
proof -
  let ?i = "tp_start (demo_tpool 0 0 0 None None)"
  have "tp_init ?i"
    by (auto simp: tp_init_def thread_pool_new_def demo_tpool_def TPOOL_MAX_THREADS_def intro!: exI [of _ 2])
  then have "tp_reach call ?i" by (rule reach_init)
  moreover have "tp_step call {0} proper_call ?i (do_call 0 (NewTask 1 5) None ?i)"
    by (rule step_invoke) (simp_all add: tp_start_def proper_call_def worker_choice_def)
  moreover have "do_call 0 (NewTask 1 5) None ?i = Some ready"
    by (simp add: do_call_def thread_task_new_def tp_start_def set_client_def ready_def demo_defs fun_eq_iff)
  ultimately show ?thesis by (metis reach_step)
qed

lemma reach_creating: "tp_reach call creating"
proof -
  have "tp_step call {0} proper_call ready (do_call 0 (PushTask 0) None ready)"
    by (rule step_invoke) (simp_all add: ready_def demo_defs proper_call_def worker_choice_def handle_def)
  moreover have "do_call 0 (PushTask 0) None ready = Some creating"
    by (simp add: do_call_def thread_pool_push_task_def spawn_worker_def create_worker_def upd_pool_def push_wait_def
        set_client_def ready_def creating_def demo_defs TPOOL_MAX_TASKS_def fun_eq_iff)
  ultimately show ?thesis by (metis reach_step reach_ready)
qed

lemma reach_arrived: "tp_reach call arrived_sys"
proof -
  have "tp_step call {0} proper_call creating (worker_start 0 (Some 0) creating)"
    by (rule step_start) (simp_all add: creating_def demo_defs client_choice_def)
  moreover have "worker_start 0 (Some 0) creating = Some arrived_sys"
    by (simp add: worker_start_def worker_loop_def upd_pool_def signal_client_def set_client_def set_worker_def
        creating_def arrived_sys_def demo_defs fun_eq_iff)
  ultimately show ?thesis by (metis reach_step reach_creating)
qed

lemma reach_pushed: "tp_reach call pushed_sys"
proof -
  have "tp_step call {0} proper_call arrived_sys (push_wait 0 0 1 (Some 0) arrived_sys)"
    by (rule step_spawned) (simp_all add: arrived_sys_def demo_defs worker_choice_def)
  moreover have "push_wait 0 0 1 (Some 0) arrived_sys = Some pushed_sys"
    by (simp add: push_wait_def push_finish_def upd_pool_def upd_task_def signal_worker_def set_client_def
        set_worker_def arrived_sys_def pushed_sys_def demo_defs fun_eq_iff)
  ultimately show ?thesis by (metis reach_step reach_arrived)
qed

text \<open>The worker takes the task, runs it, and stores the result; the functions double their argument.\<close>

definition taken_sys :: "worker_pc \<Rightarrow> bool \<Rightarrow> tsys" where
  "taken_sys pc b = demo_sys ((demo_tpool 1 0 0 None (Some [Some 0]))\<lparr>running_task_count := 1\<rparr>)
     [0 \<mapsto> (demo_task True)\<lparr>is_running := b\<rparr>] 1 [0] [pc] outside outside"

definition finished_sys :: tsys where
  "finished_sys = demo_sys (demo_tpool 1 1 0 None (Some [Some 0]))
     [0 \<mapsto> (demo_task True)\<lparr>is_finished := True, task_result := 10\<rparr>] 1 [0] [WSleep] outside outside"

abbreviation double :: "nat \<Rightarrow> int \<Rightarrow> int" where "double f a \<equiv> 2 * a"

lemma reach_result: "tp_reach double (taken_sys (WResult 0 10) True)"
proof -
  have "tp_step double {0} proper_call pushed_sys (worker_loop 0 pushed_sys)"
    by (rule step_woken) (simp_all add: pushed_sys_def demo_defs)
  moreover have "worker_loop 0 pushed_sys = Some (taken_sys (WTaken 0) False)"
    by (simp add: worker_loop_def upd_pool_def upd_task_def set_worker_def pushed_sys_def taken_sys_def demo_defs)
  ultimately have "tp_reach double (taken_sys (WTaken 0) False)" by (metis reach_step reach_pushed)
  moreover have "tp_step double {0} proper_call (taken_sys (WTaken 0) False) (worker_mark 0 0 (taken_sys (WTaken 0) False))"
    by (rule step_mark) (simp_all add: taken_sys_def demo_defs)
  moreover have "worker_mark 0 0 (taken_sys (WTaken 0) False) = Some (taken_sys (WRunning 0) True)"
    by (simp add: worker_mark_def upd_task_def set_worker_def taken_sys_def demo_defs)
  ultimately have "tp_reach double (taken_sys (WRunning 0) True)" by (metis reach_step)
  moreover have "tp_step double {0} proper_call (taken_sys (WRunning 0) True) (worker_call double 0 0 (taken_sys (WRunning 0) True))"
    by (rule step_call) (simp_all add: taken_sys_def demo_defs)
  moreover have "worker_call double 0 0 (taken_sys (WRunning 0) True) = Some (taken_sys (WResult 0 10) True)"
    by (simp add: worker_call_def set_worker_def taken_sys_def demo_defs)
  ultimately show ?thesis by (metis reach_step)
qed

lemma reach_finished: "tp_reach double finished_sys"
proof -
  have "tp_step double {0} proper_call (taken_sys (WResult 0 10) True) (worker_finish 0 0 10 None (taken_sys (WResult 0 10) True))"
    by (rule step_finish) (simp_all add: taken_sys_def demo_defs client_choice_def)
  moreover have "worker_finish 0 0 10 None (taken_sys (WResult 0 10) True) = Some finished_sys"
    by (simp add: worker_finish_def worker_loop_def upd_pool_def upd_task_def signal_client_def set_worker_def
        taken_sys_def finished_sys_def demo_defs)
  ultimately show ?thesis by (metis reach_step reach_result)
qed

subsection \<open>Properties for one client\<close>

text \<open>
  C27: One client that keeps to the contract of the header, which lets it detach tasks at any
  time, and any scheduling of the threads: in every reachable state whatever comes next, a
  section of a worker, a call, or a section behind a wait, is defined, with one exception. The
  section in which a worker finishes its task is undefined just when the task has been detached.
\<close>

theorem pool_steps_defined:
  assumes "tp_reach call s"
  shows "(\<forall>w < length (worker_pc s). case worker_pc s ! w of
        WStart \<Rightarrow> \<forall>ch. client_choice waits_spawn s ch \<longrightarrow> worker_start w ch s \<noteq> None
      | WSleep \<Rightarrow> True
      | WWoken \<Rightarrow> worker_loop w s \<noteq> None
      | WTaken t \<Rightarrow> worker_mark w t s \<noteq> None
      | WRunning t \<Rightarrow> worker_call call w t s \<noteq> None
      | WResult t v \<Rightarrow> \<forall>ch. client_choice (waits_task t) s ch \<longrightarrow>
          (worker_finish w t v ch s = None \<longleftrightarrow> handle s t is_detached)
      | WExited \<Rightarrow> True) \<and>
    (case client s 0 of
        CReturned e v \<Rightarrow> \<forall>x ch. proper_call x s \<and> worker_choice s ch \<longrightarrow> do_call 0 x ch s \<noteq> None
      | CSpawn t n b \<Rightarrow> \<forall>ch. b \<and> worker_choice s ch \<longrightarrow> push_wait 0 t n ch s \<noteq> None
      | CJoin t b \<Rightarrow> b \<longrightarrow> join_wait 0 t s \<noteq> None
      | CTimedJoin t b \<Rightarrow> b \<longrightarrow> timed_join_wait 0 t s \<noteq> None
      | CDelete i \<Rightarrow> joinable i s \<longrightarrow> delete_workers 0 (i + 1) s \<noteq> None)"
  using worker_defined [OF tp.reach_inv [OF assms]] client_defined [OF tp.reach_inv [OF assms]] by blast

theorem pool_steps_defined_witness:
  "worker_loop 0 pushed_sys \<noteq> None \<and> do_call 0 (DetachTask 0) None pushed_sys \<noteq> None \<and>
    worker_finish 0 0 10 None (taken_sys (WResult 0 10) True) \<noteq> None"
proof -
  have "do_call 0 (DetachTask 0) None pushed_sys \<noteq> None" "worker_loop 0 pushed_sys \<noteq> None"
    using pool_steps_defined [OF reach_pushed [of double]]
    by (simp_all add: pushed_sys_def demo_defs proper_call_def handle_def worker_choice_def)
  moreover have "worker_finish 0 0 10 None (taken_sys (WResult 0 10) True) \<noteq> None"
    using pool_steps_defined [OF reach_result]
    by (simp add: taken_sys_def demo_defs handle_def client_choice_def)
  ultimately show ?thesis by blast
qed

text \<open>
  C28: With one client that keeps to the contract, in every reachable state: the unfinished tasks
  of the pool are the pending ones, which are chained by their \<open>next\<close> pointers from the head of
  the list, and those the workers have, each of them exactly once; the counters are the numbers
  of these, each thread is idle or runs a task, and the limits are kept.
\<close>

theorem pool_counters:
  assumes "tp_reach call s" and "pool s = Some p"
  shows "\<exists>q. sll next_task (tasks s) (pending_task_list p) q None \<and>
    distinct (q @ held s) \<and> set (q @ held s) = {t. unfinished s t} \<and>
    pending_task_count p = int (length q) \<and> running_task_count p = int (length (held s)) \<and>
    idle_thread_count p + running_task_count p = thread_count p \<and> 0 \<le> idle_thread_count p \<and>
    thread_count p \<le> max_thread_count p \<and> max_thread_count p \<le> TPOOL_MAX_THREADS \<and>
    pending_task_count p \<le> TPOOL_MAX_TASKS"
proof -
  have "tp_inv call s" by (rule tp.reach_inv [OF assms(1)])
  then obtain q where q: "counts_ok s" "queue_ok s q" "tasks_ok call s q" by (auto simp: tp_inv_def)
  note c = counts_okD [OF q(1) assms(2)]
  have split: "number idle pcs + number busy pcs = number started pcs" for pcs
    by (induction pcs) auto
  have le: "number started pcs \<le> int (length pcs)" for pcs by (induction pcs) auto
  have "number busy pcs = int (length (List.map_filter task_of pcs))" for pcs
    by (induction pcs) (auto simp: List.map_filter_simps split: option.splits)
  then have run: "running_task_count p = int (length (held s))" using c(3) by (simp add: held_def)
  have "set (q @ held s) = {t. unfinished s t}" "distinct (q @ held s)"
    using q(3) unfolding tasks_ok_def by blast+
  moreover have "idle_thread_count p + running_task_count p = thread_count p" "0 \<le> idle_thread_count p"
    "thread_count p \<le> max_thread_count p"
    using c split [of "worker_pc s"] le [of "worker_pc s"] number_nonneg [of idle "worker_pc s"] by linarith+
  ultimately show ?thesis using c(4,9) run queue_okD(1,2) [OF q(2) assms(2)] by blast
qed

theorem pool_counters_witness:
  "\<exists>p q. pool pushed_sys = Some p \<and> sll next_task (tasks pushed_sys) (pending_task_list p) q None \<and>
    set q = {t. unfinished pushed_sys t} \<and> pending_task_count p = int (length q) \<and> distinct q"
proof -
  obtain p where p: "pool pushed_sys = Some p" by (simp add: pushed_sys_def demo_defs)
  have "held pushed_sys = []" by (simp add: held_def pushed_sys_def demo_defs List.map_filter_simps)
  with pool_counters [OF reach_pushed [of double] p] p show ?thesis by auto
qed

text \<open>
  C29: No wakeup is lost: while a worker sleeps, there is for each pending task a worker
  that has been woken and will look for it.
\<close>

theorem pool_no_lost_wakeup:
  assumes "tp_reach call s" and "pool s = Some p" and "WSleep \<in> set (worker_pc s)"
  shows "pending_task_count p \<le> number (\<lambda>pc. pc = WWoken) (worker_pc s)"
proof -
  have "tp_inv call s" by (rule tp.reach_inv [OF assms(1)])
  then obtain q where q: "queue_ok s q" by (auto simp: tp_inv_def)
  from queue_okD(2,4) [OF q assms(2)] assms(3) show ?thesis by simp
qed

theorem pool_no_lost_wakeup_witness:
  "\<exists>p. pool arrived_sys = Some p \<and> pending_task_count p \<le> number (\<lambda>pc. pc = WWoken) (worker_pc arrived_sys)"
proof -
  obtain p where p: "pool arrived_sys = Some p" by (simp add: arrived_sys_def demo_defs)
  have "WSleep \<in> set (worker_pc arrived_sys)" by (simp add: arrived_sys_def demo_defs)
  from pool_no_lost_wakeup [OF reach_arrived [of "\<lambda>f a. a"] p this] p show ?thesis by blast
qed

text \<open>
  C30: A join returns what the function of the task returned for its argument, and takes
  the task out of the pool: in every reachable state, when the call or the waiting client
  comes outside with a result, it is that one.
\<close>

theorem pool_join_result:
  assumes "tp_reach call s" and "join_wait 0 t s = Some u \<or> timed_join_wait 0 t s = Some u"
    and "client u 0 = CReturned e (Some r)"
  shows "\<exists>x. tasks s t = Some x \<and> is_finished x \<and> e = TPOOL_OK \<and>
    r = call (task_function x) (task_arg x) \<and> handle u t (\<lambda>y. \<not> task_pool y)"
proof -
  have inv: "tp_inv call s" by (rule tp.reach_inv [OF assms(1)])
  obtain x where x: "tasks s t = Some x"
    using assms(2) by (cases "tasks s t") (auto simp: join_wait_def timed_join_wait_def)
  have fin: "is_finished x"
    using assms(2,3) x by (auto simp: join_wait_def timed_join_wait_def split: if_splits)
  have "join_finish 0 t s = Some u"
    using assms(2) x fin by (simp add: join_wait_def timed_join_wait_def)
  then have "e = TPOOL_OK" "r = task_result x" "handle u t (\<lambda>y. \<not> task_pool y)"
    using x assms(3) by (auto simp: join_finish_def upd_task_def handle_def)
  moreover have "task_result x = call (task_function x) (task_arg x)"
    using inv x fin by (auto simp: tp_inv_def tasks_ok_def)
  ultimately show ?thesis using x fin by blast
qed

theorem pool_join_result_witness:
  "\<exists>x. tasks finished_sys 0 = Some x \<and> is_finished x \<and> TPOOL_OK = TPOOL_OK \<and> 10 = double (task_function x) (task_arg x) \<and>
    handle (set_client 0 (CReturned TPOOL_OK (Some 10))
      (finished_sys\<lparr>tasks := [0 \<mapsto> (demo_task False)\<lparr>is_finished := True, task_result := 10\<rparr>]\<rparr>)) 0 (\<lambda>y. \<not> task_pool y)"
  by (rule pool_join_result [OF reach_finished])
    (simp_all add: join_wait_def join_finish_def upd_task_def finished_sys_def demo_defs set_client_def)

text \<open>
  C31: There is no deadlock: in every reachable state in which the client waits, it has been
  woken or the thread it joins is gone, or some worker neither sleeps nor has exited. (A worker
  at the end of a detached task counts here, although that section is undefined.)
\<close>

definition awake :: "tsys \<Rightarrow> bool" where
  "awake s \<longleftrightarrow> (\<exists>pc \<in> set (worker_pc s). pc \<noteq> WSleep \<and> pc \<noteq> WExited) \<or>
     (case client s 0 of
        CReturned e v \<Rightarrow> True
      | CSpawn t n b \<Rightarrow> b
      | CJoin t b \<Rightarrow> b
      | CTimedJoin t b \<Rightarrow> b
      | CDelete i \<Rightarrow> joinable i s)"

lemma unfinished_awake:
  assumes inv: "tp_inv call s" and rest: "at_rest s" and t: "unfinished s t"
  shows "awake s"
proof -
  from inv obtain q where q: "counts_ok s" "queue_ok s q" "tasks_ok call s q" by (auto simp: tp_inv_def)
  have "t \<in> set q \<or> t \<in> set (held s)" using q(3) t unfolding tasks_ok_def by auto
  then show ?thesis
  proof
    assume "t \<in> set (held s)"
    then obtain pc where "pc \<in> set (worker_pc s)" "task_of pc = Some t" by (auto simp: held_def List.map_filter_def)
    then show ?thesis by (auto simp: awake_def intro!: bexI [of _ pc])
  next
    assume "t \<in> set q"
    then have "q \<noteq> []" by auto
    then obtain p where p: "pool s = Some p" using q(2) by (cases "pool s") (auto simp: queue_ok_def)
    obtain pc where pc: "pc \<in> set (worker_pc s)" using queue_okD(3) [OF q(2) p \<open>q \<noteq> []\<close>] by (cases "worker_pc s") auto
    show ?thesis
    proof (cases "WSleep \<in> set (worker_pc s)")
      case True
      have "0 < int (length q)" using \<open>q \<noteq> []\<close> by simp
      also have "\<dots> \<le> number (\<lambda>pc. pc = WWoken) (worker_pc s)" by (rule queue_okD(4) [OF q(2) p True])
      finally show ?thesis by (auto simp: number_pos awake_def)
    next
      case False
      with pc rest p show ?thesis by (auto simp: awake_def at_rest_def intro!: bexI [of _ pc])
    qed
  qed
qed

theorem pool_no_deadlock:
  assumes "tp_reach call s"
  shows "awake s"
proof -
  have inv: "tp_inv call s" by (rule tp.reach_inv [OF assms])
  then have counts: "counts_ok s" and stage: "stage_ok s" by (simp_all add: tp_inv_def)
  have join: "b \<or> awake s" if "client s 0 = CJoin t b \<or> client s 0 = CTimedJoin t b" for t b
  proof -
    have "at_rest s" by (rule at_rest_join [OF stage that])
    moreover have "b \<or> unfinished s t"
      using stage that by (auto simp: stage_ok_def handle_def unfinished_def split: option.splits)
    ultimately show ?thesis using unfinished_awake [OF inv] by blast
  qed
  show ?thesis
  proof (cases "client s 0")
    case (CSpawn t n b)
    then show ?thesis using stage by (cases "pool s") (auto simp: stage_ok_def awake_def)
  next
    case (CJoin t b)
    with join show ?thesis by (auto simp: awake_def)
  next
    case (CTimedJoin t b)
    with join show ?thesis by (auto simp: awake_def)
  next
    case (CDelete i)
    then obtain p where p: "pool s = Some p" using stage by (cases "pool s") (auto simp: stage_ok_def)
    have i: "0 \<le> i" "nat i < length (worker_pc s)" "idle (worker_pc s ! nat i)" "worker_pc s ! nat i \<noteq> WSleep"
      using stage CDelete p by (auto simp: stage_ok_def nat_less_iff)
    show ?thesis
    proof (cases "worker_pc s ! nat i = WExited")
      case True
      have "threads p = Some (map Some [0..<length (worker_pc s)])"
        using counts_okD(7) [OF counts p] i(2) by auto
      then have "joinable i s" using p i True by (simp add: joinable_def)
      with CDelete show ?thesis by (simp add: awake_def)
    next
      case False
      with i show ?thesis unfolding awake_def by (meson nth_mem)
    qed
  qed (simp add: awake_def)
qed

theorem pool_no_deadlock_witness: "awake creating"
  by (rule pool_no_deadlock [OF reach_creating [of double]])

subsection \<open>Where the pool fails\<close>

text \<open>
  C32: Two clients that push at the same time can block each other for ever: both create a
  worker as the first one, wait until there is exactly one thread, and find two. In no
  state that follows has either of the calls returned.
\<close>

definition stuck :: "tsys \<Rightarrow> bool" where
  "stuck s \<longleftrightarrow> (\<exists>p a b. pool s = Some p \<and> thread_count p = 2 \<and> pending_task_count p = 0 \<and>
     thread_idx_that_should_exit p = -1 \<and> worker_idx s = [0, 0] \<and> length (worker_pc s) = 2 \<and>
     (\<forall>pc \<in> set (worker_pc s). pc = WSleep \<or> pc = WWoken) \<and>
     client s 0 = CSpawn 0 1 a \<and> client s 1 = CSpawn 1 1 b)"

lemma in_set_upd: "x \<in> set (xs[i := y]) \<Longrightarrow> x = y \<or> x \<in> set xs"
  using set_update_subset_insert [of xs i y] by blast

lemma stuck_step:
  assumes "tp_step call {0, 1} proper_call s (Some t)" and s: "stuck s"
  shows "stuck t"
proof -
  from s have pcs: "pc = WSleep \<or> pc = WWoken" if "pc \<in> set (worker_pc s)" for pc
    using that unfolding stuck_def by blast
  have idx: "[0, 0] ! w = (0 :: int)" if "w < 2" for w :: nat using that by (auto simp: less_2_cases_iff)
  show ?thesis
    using assms(1)
  proof (cases rule: tp_step.cases)
    case (step_sleep w)
    with s show ?thesis unfolding stuck_def by (auto dest!: in_set_upd simp: set_worker_def)
  next
    case (step_woken w)
    with s idx show ?thesis
      unfolding stuck_def by (auto simp: worker_loop_def set_worker_def dest!: in_set_upd)
  next
    case (step_wake c)
    with s show ?thesis unfolding stuck_def by (auto simp: set_client_def)
  next
    case (step_spawned c u n ch)
    with s show ?thesis unfolding stuck_def by (auto simp: push_wait_def set_client_def)
  qed (use s pcs in \<open>(force simp: stuck_def dest: nth_mem)+\<close>)
qed

abbreviation tp_reach2 :: "(nat \<Rightarrow> int \<Rightarrow> int) \<Rightarrow> tsys \<Rightarrow> bool" where
  "tp_reach2 call \<equiv> reach tp_init (\<lambda>s t. tp_step call {0, 1} proper_call s (Some t))"

definition duel :: "int \<Rightarrow> nat option list option \<Rightarrow> int list \<Rightarrow> worker_pc list \<Rightarrow> client_pc \<Rightarrow> client_pc \<Rightarrow> tsys" where
  "duel tc ths idxs pcs c0 c1 = demo_sys (demo_tpool tc tc 0 None ths)
     [0 \<mapsto> demo_task False, 1 \<mapsto> demo_task False] 2 idxs pcs c0 c1"

lemma reach_duel: "tp_reach2 call (duel 0 None [] [] outside outside)"
proof -
  let ?i = "tp_start (demo_tpool 0 0 0 None None)"
  have "tp_init ?i"
    by (auto simp: tp_init_def thread_pool_new_def demo_tpool_def TPOOL_MAX_THREADS_def intro!: exI [of _ 2])
  then have "tp_reach2 call ?i" by (rule reach_init)
  moreover have "tp_step call {0, 1} proper_call ?i (do_call 0 (NewTask 1 5) None ?i)"
    by (rule step_invoke) (simp_all add: tp_start_def proper_call_def worker_choice_def)
  moreover have "do_call 0 (NewTask 1 5) None ?i = Some ready"
    by (simp add: do_call_def thread_task_new_def tp_start_def set_client_def ready_def demo_defs fun_eq_iff)
  ultimately have "tp_reach2 call ready" by (metis reach_step)
  moreover have "tp_step call {0, 1} proper_call ready (do_call 1 (NewTask 1 5) None ready)"
    by (rule step_invoke) (simp_all add: ready_def demo_defs proper_call_def worker_choice_def)
  moreover have "do_call 1 (NewTask 1 5) None ready = Some (duel 0 None [] [] outside outside)"
    by (simp add: do_call_def thread_task_new_def set_client_def ready_def duel_def demo_defs numeral_2_eq_2 fun_eq_iff)
  ultimately show ?thesis by (metis reach_step)
qed

lemma duel_push0: "do_call 0 (PushTask 0) None (duel 0 None [] [] outside outside) =
    Some (duel 0 (Some [Some 0]) [0] [WStart] (CSpawn 0 1 False) outside)"
  by (simp add: do_call_def thread_pool_push_task_def spawn_worker_def create_worker_def upd_pool_def push_wait_def
      set_client_def duel_def demo_defs TPOOL_MAX_TASKS_def fun_eq_iff)

lemma duel_push1: "do_call 1 (PushTask 1) None (duel 0 (Some [Some 0]) [0] [WStart] (CSpawn 0 1 False) outside) =
    Some (duel 0 (Some [Some 1]) [0, 0] [WStart, WStart] (CSpawn 0 1 False) (CSpawn 1 1 False))"
  by (simp add: do_call_def thread_pool_push_task_def spawn_worker_def create_worker_def upd_pool_def push_wait_def
      set_client_def grow_threads_def duel_def demo_defs TPOOL_MAX_TASKS_def fun_eq_iff)

lemma duel_start0: "worker_start 0 (Some 0) (duel 0 (Some [Some 1]) [0, 0] [WStart, WStart] (CSpawn 0 1 False) (CSpawn 1 1 False)) =
    Some (duel 1 (Some [Some 1]) [0, 0] [WSleep, WStart] (CSpawn 0 1 True) (CSpawn 1 1 False))"
  by (simp add: worker_start_def worker_loop_def upd_pool_def signal_client_def set_client_def set_worker_def
      duel_def demo_defs fun_eq_iff)

lemma duel_start1: "worker_start 1 (Some 1) (duel 1 (Some [Some 1]) [0, 0] [WSleep, WStart] (CSpawn 0 1 True) (CSpawn 1 1 False)) =
    Some (duel 2 (Some [Some 1]) [0, 0] [WSleep, WSleep] (CSpawn 0 1 True) (CSpawn 1 1 True))"
  by (simp add: worker_start_def worker_loop_def upd_pool_def signal_client_def set_client_def set_worker_def
      duel_def demo_defs fun_eq_iff)

lemmas duel_simps = duel_def demo_defs proper_call_def worker_choice_def client_choice_def handle_def

lemma reach_stuck: "tp_reach2 call (duel 2 (Some [Some 1]) [0, 0] [WSleep, WSleep] (CSpawn 0 1 True) (CSpawn 1 1 True))"
proof -
  let ?a = "duel 0 None [] [] outside outside"
  let ?b = "duel 0 (Some [Some 0]) [0] [WStart] (CSpawn 0 1 False) outside"
  let ?c = "duel 0 (Some [Some 1]) [0, 0] [WStart, WStart] (CSpawn 0 1 False) (CSpawn 1 1 False)"
  let ?d = "duel 1 (Some [Some 1]) [0, 0] [WSleep, WStart] (CSpawn 0 1 True) (CSpawn 1 1 False)"
  have "tp_step call {0, 1} proper_call ?a (do_call 0 (PushTask 0) None ?a)"
    by (rule step_invoke) (simp_all add: duel_simps)
  with reach_duel have b: "tp_reach2 call ?b" unfolding duel_push0 by (rule reach_step)
  have "tp_step call {0, 1} proper_call ?b (do_call 1 (PushTask 1) None ?b)"
    by (rule step_invoke) (simp_all add: duel_simps)
  with b have c: "tp_reach2 call ?c" unfolding duel_push1 by (rule reach_step)
  have "tp_step call {0, 1} proper_call ?c (worker_start 0 (Some 0) ?c)"
    by (rule step_start) (simp_all add: duel_simps)
  with c have d: "tp_reach2 call ?d" unfolding duel_start0 by (rule reach_step)
  have "tp_step call {0, 1} proper_call ?d (worker_start 1 (Some 1) ?d)"
    by (rule step_start) (simp_all add: duel_simps)
  with d show ?thesis unfolding duel_start1 by (rule reach_step)
qed

theorem two_pushers_block:
  "\<exists>s. reach tp_init (\<lambda>s t. tp_step call {0, 1} proper_call s (Some t)) s \<and>
    {t. (\<lambda>s t. tp_step call {0, 1} proper_call s (Some t))\<^sup>*\<^sup>* s t} \<subseteq>
      {t. \<exists>a b. client t 0 = CSpawn 0 1 a \<and> client t 1 = CSpawn 1 1 b}"
proof -
  let ?s = "duel 2 (Some [Some 1]) [0, 0] [WSleep, WSleep] (CSpawn 0 1 True) (CSpawn 1 1 True)"
  have start: "stuck ?s" by (auto simp: stuck_def duel_def demo_defs)
  have "stuck t" if "(\<lambda>s t. tp_step call {0, 1} proper_call s (Some t))\<^sup>*\<^sup>* ?s t" for t
    using that by (induction rule: rtranclp_induct) (use start stuck_step in blast)+
  then have "\<exists>a b. client t 0 = CSpawn 0 1 a \<and> client t 1 = CSpawn 1 1 b"
    if "(\<lambda>s t. tp_step call {0, 1} proper_call s (Some t))\<^sup>*\<^sup>* ?s t" for t
    using that unfolding stuck_def by blast
  then show ?thesis by (intro exI [of _ ?s] conjI reach_stuck subsetI) simp
qed

text \<open>
  C33: A task that is detached while a worker has it is freed by that worker, which then
  unlocks the mutex inside it: undefined behaviour.
\<close>

theorem detached_task_use_after_free:
  assumes "thread_task_detach t s = Some (TPOOL_OK, s')" and "unfinished s t"
  shows "worker_finish w t r ch s' = None"
proof -
  obtain x where x: "tasks s t = Some x" "task_pool x" "\<not> is_finished x"
    using assms by (auto simp: unfinished_def thread_task_detach_def split: bind_splits if_splits)
  have "s' = s\<lparr>tasks := (tasks s)(t \<mapsto> x\<lparr>task_pool := False, is_detached := True\<rparr>)\<rparr>"
    using assms(1) x by (simp add: thread_task_detach_def upd_task_def)
  then show ?thesis
    by (cases "pool s") (simp_all add: worker_finish_def upd_pool_def thread_task_delete_def)
qed

theorem detached_task_use_after_free_witness:
  "worker_finish 0 0 10 None ((taken_sys (WResult 0 10) True)\<lparr>tasks :=
     [0 \<mapsto> (demo_task False)\<lparr>is_running := True, is_detached := True\<rparr>]\<rparr>) = None"
  by (rule detached_task_use_after_free [of 0 "taken_sys (WResult 0 10) True"])
    (simp_all add: thread_task_detach_def upd_task_def unfinished_def taken_sys_def demo_defs)

lemma not_tiny: "\<not> fless (Finite m e) ONE_NANO \<Longrightarrow> 0 < m"
proof (rule ccontr)
  assume "\<not> 0 < m"
  then have "m * 2 ^ i \<le> 0" "(0 :: int) < 2 ^ j" for i j :: nat by (simp_all add: mult_nonpos_nonneg)
  then have "m * 2 ^ i < 4835703278458517 * 2 ^ j" for i j :: nat by (smt (verit) zero_less_power)
  moreover assume "\<not> fless (Finite m e) ONE_NANO"
  ultimately show False by (simp add: ONE_NANO_def Let_def)
qed

text \<open>The deadline from the whole seconds and the nanoseconds of the timeout.\<close>

lemma deadline_parts:
  assumes T: "to_long timeout = Some T" "to_long (fmul (fsub timeout (of_long T)) (of_long 1000000000)) = Some N"
    and N: "0 \<le> N" "N \<le> 1000000000" and T0: "0 \<le> T" and now: "0 \<le> sec" "0 \<le> usec" "usec < 1000000"
  shows "timed_join_deadline sec usec timeout =
    (let n = usec * 1000 + N; s = sec + T + n div 1000000000
     in if s < 2 ^ 63 then Some (s, n mod 1000000000) else None)"
proof -
  let ?n = "usec * 1000 + N"
  have n: "0 \<le> ?n" "?n < 2 ^ 63" "0 \<le> ?n div 1000000000" using N now by simp_all
  then have long: "c_long (usec * 1000) = Some (usec * 1000)" "c_long ?n = Some ?n"
    using N now by (simp_all add: c_long_def)
  have "?n sdiv 1000000000 = ?n div 1000000000" "?n smod 1000000000 = ?n mod 1000000000"
    using n(1) by (cases "?n = 0"; simp add: signed_divide_int_def signed_modulo_int_def sgn_if)+
  then show ?thesis
    using n T0 now unfolding timed_join_deadline_def T long Let_def bind.bind_lunit
    by (simp add: T(2) long c_long_def)
qed

text \<open>
  C34: The deadline of a timed join is a valid \<open>timespec\<close>, and it is the time of day plus
  the timeout, cut to nanoseconds after the one product that is rounded: up to \<open>2 ^ -24\<close> of a
  nanosecond too late, and up to that and a nanosecond too early. It is undefined only when the timeout
  is infinite or not a number, or when the deadline has \<open>2 ^ 63\<close> seconds or more, and always for an
  infinite timeout, which the header allows.
\<close>

theorem timed_join_deadline_exact:
  assumes "is_double timeout" "\<not> fless timeout ONE_NANO" "0 \<le> sec" "0 \<le> usec" "usec < 1000000"
  shows "case timed_join_deadline sec usec timeout of
     Some (ts_sec, ts_nsec) \<Rightarrow> 0 \<le> ts_sec \<and> ts_sec < 2 ^ 63 \<and> 0 \<le> ts_nsec \<and> ts_nsec < 1000000000 \<and>
       (\<exists>m e. timeout = Finite m e \<and>
          of_int (ts_sec * 1000000000 + ts_nsec) -
            (of_int (sec * 1000000000 + usec * 1000) + scaled m e * 1000000000) \<in> {- 1 - 1 / 2 ^ 24 .. 1 / 2 ^ 24})
   | None \<Rightarrow> (\<forall>m e. timeout = Finite m e \<longrightarrow>
       2 ^ 63 * 1000000000 \<le> of_int (sec * 1000000000 + usec * 1000) + scaled m e * 1000000000 + 1 / 2 ^ 24)"
proof (cases timeout)
  case t: (Finite m e)
  from assms(2) t have m: "0 < m" by (simp only: not_tiny)
  let ?T = "\<lfloor>scaled m e\<rfloor>"
  have T0: "0 \<le> ?T" using scaled_nonneg [of m e] m by simp
  show ?thesis
  proof (cases "?T < 2 ^ 63")
    case False
    then have "to_long timeout = None" unfolding t using to_long_floor [of m e] m by (simp add: c_long_def)
    then have "timed_join_deadline sec usec timeout = None" by (simp add: timed_join_deadline_def)
    moreover have "2 ^ 63 \<le> scaled m e" using False by (simp add: not_less le_floor_iff)
    then have "2 ^ 63 * 1000000000 \<le> scaled m e * 1000000000" by simp
    ultimately show ?thesis using assms(3,4) t by simp
  next
    case True
    then have long: "to_long timeout = Some ?T" unfolding t using to_long_floor [of m e] m T0 by (simp add: c_long_def)
    obtain N where N: "to_long (fmul (fsub timeout (of_long ?T)) (of_long 1000000000)) = Some N"
      "0 \<le> N" "N \<le> 1000000000"
      "\<bar>of_int N + 1 / 2 - (scaled m e - of_int ?T) * 1000000000\<bar> \<le> 1 / 2 + 1 / 2 ^ 24"
      using fraction_nsec [OF m _ True] assms(1) unfolding t by metis
    let ?n = "usec * 1000 + N"
    let ?s = "sec + ?T + ?n div 1000000000"
    have d: "timed_join_deadline sec usec timeout = (if ?s < 2 ^ 63 then Some (?s, ?n mod 1000000000) else None)"
      using deadline_parts [OF long N(1-3) T0 assms(3-5)] by (simp add: Let_def)
    have "?s * 1000000000 + ?n mod 1000000000 = (sec + ?T) * 1000000000 + ?n" by simp
    then have sum: "of_int (?s * 1000000000 + ?n mod 1000000000) -
        (of_int (sec * 1000000000 + usec * 1000) + scaled m e * 1000000000) =
      of_int N - (scaled m e - of_int ?T) * 1000000000"
      by (simp only: of_int_add of_int_mult) (simp add: algebra_simps)
    have near: "of_int N - (scaled m e - of_int ?T) * 1000000000 \<in> {- 1 - 1 / 2 ^ 24 .. 1 / 2 ^ 24}"
      unfolding atLeastAtMost_iff using N(4) by linarith
    show ?thesis
    proof (cases "?s < 2 ^ 63")
      case True
      with d have "timed_join_deadline sec usec timeout = Some (?s, ?n mod 1000000000)" by simp
      moreover have "0 \<le> ?s" "0 \<le> ?n mod 1000000000" "?n mod 1000000000 < 1000000000"
        using N(2) T0 assms(3,4) by simp_all
      ultimately show ?thesis using True near t
        unfolding sum [symmetric] by (simp only: option.case prod.case) blast
    next
      case False
      then have "2 ^ 63 * 1000000000 + 0 \<le> ?s * 1000000000 + ?n mod 1000000000" by (intro add_mono) simp_all
      then have "2 ^ 63 * 1000000000 \<le> (of_int (?s * 1000000000 + ?n mod 1000000000) :: rat)"
        by (simp only: of_int_le_iff [symmetric, where 'a = rat]) simp
      with near have "2 ^ 63 * 1000000000 \<le> of_int (sec * 1000000000 + usec * 1000) + scaled m e * 1000000000 + 1 / 2 ^ 24"
        unfolding sum [symmetric] atLeastAtMost_iff by linarith
      with d False t show ?thesis by simp
    qed
  qed
qed (use assms(2) in \<open>simp_all add: timed_join_deadline_def\<close>)

theorem timed_join_deadline_exact_witness:
  "timed_join_deadline 100 900000 (Finite 5404319552844595 (-54)) = Some (101, 200000000) \<and>
   of_int (101 * 1000000000 + 200000000) -
     (of_int (100 * 1000000000 + 900000 * 1000) + scaled 5404319552844595 (-54) * 1000000000) \<in> {- 1 - 1 / 2 ^ 24 .. 1 / 2 ^ 24}"
proof
  show d: "timed_join_deadline 100 900000 (Finite 5404319552844595 (-54)) = Some (101, 200000000)" by code_simp
  have "is_double (Finite 5404319552844595 (-54))" "\<not> fless (Finite 5404319552844595 (-54)) ONE_NANO" by code_simp+
  from timed_join_deadline_exact [OF this, of 100 900000]
  show "of_int (101 * 1000000000 + 200000000) -
     (of_int (100 * 1000000000 + 900000 * 1000) + scaled 5404319552844595 (-54) * 1000000000) \<in> {- 1 - 1 / 2 ^ 24 .. 1 / 2 ^ 24}"
    unfolding d by (simp only: option.case prod.case double.inject) simp
qed

end
