(* ===== verification/HeapModel.thy ===== *)
theory HeapModel
  imports Links
begin

section \<open>The allocation tracker: state and operations\<close>

text \<open>
  \<open>utils/heap_help/heap_help.c\<close> replaces \<open>malloc\<close>, \<open>free\<close> and their relatives by functions
  that call the original ones and keep a list of what is allocated, and report what is left
  when the program exits.

  One thread is modelled: a spin lock that is taken while it is held never gets free. The
  address of user memory is a number, NULL being 0. What the original functions return, and
  what \<open>backtrace\<close>, \<open>mmap\<close>, \<open>dlsym\<close>, \<open>dladdr\<close> and \<open>getenv\<close> give, comes in as arguments. A
  failed \<open>heaph_assert\<close> aborts: \<open>None\<close>.
\<close>

subsection \<open>Data\<close>

type_synonym mem = nat

definition MAX_BACKTRACE_LEN :: nat where "MAX_BACKTRACE_LEN = 64"

definition ALLOCATION_BATCH_SIZE :: nat where "ALLOCATION_BATCH_SIZE = 1024"

datatype report_mode = MODE_VERBOSE | MODE_LEAKS | MODE_QUIET

text \<open>\<open>trace_size\<close> is the length of \<open>trace\<close>.\<close>

record allocation =
  trace :: "mem list"
  alloc_mem :: mem
  alloc_size :: nat
  next_alloc :: ptr

record symbol =
  sym_file :: "string option"
  sym_name :: "string option"

text \<open>
  A call that a library function makes back into the replaced functions: \<open>malloc\<close> and
  \<open>calloc\<close> with their sizes and what the original ones return, and \<open>free\<close>.
\<close>

datatype inner_call = InnerMalloc nat mem | InnerCalloc nat nat mem | InnerFree mem

text \<open>
  What the system answers: the backtrace at the call, whether \<open>mmap\<close> succeeds and where it
  puts the static buffer, the calls \<open>dlsym\<close> makes back when it is called and those the
  original function makes back, the variable \<open>HHREPORT\<close>, and the symbols of code addresses.
\<close>

record env =
  backtrace :: "mem list"
  mmap_ok :: bool
  mmap_static :: mem
  dlsym_calls :: "inner_call list"
  inner_calls :: "inner_call list"
  hhreport :: "string option"
  dladdr :: "mem \<Rightarrow> symbol option"

text \<open>
  \<open>alloc_batch\<close> is the address of its first object with the number of used ones; a new
  batch lies at \<open>fresh_batch\<close>. \<open>libc\<close> tells whether the \<open>default_\<close> pointers point to the
  original functions or to the static allocator, \<open>handler_registered\<close> whether \<open>heaph_atexit\<close> has
  been given to \<open>atexit\<close> (which is taken to succeed).
\<close>

record tracker =
  nodes :: "addr \<rightharpoonup> allocation"
  fresh_batch :: addr
  init_lock :: bool
  is_init_done :: bool
  is_exit_done :: bool
  init_lock_count :: int
  depth :: int
  mode :: report_mode
  static_size :: nat
  static_used :: nat
  static_buf :: mem
  allocs_lock :: bool
  alloc_count :: int
  alloc_count_total :: "64 word"
  allocs :: ptr
  alloc_pool :: ptr
  alloc_batch :: "(addr \<times> nat) option"
  libc :: bool
  handler_registered :: bool

definition tracker_start :: tracker where
  "tracker_start = \<lparr>nodes = Map.empty, fresh_batch = 0, init_lock = False, is_init_done = False,
     is_exit_done = False, init_lock_count = 0, depth = 0, mode = MODE_LEAKS, static_size = 0,
     static_used = 0, static_buf = 0, allocs_lock = False, alloc_count = 0, alloc_count_total = 0,
     allocs = None, alloc_pool = None, alloc_batch = None, libc = False,
     handler_registered = False\<rparr>"

definition heaph_assert :: "bool \<Rightarrow> unit option" where
  "heaph_assert b = (if b then Some () else None)"

definition upd_node :: "addr \<Rightarrow> (allocation \<Rightarrow> allocation) \<Rightarrow> tracker \<Rightarrow> tracker option" where
  "upd_node a g s = do { x \<leftarrow> nodes s a; Some (s\<lparr>nodes := (nodes s)(a \<mapsto> g x)\<rparr>) }"

abbreviation set_next_alloc :: "ptr \<Rightarrow> allocation \<Rightarrow> allocation" where
  "set_next_alloc p a \<equiv> a\<lparr>next_alloc := p\<rparr>"

interpretation al: slinks next_alloc set_next_alloc
  by unfold_locales simp

subsection \<open>Locks\<close>

text \<open>\<open>spinlock_acq\<close> and \<open>spinlock_rel\<close> of each of the two locks.\<close>

definition acq_allocs :: "tracker \<Rightarrow> tracker option" where
  "acq_allocs s = (if allocs_lock s then None else Some (s\<lparr>allocs_lock := True\<rparr>))"

definition rel_allocs :: "tracker \<Rightarrow> tracker option" where
  "rel_allocs s = do { _ \<leftarrow> heaph_assert (allocs_lock s); Some (s\<lparr>allocs_lock := False\<rparr>) }"

definition heaph_lock :: "tracker \<Rightarrow> tracker option" where
  "heaph_lock s = do {
     s \<leftarrow> (if init_lock_count s = 0
           then (if init_lock s then None else Some (s\<lparr>init_lock := True\<rparr>)) else Some s);
     Some (s\<lparr>init_lock_count := init_lock_count s + 1\<rparr>) }"

definition heaph_unlock :: "tracker \<Rightarrow> tracker option" where
  "heaph_unlock s = do {
     _ \<leftarrow> heaph_assert (init_lock_count s > 0);
     let s = s\<lparr>init_lock_count := init_lock_count s - 1\<rparr>;
     if init_lock_count s = 0
     then do { _ \<leftarrow> heaph_assert (init_lock s); Some (s\<lparr>init_lock := False\<rparr>) }
     else Some s }"

subsection \<open>Tracking\<close>

definition alloc_is_static :: "mem \<Rightarrow> tracker \<Rightarrow> bool" where
  "alloc_is_static p s \<longleftrightarrow> p \<noteq> 0 \<and> p \<ge> static_buf s \<and> p \<le> static_buf s + static_size s"

text \<open>A batch from \<open>mmap\<close>: objects whose fields are all zero.\<close>

definition new_batch :: "tracker \<Rightarrow> tracker" where
  "new_batch s = s\<lparr>
     nodes := (\<lambda>a. if fresh_batch s \<le> a \<and> a < fresh_batch s + ALLOCATION_BATCH_SIZE
        then Some \<lparr>trace = [], alloc_mem = 0, alloc_size = 0, next_alloc = None\<rparr> else nodes s a),
     alloc_batch := Some (fresh_batch s, 0), fresh_batch := fresh_batch s + ALLOCATION_BATCH_SIZE\<rparr>"

text \<open>An unused object: from the pool, or the next one of the batch.\<close>

definition take_node :: "env \<Rightarrow> tracker \<Rightarrow> (addr \<times> tracker) option" where
  "take_node e s = (case alloc_pool s of
       Some a \<Rightarrow> do { x \<leftarrow> nodes s a; Some (a, s\<lparr>alloc_pool := next_alloc x\<rparr>) }
     | None \<Rightarrow> do {
         s \<leftarrow> (if (case alloc_batch s of None \<Rightarrow> True | Some (b, used) \<Rightarrow> used = ALLOCATION_BATCH_SIZE)
              then do { _ \<leftarrow> heaph_assert (mmap_ok e); Some (new_batch s) }
              else do {
                (b, used) \<leftarrow> alloc_batch s;
                _ \<leftarrow> heaph_assert (used < ALLOCATION_BATCH_SIZE);
                Some s });
         (b, used) \<leftarrow> alloc_batch s;
         Some (b + used, s\<lparr>alloc_batch := Some (b, Suc used)\<rparr>) })"

text \<open>
  The three parts of \<open>alloc_trace_new\<close> behind its guards: the section under the lock that takes
  an object, the assignments to it, and the section that links it.
\<close>

definition trace_take :: "env \<Rightarrow> tracker \<Rightarrow> (addr \<times> tracker) option" where
  "trace_take e s = do {
     s \<leftarrow> acq_allocs s;
     (a, s) \<leftarrow> take_node e s;
     s \<leftarrow> rel_allocs s;
     Some (a, s) }"

definition trace_fill :: "env \<Rightarrow> addr \<Rightarrow> mem \<Rightarrow> nat \<Rightarrow> tracker \<Rightarrow> tracker option" where
  "trace_fill e a p n s = do {
     s \<leftarrow> upd_node a (\<lambda>x. x\<lparr>alloc_mem := p\<rparr>) s;
     s \<leftarrow> upd_node a (\<lambda>x. x\<lparr>alloc_size := n\<rparr>) s;
     upd_node a (\<lambda>x. x\<lparr>trace := (if depth s = 1 then take MAX_BACKTRACE_LEN (backtrace e) else [])\<rparr>) s }"

definition trace_link :: "addr \<Rightarrow> tracker \<Rightarrow> tracker option" where
  "trace_link a s = do {
     s \<leftarrow> acq_allocs s;
     s \<leftarrow> upd_node a (\<lambda>x. x\<lparr>next_alloc := allocs s\<rparr>) s;
     rel_allocs (s\<lparr>allocs := Some a, alloc_count := alloc_count s + 1,
       alloc_count_total := alloc_count_total s + 1\<rparr>) }"

definition alloc_trace_new :: "env \<Rightarrow> mem \<Rightarrow> nat \<Rightarrow> tracker \<Rightarrow> tracker option" where
  "alloc_trace_new e p n s =
     (if alloc_is_static p s then Some s
      else if depth s > 1 then Some s
      else do {
        _ \<leftarrow> heaph_assert (depth s > 0);
        _ \<leftarrow> heaph_assert (is_init_done s);
        if is_exit_done s then Some s
        else do {
          (a, s) \<leftarrow> trace_take e s;
          s \<leftarrow> trace_fill e a p n s;
          trace_link a s } })"

text \<open>The search of \<open>alloc_free\<close>: the object of \<open>p\<close> with the one before it.\<close>

partial_function (option) find_alloc :: "mem \<Rightarrow> ptr \<Rightarrow> ptr \<Rightarrow> tracker \<Rightarrow> (addr \<times> ptr) option option" where
  [code]: "find_alloc p a prev s =
     (case a of None \<Rightarrow> Some None
      | Some a \<Rightarrow> do {
          x \<leftarrow> nodes s a;
          if alloc_mem x = p then Some (Some (a, prev)) else find_alloc p (next_alloc x) (Some a) s })"

definition alloc_free :: "mem \<Rightarrow> tracker \<Rightarrow> tracker option" where
  "alloc_free p s =
     (if alloc_is_static p s then Some s
      else if depth s > 1 then Some s
      else do {
        _ \<leftarrow> heaph_assert (is_init_done s);
        if is_exit_done s then Some s
        else do {
          s \<leftarrow> acq_allocs s;
          found \<leftarrow> find_alloc p (allocs s) None s;
          (case found of
             Some (a, prev) \<Rightarrow> do {
               x \<leftarrow> nodes s a;
               s \<leftarrow> (case prev of None \<Rightarrow> Some (s\<lparr>allocs := next_alloc x\<rparr>)
                     | Some b \<Rightarrow> upd_node b (\<lambda>y. y\<lparr>next_alloc := next_alloc x\<rparr>) s);
               s \<leftarrow> upd_node a (\<lambda>x. x\<lparr>next_alloc := alloc_pool s\<rparr>) s;
               let s = s\<lparr>alloc_pool := Some a, alloc_count := alloc_count s - 1\<rparr>;
               let new_count = alloc_count s;
               s \<leftarrow> rel_allocs s;
               _ \<leftarrow> heaph_assert (new_count \<ge> 0);
               Some s }
           | None \<Rightarrow> do { _ \<leftarrow> rel_allocs s; None }) } })"

subsection \<open>The static allocator\<close>

definition static_allocator_touch :: "env \<Rightarrow> tracker \<Rightarrow> tracker option" where
  "static_allocator_touch e s =
     (if static_buf s \<noteq> 0 then Some s
      else do {
        _ \<leftarrow> heaph_assert (mmap_ok e);
        Some (s\<lparr>static_size := 16 * 1024, static_buf := mmap_static e\<rparr>) })"

definition static_malloc :: "env \<Rightarrow> nat \<Rightarrow> tracker \<Rightarrow> (mem \<times> tracker) option" where
  "static_malloc e n s = do {
     _ \<leftarrow> heaph_assert (\<not> is_init_done s);
     _ \<leftarrow> heaph_assert (init_lock s);
     s \<leftarrow> static_allocator_touch e s;
     _ \<leftarrow> heaph_assert (static_size s \<ge> static_used s);
     _ \<leftarrow> heaph_assert (n < static_size s - static_used s);
     Some (static_buf s + static_used s, s\<lparr>static_used := static_used s + n\<rparr>) }"

definition static_free :: "env \<Rightarrow> mem \<Rightarrow> tracker \<Rightarrow> tracker option" where
  "static_free e p s = do {
     _ \<leftarrow> heaph_assert (\<not> is_init_done s);
     _ \<leftarrow> heaph_assert (init_lock s);
     s \<leftarrow> static_allocator_touch e s;
     _ \<leftarrow> heaph_assert (p \<noteq> 0 \<longrightarrow> alloc_is_static p s);
     Some s }"

text \<open>The product wraps around; zeroing the memory is not seen.\<close>

definition static_calloc :: "env \<Rightarrow> nat \<Rightarrow> nat \<Rightarrow> tracker \<Rightarrow> (mem \<times> tracker) option" where
  "static_calloc e count n s = static_malloc e (n * count mod 2 ^ 64) s"

subsection \<open>Initialisation\<close>

definition enter :: "tracker \<Rightarrow> tracker" where
  "enter s = s\<lparr>depth := depth s + 1\<rparr>"

definition leave :: "tracker \<Rightarrow> tracker" where
  "leave s = s\<lparr>depth := depth s - 1\<rparr>"

text \<open>
  The bodies of \<open>malloc\<close>, \<open>calloc\<close> and \<open>free\<close> behind \<open>heaph_touch\<close>. The \<open>default_\<close> pointers
  point to the static allocator while the original functions are looked up; \<open>res\<close> is what
  the original one returns.
\<close>

definition malloc_body :: "env \<Rightarrow> nat \<Rightarrow> mem \<Rightarrow> tracker \<Rightarrow> (mem \<times> tracker) option" where
  "malloc_body e n res s = do {
     let s = enter s;
     (res, s) \<leftarrow> (if libc s then Some (res, s) else static_malloc e n s);
     s \<leftarrow> (if res \<noteq> 0 then alloc_trace_new e res n s else Some s);
     Some (res, leave s) }"

definition calloc_body :: "env \<Rightarrow> nat \<Rightarrow> nat \<Rightarrow> mem \<Rightarrow> tracker \<Rightarrow> (mem \<times> tracker) option" where
  "calloc_body e num n res s = do {
     let s = enter s;
     (res, s) \<leftarrow> (if libc s then Some (res, s) else static_calloc e num n s);
     s \<leftarrow> (if res \<noteq> 0 then alloc_trace_new e res (num * n mod 2 ^ 64) s else Some s);
     Some (res, leave s) }"

definition free_body :: "env \<Rightarrow> mem \<Rightarrow> tracker \<Rightarrow> tracker option" where
  "free_body e p s = do {
     let s = enter s;
     s \<leftarrow> alloc_free p s;
     s \<leftarrow> (if libc s then Some s else static_free e p s);
     Some (leave s) }"

text \<open>
  A call that comes back from inside another call or from the initialisation. \<open>heaph_touch\<close>
  returns at once there: \<open>is_init_done\<close> is set, or this thread holds the lock.
\<close>

definition inner :: "env \<Rightarrow> inner_call \<Rightarrow> tracker \<Rightarrow> tracker option" where
  "inner e c s = (case c of
       InnerMalloc n res \<Rightarrow> map_option snd (malloc_body e n res s)
     | InnerCalloc num n res \<Rightarrow> map_option snd (calloc_body e num n res s)
     | InnerFree p \<Rightarrow>
         if p = 0 then Some s else if alloc_is_static p s then Some s else free_body e p s)"

definition report_mode_of :: "string \<Rightarrow> report_mode \<Rightarrow> report_mode" where
  "report_mode_of v m = (if v = ''v'' then MODE_VERBOSE else if v = ''l'' then MODE_LEAKS
     else if v = ''q'' then MODE_QUIET else m)"

definition heaph_init :: "env \<Rightarrow> tracker \<Rightarrow> tracker option" where
  "heaph_init e s = do {
     let s = s\<lparr>libc := False\<rparr>;
     s \<leftarrow> for_each (dlsym_calls e) (inner e) s;
     let s = s\<lparr>libc := True\<rparr>;
     let s = (case hhreport e of None \<Rightarrow> s | Some v \<Rightarrow> s\<lparr>mode := report_mode_of v (mode s)\<rparr>);
     Some (s\<lparr>handler_registered := True\<rparr>) }"

definition heaph_touch :: "env \<Rightarrow> tracker \<Rightarrow> tracker option" where
  "heaph_touch e s =
     (if is_init_done s then Some s
      else if init_lock_count s > 0 then Some s
      else do {
        s \<leftarrow> heaph_lock s;
        s \<leftarrow> heaph_init e s;
        let old = is_init_done s;
        let s = s\<lparr>is_init_done := True\<rparr>;
        s \<leftarrow> heaph_unlock s;
        _ \<leftarrow> heaph_assert (\<not> old);
        Some s })"

subsection \<open>The replaced functions\<close>

text \<open>
  \<open>res\<close> and the like are what the original function returns. The other original functions
  than \<open>malloc\<close>, \<open>free\<close> and \<open>calloc\<close> have no static stand-in (their pointers are NULL
  before the initialisation), and may themselves allocate.
\<close>

definition original :: "env \<Rightarrow> tracker \<Rightarrow> tracker option" where
  "original e s = (if libc s then for_each (inner_calls e) (inner e) s else None)"

definition hh_malloc :: "env \<Rightarrow> nat \<Rightarrow> mem \<Rightarrow> tracker \<Rightarrow> (mem \<times> tracker) option" where
  "hh_malloc e n res s = do { s \<leftarrow> heaph_touch e s; malloc_body e n res s }"

definition hh_calloc :: "env \<Rightarrow> nat \<Rightarrow> nat \<Rightarrow> mem \<Rightarrow> tracker \<Rightarrow> (mem \<times> tracker) option" where
  "hh_calloc e num n res s = do { s \<leftarrow> heaph_touch e s; calloc_body e num n res s }"

definition hh_realloc :: "env \<Rightarrow> mem \<Rightarrow> nat \<Rightarrow> mem \<Rightarrow> tracker \<Rightarrow> (mem \<times> tracker) option" where
  "hh_realloc e p n res s = do {
     s \<leftarrow> heaph_touch e s;
     let s = enter s;
     let p = (if alloc_is_static p s then 0 else p);
     s \<leftarrow> original e s;
     s \<leftarrow> (if p = 0 \<and> res \<noteq> 0 then alloc_trace_new e res n s
           else if p \<noteq> 0 \<and> res = 0 then alloc_free p s
           else if p \<noteq> 0 \<and> res \<noteq> p then do { s \<leftarrow> alloc_free p s; alloc_trace_new e res n s }
           else Some s);
     Some (res, leave s) }"

definition hh_free :: "env \<Rightarrow> mem \<Rightarrow> tracker \<Rightarrow> tracker option" where
  "hh_free e p s =
     (if p = 0 then Some s
      else if alloc_is_static p s then Some s
      else do { s \<leftarrow> heaph_touch e s; free_body e p s })"

definition hh_strdup :: "env \<Rightarrow> mem \<Rightarrow> nat \<Rightarrow> mem \<Rightarrow> tracker \<Rightarrow> (mem \<times> tracker) option" where
  "hh_strdup e p len res s = do {
     s \<leftarrow> heaph_touch e s;
     _ \<leftarrow> heaph_assert (\<not> is_exit_done s);
     _ \<leftarrow> heaph_assert (\<not> alloc_is_static p s);
     let s = enter s;
     s \<leftarrow> original e s;
     s \<leftarrow> (if res \<noteq> 0 then alloc_trace_new e res (len + 1) s else Some s);
     Some (res, leave s) }"

text \<open>\<open>line\<close> is \<open>*linep\<close> afterwards, \<open>len\<close> the length of that string.\<close>

definition hh_getline :: "env \<Rightarrow> mem \<Rightarrow> mem \<Rightarrow> nat \<Rightarrow> tracker \<Rightarrow> tracker option" where
  "hh_getline e line_old line len s = do {
     s \<leftarrow> heaph_touch e s;
     let s = enter s;
     _ \<leftarrow> heaph_assert (\<not> alloc_is_static line_old s);
     s \<leftarrow> original e s;
     s \<leftarrow> (if line_old = 0 \<and> line \<noteq> 0 then alloc_trace_new e line (len + 1) s
           else if line_old \<noteq> 0 \<and> line = 0 then None
           else if line_old \<noteq> 0 \<and> line \<noteq> 0 \<and> line_old \<noteq> line
           then do { s \<leftarrow> alloc_free line_old s; alloc_trace_new e line (len + 1) s }
           else if line_old \<noteq> line then None
           else Some s);
     Some (leave s) }"

text \<open>\<open>sizeof(struct addrinfo)\<close> on a 64-bit Linux.\<close>

definition SIZEOF_ADDRINFO :: nat where "SIZEOF_ADDRINFO = 48"

definition hh_getaddrinfo :: "env \<Rightarrow> int \<Rightarrow> mem \<Rightarrow> tracker \<Rightarrow> (int \<times> tracker) option" where
  "hh_getaddrinfo e rc res s = do {
     s \<leftarrow> heaph_touch e s;
     let s = enter s;
     s \<leftarrow> original e s;
     s \<leftarrow> (if rc = 0 \<and> res \<noteq> 0 then alloc_trace_new e res SIZEOF_ADDRINFO s else Some s);
     Some (rc, leave s) }"

definition hh_freeaddrinfo :: "env \<Rightarrow> mem \<Rightarrow> tracker \<Rightarrow> tracker option" where
  "hh_freeaddrinfo e p s =
     (if p = 0 then Some s
      else do {
        _ \<leftarrow> heaph_assert (\<not> alloc_is_static p s);
        s \<leftarrow> heaph_touch e s;
        let s = enter s;
        s \<leftarrow> alloc_free p s;
        s \<leftarrow> original e s;
        Some (leave s) })"

text \<open>The count is signed, the result is not.\<close>

definition heaph_get_alloc_count :: "tracker \<Rightarrow> (64 word \<times> tracker) option" where
  "heaph_get_alloc_count s = do {
     s \<leftarrow> acq_allocs s;
     let res = word_of_int (alloc_count s);
     s \<leftarrow> rel_allocs s;
     Some (res, s) }"

end
