(* ===== verification/HeapReport.thy ===== *)
theory HeapReport
  imports HeapModel
begin

section \<open>The report at exit\<close>

text \<open>
  \<open>heaph_atexit\<close> and its helpers. What it prints is a list of messages: the arguments of
  \<open>heaph_printf\<close>, with one constructor for each format string (the text of a message is cut at
  1023 characters). \<open>None\<close> is a failed assertion or undefined behaviour, here a NULL for \<open>%s\<close>.
\<close>

subsection \<open>Resolving a trace\<close>

datatype message =
    MsgNewline
  | MsgDladdrFailure
  | MsgLeak int nat
  | MsgFrame nat string
  | MsgNoLeaks
  | MsgFound int "64 word"
  | MsgSuppressed int
  | MsgOnlyFirst int
  | MsgTotal "64 word"

text \<open>A symbol is passed by a pointer, which may be NULL.\<close>

definition trace_sym_is_func :: "symbol option \<Rightarrow> string \<Rightarrow> bool" where
  "trace_sym_is_func sb func = (case sb of None \<Rightarrow> False
     | Some sy \<Rightarrow> (case sym_name sy of None \<Rightarrow> False | Some n \<Rightarrow> n = func))"

definition trace_sym_file_starts_with :: "symbol option \<Rightarrow> string \<Rightarrow> bool" where
  "trace_sym_file_starts_with sb prefix = (case sb of None \<Rightarrow> False
     | Some sy \<Rightarrow> (case sym_file sy of None \<Rightarrow> False
         | Some f \<Rightarrow> take (length prefix) f = prefix))"

definition trace_sym_is_internal :: "symbol option \<Rightarrow> bool" where
  "trace_sym_is_internal sb \<longleftrightarrow>
     trace_sym_is_func sb ''puts'' \<or> trace_sym_is_func sb ''pthread_create'' \<or>
     trace_sym_is_func sb ''_IO_printf'' \<or> trace_sym_file_starts_with sb ''libpthread.so''"

definition trace_is_internal :: "symbol list \<Rightarrow> bool" where
  "trace_is_internal syms \<longleftrightarrow> list_ex (\<lambda>sy. trace_sym_is_internal (Some sy)) syms"

text \<open>The symbols of the addresses, and what is printed when one is not found.\<close>

fun trace_resolve :: "env \<Rightarrow> mem list \<Rightarrow> symbol list \<times> message list" where
  "trace_resolve e [] = ([], [])"
| "trace_resolve e (addr # addrs) =
     (let (syms, msgs) = trace_resolve e addrs in
      case dladdr e addr of
        None \<Rightarrow> (\<lparr>sym_file = None, sym_name = None\<rparr> # syms, MsgDladdrFailure # msgs)
      | Some sy \<Rightarrow> (sy # syms, msgs))"

subsection \<open>The loop over the allocations\<close>

definition report_limit :: int where "report_limit = 10"

record report =
  rep_count :: int
  report_count :: int
  leak_size :: "64 word"
  rep_prefix :: bool
  printed :: "message list"

definition emit :: "message list \<Rightarrow> report \<Rightarrow> report" where
  "emit ms r = r\<lparr>printed := printed r @ ms\<rparr>"

definition emit_prefix :: "report \<Rightarrow> report" where
  "emit_prefix r = (if rep_prefix r then (emit [MsgNewline] r)\<lparr>rep_prefix := False\<rparr> else r)"

text \<open>
  The frames of a leak. A symbol has no name when \<open>dladdr\<close> failed or found no symbol that fits;
  its NULL is given to \<open>%s\<close> nevertheless.
\<close>

fun report_frames :: "nat \<Rightarrow> symbol list \<Rightarrow> message list option" where
  "report_frames i [] = Some []"
| "report_frames i (sy # syms) = do {
     n \<leftarrow> sym_name sy;
     ms \<leftarrow> report_frames (Suc i) syms;
     Some (MsgFrame i n # ms) }"

definition report_one :: "env \<Rightarrow> allocation \<Rightarrow> report \<Rightarrow> report option" where
  "report_one e a r = do {
     _ \<leftarrow> heaph_assert (rep_count r > 0);
     if trace a = [] then Some (r\<lparr>rep_count := rep_count r - 1\<rparr>)
     else do {
       let (syms, msgs) = trace_resolve e (trace a);
       let r = emit msgs r;
       let is_internal = trace_is_internal syms;
       r \<leftarrow> (if is_internal then Some (r\<lparr>rep_count := rep_count r - 1\<rparr>)
            else if report_count r < report_limit
            then do {
              let r = emit_prefix r;
              let r = r\<lparr>report_count := report_count r + 1\<rparr>;
              let r = emit [MsgLeak (report_count r) (alloc_size a)] r;
              ms \<leftarrow> report_frames 0 syms;
              Some (emit ms r) }
            else Some r);
       Some (if is_internal then r else r\<lparr>leak_size := leak_size r + of_nat (alloc_size a)\<rparr>) } }"

partial_function (option) report_loop ::
    "env \<Rightarrow> (addr \<rightharpoonup> allocation) \<Rightarrow> ptr \<Rightarrow> report \<Rightarrow> report option" where
  [code]: "report_loop e h a r =
     (case a of None \<Rightarrow> Some r
      | Some a \<Rightarrow> do { x \<leftarrow> h a; r \<leftarrow> report_one e x r; report_loop e h (next_alloc x) r })"

text \<open>What comes behind the loop.\<close>

definition report_summary :: "report_mode \<Rightarrow> int \<Rightarrow> 64 word \<Rightarrow> report \<Rightarrow> message list" where
  "report_summary m total_count all_count r =
     (if rep_count r = 0 \<and> m \<noteq> MODE_VERBOSE then printed r
      else
        let suppressed_count = total_count - rep_count r;
            r = emit_prefix r;
            r = emit [MsgFound (rep_count r) (leak_size r)] r;
            r = (if suppressed_count \<noteq> 0 then emit [MsgSuppressed suppressed_count] r else r);
            r = (if report_count r < rep_count r then emit [MsgOnlyFirst (report_count r)] r else r);
            r = emit [MsgTotal all_count] r
        in printed r)"

definition heaph_atexit :: "env \<Rightarrow> tracker \<Rightarrow> (message list \<times> tracker) option" where
  "heaph_atexit e s =
     (if is_exit_done s then Some ([], s)
      else do {
        let s = s\<lparr>is_exit_done := True\<rparr>;
        if mode s = MODE_QUIET then Some ([], s)
        else do {
          s \<leftarrow> acq_allocs s;
          let total_count = alloc_count s;
          if total_count = 0 then do {
            s \<leftarrow> rel_allocs s;
            Some (if mode s = MODE_VERBOSE
                  then [MsgNewline, MsgNoLeaks, MsgTotal (alloc_count_total s)] else [], s) }
          else do {
            r \<leftarrow> report_loop e (nodes s) (allocs s)
                  \<lparr>rep_count = total_count, report_count = 0, leak_size = 0, rep_prefix = True,
                   printed = []\<rparr>;
            s \<leftarrow> rel_allocs s;
            Some (report_summary (mode s) total_count (alloc_count_total s) r, s) } } })"

end
