(* ===== verification/HeapInvariant.thy ===== *)
theory HeapInvariant
  imports HeapModel
begin

section \<open>The list of tracked allocations\<close>

text \<open>
  \<open>tracks s xs ys\<close>: the tracked objects are \<open>xs\<close>, the pool is \<open>ys\<close>, the two are disjoint,
  and the rest of the current batch is in neither. \<open>tracked s L\<close> forgets the addresses:
  \<open>L\<close> lists what is recorded, the newest first. The lemmas say what \<open>alloc_trace_new\<close> and
  \<open>alloc_free\<close> do to \<open>L\<close>.
\<close>

type_synonym entry = "mem \<times> nat \<times> mem list"

definition entry :: "allocation \<Rightarrow> entry" where
  "entry x = (alloc_mem x, alloc_size x, trace x)"

definition entries :: "(addr \<rightharpoonup> allocation) \<Rightarrow> addr list \<Rightarrow> entry list" where
  "entries h xs = map (\<lambda>a. entry (the (h a))) xs"

text \<open>Where the unused objects of the current batch begin.\<close>

definition limit :: "tracker \<Rightarrow> addr" where
  "limit s = (case alloc_batch s of None \<Rightarrow> fresh_batch s | Some (b, used) \<Rightarrow> b + used)"

definition batch_ok :: "tracker \<Rightarrow> bool" where
  "batch_ok s \<longleftrightarrow> limit s \<le> fresh_batch s \<and>
     (\<forall>b used. alloc_batch s = Some (b, used) \<longrightarrow> b + ALLOCATION_BATCH_SIZE = fresh_batch s) \<and>
     (\<forall>a. limit s \<le> a \<and> a < fresh_batch s \<longrightarrow> nodes s a \<noteq> None)"

definition tracks :: "tracker \<Rightarrow> addr list \<Rightarrow> addr list \<Rightarrow> bool" where
  "tracks s xs ys \<longleftrightarrow>
     sll next_alloc (nodes s) (allocs s) xs None \<and>
     sll next_alloc (nodes s) (alloc_pool s) ys None \<and>
     set xs \<inter> set ys = {} \<and> (\<forall>a \<in> set xs \<union> set ys. a < limit s) \<and> batch_ok s \<and>
     alloc_count s = int (length xs)"

definition tracked :: "tracker \<Rightarrow> entry list \<Rightarrow> bool" where
  "tracked s L \<longleftrightarrow> (\<exists>xs ys. tracks s xs ys \<and> L = entries (nodes s) xs)"

text \<open>The rest of the state.\<close>

definition flags where
  "flags s = (init_lock s, is_init_done s, is_exit_done s, init_lock_count s, depth s, mode s,
     static_size s, static_used s, static_buf s, libc s, handler_registered s)"

lemma entries_simps [simp]:
  "entries h [] = []" "entries h (a # xs) = entry (the (h a)) # entries h xs"
  "entries h (xs @ zs) = entries h xs @ entries h zs" "length (entries h xs) = length xs"
  by (simp_all add: entries_def)

lemma entries_upd_other [simp]: "a \<notin> set xs \<Longrightarrow> entries (h(a := x)) xs = entries h xs"
  by (auto simp: entries_def)

lemma entries_cong: "(\<And>a. a \<in> set xs \<Longrightarrow> h a = h' a) \<Longrightarrow> entries h xs = entries h' xs"
  by (auto simp: entries_def)

text \<open>Only the link of an object changes: what is recorded stays.\<close>

lemma entries_relink: "h c = Some m \<Longrightarrow> entries (h(c \<mapsto> set_next_alloc q m)) xs = entries h xs"
  by (auto simp: entries_def entry_def)

lemma tracked_count: "tracked s L \<Longrightarrow> alloc_count s = int (length L)"
  by (auto simp: tracked_def tracks_def)

lemma tracked_unique: "tracked s L \<Longrightarrow> tracked s M \<Longrightarrow> L = M"
  by (auto simp: tracked_def tracks_def dest: sll_unique)

lemma tracked_start: "tracked tracker_start []"
  by (auto simp: tracked_def tracks_def tracker_start_def batch_ok_def limit_def intro!: exI [of _ "[]"])

text \<open>What the batch does not depend on.\<close>

lemma limit_simps [simp]:
  "limit (s\<lparr>allocs := p\<rparr>) = limit s" "limit (s\<lparr>alloc_pool := p\<rparr>) = limit s"
  "limit (s\<lparr>allocs_lock := b\<rparr>) = limit s" "limit (s\<lparr>alloc_count := i\<rparr>) = limit s"
  "limit (s\<lparr>alloc_count_total := w\<rparr>) = limit s" "limit (s\<lparr>nodes := h\<rparr>) = limit s"
  by (simp_all add: limit_def split: option.split)

lemma batch_ok_simps [simp]:
  "batch_ok (s\<lparr>allocs := p\<rparr>) = batch_ok s" "batch_ok (s\<lparr>alloc_pool := p\<rparr>) = batch_ok s"
  "batch_ok (s\<lparr>allocs_lock := b\<rparr>) = batch_ok s" "batch_ok (s\<lparr>alloc_count := i\<rparr>) = batch_ok s"
  "batch_ok (s\<lparr>alloc_count_total := w\<rparr>) = batch_ok s"
  by (simp_all add: batch_ok_def)

lemma batch_ok_upd: "batch_ok s \<Longrightarrow> batch_ok (s\<lparr>nodes := (nodes s)(a \<mapsto> x)\<rparr>)"
  by (simp add: batch_ok_def)

lemma tracked_cong:
  assumes "nodes t = nodes s" "allocs t = allocs s" "alloc_pool t = alloc_pool s"
    "alloc_batch t = alloc_batch s" "fresh_batch t = fresh_batch s" "alloc_count t = alloc_count s"
  shows "tracked t L \<longleftrightarrow> tracked s L"
proof -
  from assms have "limit t = limit s" by (simp add: limit_def split: option.split)
  moreover with assms have "batch_ok t = batch_ok s" by (simp add: batch_ok_def)
  ultimately show ?thesis using assms by (simp add: tracked_def tracks_def)
qed

lemma tracks_below: "tracks s xs ys \<Longrightarrow> a \<in> set xs \<union> set ys \<Longrightarrow> a < limit s"
  unfolding tracks_def by blast

lemma tracks_fresh: "tracks s xs ys \<Longrightarrow> a \<in> set xs \<union> set ys \<Longrightarrow> a < fresh_batch s"
  using tracks_below [of s xs ys a] by (meson tracks_def batch_ok_def less_le_trans)

subsection \<open>Taking an unused object\<close>

lemma upd_node_Some [simp]:
  "nodes s a = Some x \<Longrightarrow> upd_node a g s = Some (s\<lparr>nodes := (nodes s)(a \<mapsto> g x)\<rparr>)"
  by (simp add: upd_node_def)

lemma lock_simps [simp]:
  "\<not> allocs_lock s \<Longrightarrow> acq_allocs s = Some (s\<lparr>allocs_lock := True\<rparr>)"
  "allocs_lock s \<Longrightarrow> rel_allocs s = Some (s\<lparr>allocs_lock := False\<rparr>)"
  "heaph_assert True = Some ()" "heaph_assert False = None"
  by (simp_all add: acq_allocs_def rel_allocs_def heaph_assert_def)

lemma new_batch_tracks: "tracks s xs ys \<Longrightarrow> tracks (new_batch s) xs ys"
proof -
  assume t: "tracks s xs ys"
  note below = tracks_fresh [OF t]
  have "map_option next_alloc (nodes (new_batch s) a) = map_option next_alloc (nodes s a)"
    if "a \<in> set xs \<union> set ys" for a
    using below [OF that] by (simp add: new_batch_def)
  then have cong: "sll next_alloc (nodes (new_batch s)) q xs None = sll next_alloc (nodes s) q xs None"
      "sll next_alloc (nodes (new_batch s)) q ys None = sll next_alloc (nodes s) q ys None" for q
    by (simp_all cong: sll_cong)
  have b: "batch_ok (new_batch s)" "limit (new_batch s) = fresh_batch s"
    by (auto simp: batch_ok_def limit_def new_batch_def ALLOCATION_BATCH_SIZE_def)
  from t have "sll next_alloc (nodes (new_batch s)) (allocs (new_batch s)) xs None"
      "sll next_alloc (nodes (new_batch s)) (alloc_pool (new_batch s)) ys None"
    by (simp_all add: cong tracks_def) (simp_all add: new_batch_def)
  moreover from t have "alloc_count (new_batch s) = int (length xs)"
    by (simp add: tracks_def new_batch_def)
  moreover have "\<forall>a \<in> set xs \<union> set ys. a < limit (new_batch s)" using below b by simp
  ultimately show ?thesis using t b(1) by (simp add: tracks_def)
qed

lemma new_batch_entries: "tracks s xs ys \<Longrightarrow> entries (nodes (new_batch s)) xs = entries (nodes s) xs"
  using tracks_fresh [of s xs ys] by (intro entries_cong) (fastforce simp: new_batch_def)

lemma new_batch_rest: "flags (new_batch s) = flags s" "allocs_lock (new_batch s) = allocs_lock s"
    "alloc_count_total (new_batch s) = alloc_count_total s" "alloc_pool (new_batch s) = alloc_pool s"
    "alloc_batch (new_batch s) = Some (fresh_batch s, 0)"
  by (simp_all add: new_batch_def flags_def)

text \<open>The next object of a batch that is not used up.\<close>

lemma batch_node:
  assumes "tracks s xs ys" and "alloc_batch s = Some (b, used)" and "used < ALLOCATION_BATCH_SIZE"
  defines "t \<equiv> s\<lparr>alloc_batch := Some (b, Suc used)\<rparr>"
  shows "tracks t xs ys" and "b + used \<notin> set xs \<union> set ys" and "b + used < limit t"
    and "\<exists>x. nodes t (b + used) = Some x"
proof -
  from assms(1,2) have l: "limit s = b + used" "limit t = Suc (b + used)"
    by (simp_all add: limit_def t_def)
  from assms(1) have b: "batch_ok s" by (simp add: tracks_def)
  with assms(2,3) have fb: "b + used < fresh_batch s" by (auto simp: batch_ok_def)
  with b l show "\<exists>x. nodes t (b + used) = Some x" by (auto simp: batch_ok_def t_def)
  from b l fb assms(2) have "batch_ok t" by (simp add: batch_ok_def t_def)
  moreover have "\<forall>a \<in> set xs \<union> set ys. a < limit t" using tracks_below [OF assms(1)] l by fastforce
  ultimately show "tracks t xs ys" using assms(1) by (simp add: tracks_def) (simp add: t_def)
  from assms(1) l show "b + used \<notin> set xs \<union> set ys" by (auto simp: tracks_def)
  from l show "b + used < limit t" by simp
qed

text \<open>
  The object that is taken comes from the pool or from the unused part of the batch, and all
  used objects stay as they are.
\<close>

definition took :: "tracker \<Rightarrow> addr list \<Rightarrow> addr list \<Rightarrow> addr \<Rightarrow> tracker \<Rightarrow> bool" where
  "took s ys zs a u \<longleftrightarrow> (a \<in> set ys \<or> limit s \<le> a) \<and> set zs \<subseteq> set ys \<and> a \<notin> set zs \<and>
     a < limit u \<and> limit s \<le> limit u \<and> (\<exists>x. nodes u a = Some x) \<and>
     (\<forall>b. b < limit s \<longrightarrow> nodes u b = nodes s b) \<and> flags u = flags s \<and>
     allocs_lock u = allocs_lock s \<and> alloc_count_total u = alloc_count_total s"

lemma took_fresh: "tracks s xs ys \<Longrightarrow> took s ys zs a u \<Longrightarrow> a \<notin> set xs \<union> set zs"
  using tracks_below [of s xs ys a] by (fastforce simp: took_def tracks_def)

lemma took_entries: "tracks s xs ys \<Longrightarrow> took s ys zs a u \<Longrightarrow> entries (nodes u) xs = entries (nodes s) xs"
  using tracks_below [of s xs ys] by (intro entries_cong) (auto simp: took_def)

lemma limit_fresh: "tracks s xs ys \<Longrightarrow> limit s \<le> fresh_batch s"
  by (simp add: tracks_def batch_ok_def)

text \<open>A batch with unused objects, the old one or a new one.\<close>

lemma current_batch:
  assumes t: "tracks s xs ys"
  defines "new \<equiv> (case alloc_batch s of None \<Rightarrow> True | Some (b, used) \<Rightarrow> used = ALLOCATION_BATCH_SIZE)"
  defines "v \<equiv> (if new then new_batch s else s)"
  obtains b used where "tracks v xs ys" "alloc_batch v = Some (b, used)" "used < ALLOCATION_BATCH_SIZE"
    "limit s \<le> b + used" "\<forall>a. a < limit s \<longrightarrow> nodes v a = nodes s a" "flags v = flags s"
    "allocs_lock v = allocs_lock s" "alloc_count_total v = alloc_count_total s"
proof (cases new)
  case True
  have "nodes (new_batch s) a = nodes s a" if "a < limit s" for a
    using that limit_fresh [OF t] by (simp add: new_batch_def)
  then show thesis
    using that [of "fresh_batch s" 0] t True limit_fresh [OF t]
    by (simp add: v_def new_batch_tracks new_batch_rest) (simp add: ALLOCATION_BATCH_SIZE_def)
next
  case False
  then obtain b used where b: "alloc_batch s = Some (b, used)" "used \<noteq> ALLOCATION_BATCH_SIZE"
    by (auto simp: new_def split: option.splits)
  with t have "used < ALLOCATION_BATCH_SIZE" by (auto simp: tracks_def batch_ok_def limit_def)
  with b t False show thesis using that [of b used] by (simp add: v_def limit_def)
qed

lemma take_node_ok:
  assumes t: "tracks s xs ys" and m: "mmap_ok e"
  obtains a u zs where "take_node e s = Some (a, u)" "tracks u xs zs" "took s ys zs a u"
proof (cases "alloc_pool s")
  case (Some a)
  with t obtain zs where ys: "ys = a # zs" by (cases ys) (auto simp: tracks_def)
  from t Some ys obtain x where x: "nodes s a = Some x" "sll next_alloc (nodes s) (next_alloc x) zs None"
    by (auto simp: tracks_def split: option.splits)
  from t have d: "distinct ys" by (auto simp: tracks_def dest: sll_distinct)
  let ?u = "s\<lparr>alloc_pool := next_alloc x\<rparr>"
  from t x ys have "tracks ?u xs zs" by (simp add: tracks_def)
  moreover from t d ys x have "took s ys zs a ?u" by (auto simp: tracks_def took_def flags_def)
  ultimately show thesis using that [of a ?u zs] x Some by (simp add: take_node_def)
next
  case None
  define v where "v = (if (case alloc_batch s of None \<Rightarrow> True | Some (b, used) \<Rightarrow> used = ALLOCATION_BATCH_SIZE)
     then new_batch s else s)"
  obtain b used where v: "tracks v xs ys" "alloc_batch v = Some (b, used)"
      "used < ALLOCATION_BATCH_SIZE" "limit s \<le> b + used" "\<forall>a. a < limit s \<longrightarrow> nodes v a = nodes s a"
      "flags v = flags s" "allocs_lock v = allocs_lock s" "alloc_count_total v = alloc_count_total s"
    unfolding v_def by (rule current_batch [OF t])
  let ?u = "v\<lparr>alloc_batch := Some (b, Suc used)\<rparr>"
  have "take_node e s = Some (b + used, ?u)"
    using None m v(2,3) by (auto simp: take_node_def v_def split: option.splits if_splits)
  moreover have "took s ys ys (b + used) ?u"
    using batch_node [OF v(1-3)] v(4-8) by (simp add: took_def flags_def)
  ultimately show thesis using that batch_node(1) [OF v(1-3)] by blast
qed

subsection \<open>Tracking and untracking\<close>

text \<open>The entry of a pointer is the newest one with its address.\<close>

fun remove_entry :: "mem \<Rightarrow> entry list \<Rightarrow> entry list option" where
  "remove_entry p [] = None"
| "remove_entry p (en # L) =
     (if fst en = p then Some L else map_option (Cons en) (remove_entry p L))"

lemma remove_entry_None: "remove_entry p L = None \<longleftrightarrow> p \<notin> fst ` set L"
  by (induction L) auto

lemma remove_entry_SomeE:
  assumes "remove_entry p L = Some L'"
  obtains us en vs where "L = us @ en # vs" "L' = us @ vs" "fst en = p" "p \<notin> fst ` set us"
  using assms
proof (induction L arbitrary: L' thesis)
  case (Cons x L)
  show ?case
  proof (cases "fst x = p")
    case True
    with Cons.prems show ?thesis by (intro Cons.prems(1) [of "[]" x L]) simp_all
  next
    case False
    with Cons.prems(2) obtain M where M: "remove_entry p L = Some M" "L' = x # M" by auto
    obtain us en vs where "L = us @ en # vs" "M = us @ vs" "fst en = p" "p \<notin> fst ` set us"
      by (rule Cons.IH [OF _ M(1)])
    with False M(2) show ?thesis by (intro Cons.prems(1) [of "x # us" en vs]) simp_all
  qed
qed simp

lemma remove_entry_append:
  "p \<notin> fst ` set us \<Longrightarrow> fst en = p \<Longrightarrow> remove_entry p (us @ en # vs) = Some (us @ vs)"
  by (induction us) simp_all

lemma find_alloc_None:
  assumes "sll next_alloc (nodes s) q xs None" and "p \<notin> fst ` set (entries (nodes s) xs)"
  shows "find_alloc p q prev s = Some None"
  using assms
proof (induction xs arbitrary: q prev)
  case (Cons a xs)
  then obtain x where "q = Some a" "nodes s a = Some x" "sll next_alloc (nodes s) (next_alloc x) xs None"
    by (auto split: option.splits)
  with Cons show ?case by (auto simp: find_alloc.simps [of p "Some a"] entry_def)
qed (simp add: find_alloc.simps)

lemma find_alloc_Some:
  assumes "sll next_alloc (nodes s) q (us @ a # vs) None"
    and "p \<notin> fst ` set (entries (nodes s) us)" and "fst (entry (the (nodes s a))) = p"
  shows "find_alloc p q prev s = Some (Some (a, last_ptr prev us))"
  using assms
proof (induction us arbitrary: q prev)
  case Nil
  then show ?case by (auto simp: find_alloc.simps [of p "Some a"] entry_def split: option.splits)
next
  case (Cons b us)
  then obtain x where "q = Some b" "nodes s b = Some x"
      "sll next_alloc (nodes s) (next_alloc x) (us @ a # vs) None"
    by (auto split: option.splits)
  with Cons show ?case by (auto simp: find_alloc.simps [of p "Some b"] entry_def)
qed

text \<open>One call at the outermost level, after the initialisation and before the exit.\<close>

definition outermost :: "tracker \<Rightarrow> bool" where
  "outermost s \<longleftrightarrow> depth s = 1 \<and> is_init_done s \<and> \<not> is_exit_done s \<and> \<not> allocs_lock s"

lemma trace_take_ok:
  assumes t: "tracks s xs ys" and m: "mmap_ok e" and l: "\<not> allocs_lock s"
  obtains a u zs where "trace_take e s = Some (a, u)" "tracks u xs zs" "took s ys zs a u"
proof -
  let ?s = "s\<lparr>allocs_lock := True\<rparr>"
  from t have t': "tracks ?s xs ys" by (simp add: tracks_def)
  obtain a v zs where v: "take_node e ?s = Some (a, v)" "tracks v xs zs" "took ?s ys zs a v"
    by (rule take_node_ok [OF t' m])
  let ?u = "v\<lparr>allocs_lock := False\<rparr>"
  have "allocs_lock v" using v(3) by (simp add: took_def)
  with v(1) l have "trace_take e s = Some (a, ?u)" by (simp add: trace_take_def)
  moreover have "tracks ?u xs zs" using v(2) by (simp add: tracks_def)
  moreover have "took s ys zs a ?u" using v(3) l by (simp add: took_def flags_def)
  ultimately show thesis by (rule that)
qed

text \<open>The assignments to an object that is in neither list.\<close>

lemma trace_fill_ok:
  assumes "nodes s a = Some x" and "depth s = 1"
  shows "\<exists>y. trace_fill e a p n s = Some (s\<lparr>nodes := (nodes s)(a \<mapsto> y)\<rparr>) \<and>
    entry y = (p, n, take MAX_BACKTRACE_LEN (backtrace e))"
  using assms
  by (intro exI [of _ "x\<lparr>alloc_mem := p, alloc_size := n, trace := take MAX_BACKTRACE_LEN (backtrace e)\<rparr>"])
    (simp add: trace_fill_def entry_def)

lemma tracks_fill: "tracks s xs ys \<Longrightarrow> a \<notin> set xs \<union> set ys \<Longrightarrow> tracks (s\<lparr>nodes := (nodes s)(a \<mapsto> y)\<rparr>) xs ys"
  by (simp add: tracks_def batch_ok_upd link_simps)

lemma trace_link_ok:
  assumes t: "tracks s xs ys" and a: "a \<notin> set xs \<union> set ys" "a < limit s" "nodes s a = Some x"
    and "\<not> allocs_lock s"
  shows "\<exists>u. trace_link a s = Some u \<and> tracks u (a # xs) ys \<and>
    entries (nodes u) (a # xs) = entry x # entries (nodes s) xs \<and> flags u = flags s \<and> \<not> allocs_lock u \<and>
    alloc_count_total u = alloc_count_total s + 1 \<and> limit u = limit s \<and>
    nodes u = (nodes s)(a \<mapsto> set_next_alloc (allocs s) x)"
proof -
  define u where "u = s\<lparr>nodes := (nodes s)(a \<mapsto> set_next_alloc (allocs s) x), allocs := Some a,
    alloc_count := alloc_count s + 1, alloc_count_total := alloc_count_total s + 1, allocs_lock := False\<rparr>"
  have "sll next_alloc (nodes u) (allocs u) (a # xs) None" "sll next_alloc (nodes u) (alloc_pool u) ys None"
    using t a by (simp_all add: tracks_def u_def link_simps)
  moreover have "batch_ok u" using t by (simp add: tracks_def u_def batch_ok_upd)
  moreover have "limit u = limit s" by (simp add: u_def)
  ultimately have "tracks u (a # xs) ys" using t a by (simp add: tracks_def) (simp add: u_def)
  moreover have "trace_link a s = Some u" using assms(4,5) by (simp add: trace_link_def u_def)
  ultimately show ?thesis using a by (simp add: u_def flags_def entry_def)
qed

lemma alloc_trace_new_ok:
  assumes t: "tracked s L" and m: "mmap_ok e" and o: "outermost s" and "\<not> alloc_is_static p s"
  shows "\<exists>u. alloc_trace_new e p n s = Some u \<and>
    tracked u ((p, n, take MAX_BACKTRACE_LEN (backtrace e)) # L) \<and> flags u = flags s \<and>
    \<not> allocs_lock u \<and> alloc_count_total u = alloc_count_total s + 1"
proof -
  from t obtain xs ys where xs: "tracks s xs ys" "L = entries (nodes s) xs"
    by (auto simp: tracked_def)
  from o have l: "\<not> allocs_lock s" by (simp add: outermost_def)
  obtain a v zs where v: "trace_take e s = Some (a, v)" "tracks v xs zs" "took s ys zs a v"
    by (rule trace_take_ok [OF xs(1) m l])
  then obtain x where x: "nodes v a = Some x" "a < limit v" "flags v = flags s" "\<not> allocs_lock v"
      "alloc_count_total v = alloc_count_total s"
    using l by (auto simp: took_def)
  note fresh = took_fresh [OF xs(1) v(3)]
  from x(3) o have "depth v = 1" by (simp add: flags_def outermost_def)
  from trace_fill_ok [OF x(1) this] obtain y where
    y: "trace_fill e a p n v = Some (v\<lparr>nodes := (nodes v)(a \<mapsto> y)\<rparr>)"
      "entry y = (p, n, take MAX_BACKTRACE_LEN (backtrace e))" by blast
  let ?w = "v\<lparr>nodes := (nodes v)(a \<mapsto> y)\<rparr>"
  from trace_link_ok [OF tracks_fill [OF v(2) fresh, of y] fresh, of y] x(2,4) fresh obtain u where
    u: "trace_link a ?w = Some u" "tracks u (a # xs) zs"
      "entries (nodes u) (a # xs) = entry y # entries (nodes v) xs" "flags u = flags ?w"
      "\<not> allocs_lock u" "alloc_count_total u = alloc_count_total v + 1"
    by auto
  have "alloc_trace_new e p n s = Some u"
    using assms(4) o v(1) y(1) u(1) by (simp add: alloc_trace_new_def outermost_def)
  moreover have "tracked u ((p, n, take MAX_BACKTRACE_LEN (backtrace e)) # L)"
    using u(2,3) y(2) took_entries [OF xs(1) v(3)] xs(2) unfolding tracked_def by metis
  ultimately show ?thesis using u(4-6) x(3,5) by (simp add: flags_def)
qed

text \<open>Unlinking from the tracked list and pushing to the pool.\<close>

definition unlinked :: "addr list \<Rightarrow> addr \<Rightarrow> allocation \<Rightarrow> tracker \<Rightarrow> tracker" where
  "unlinked us a x s =
     (case last_ptr None us of None \<Rightarrow> s\<lparr>allocs := next_alloc x\<rparr>
      | Some b \<Rightarrow> s\<lparr>nodes := (nodes s)(b \<mapsto> set_next_alloc (next_alloc x) (the (nodes s b)))\<rparr>)"

lemma unlinked_ok:
  assumes "sll next_alloc (nodes s) (allocs s) (us @ a # vs) None" and "nodes s a = Some x"
  defines "v \<equiv> unlinked us a x s"
  shows "sll next_alloc (nodes v) (allocs v) (us @ vs) None \<and>
    (\<forall>zs. entries (nodes v) zs = entries (nodes s) zs) \<and>
    (\<forall>c. c \<notin> set us \<longrightarrow> nodes v c = nodes s c) \<and>
    (batch_ok s \<longrightarrow> batch_ok v) \<and> limit v = limit s \<and> flags v = flags s \<and>
    allocs_lock v = allocs_lock s \<and> alloc_pool v = alloc_pool s \<and>
    alloc_count v = alloc_count s \<and> alloc_count_total v = alloc_count_total s"
proof (cases us rule: rev_cases)
  case Nil
  with assms show ?thesis by (simp add: unlinked_def flags_def)
next
  case (snoc ws b)
  from assms(1) have d: "distinct (us @ a # vs)" by (rule sll_distinct)
  from assms(1) snoc obtain m where m: "nodes s b = Some m"
    by (auto dest: sll_live [where a = b])
  from al.sll_unlink [of "nodes s" "allocs s" ws b a vs None, OF _ _ assms(2) m] assms(1) d snoc
  have "sll next_alloc ((nodes s)(b \<mapsto> set_next_alloc (next_alloc x) m)) (allocs s) (us @ vs) None"
    by simp
  with snoc m show ?thesis by (simp add: v_def unlinked_def flags_def entries_relink batch_ok_upd)
qed

text \<open>The state when the object \<open>a\<close> behind \<open>us\<close> has gone to the pool.\<close>

definition released :: "addr list \<Rightarrow> addr \<Rightarrow> allocation \<Rightarrow> tracker \<Rightarrow> tracker" where
  "released us a x s = (let v = unlinked us a x s in
     v\<lparr>nodes := (nodes v)(a \<mapsto> set_next_alloc (alloc_pool v) x), alloc_pool := Some a,
       alloc_count := alloc_count v - 1, allocs_lock := False\<rparr>)"

lemma released_ok:
  assumes t: "tracks s (us @ a # vs) ys" and x: "nodes s a = Some x"
  defines "u \<equiv> released us a x s"
  shows "tracks u (us @ vs) (a # ys) \<and> entries (nodes u) (us @ vs) = entries (nodes s) (us @ vs) \<and>
    flags u = flags s \<and> \<not> allocs_lock u \<and> alloc_count_total u = alloc_count_total s"
proof -
  define v where "v = unlinked us a x s"
  have u: "u = v\<lparr>nodes := (nodes v)(a \<mapsto> set_next_alloc (alloc_pool v) x), alloc_pool := Some a,
      alloc_count := alloc_count v - 1, allocs_lock := False\<rparr>"
    by (simp add: u_def v_def released_def Let_def)
  from t have sl: "sll next_alloc (nodes s) (allocs s) (us @ a # vs) None" by (simp add: tracks_def)
  then have d: "distinct (us @ a # vs)" by (rule sll_distinct)
  note v = unlinked_ok [OF sl x, folded v_def]
  have ys: "a \<notin> set ys" "set us \<inter> set ys = {}" "set vs \<inter> set ys = {}"
    using t by (auto simp: tracks_def)
  then have "map_option next_alloc (nodes v c) = map_option next_alloc (nodes s c)" if "c \<in> set ys" for c
    using that v by auto
  from sll_cong [OF this] have "sll next_alloc (nodes v) (alloc_pool v) ys None"
    using t v by (simp add: tracks_def)
  then have "sll next_alloc (nodes u) (alloc_pool u) (a # ys) None"
    using ys by (simp add: u link_simps)
  moreover have "sll next_alloc (nodes u) (allocs u) (us @ vs) None"
    using v d by (simp add: u link_simps)
  moreover have "batch_ok u" using v t by (simp add: tracks_def u batch_ok_upd)
  moreover have "limit u = limit s" using v by (simp add: u)
  moreover have "alloc_count u = int (length (us @ vs))" using v t by (simp add: tracks_def u)
  ultimately have "tracks u (us @ vs) (a # ys)" using t ys d by (auto simp: tracks_def)
  with v d show ?thesis by (simp add: u flags_def)
qed

lemma alloc_free_released:
  assumes t: "tracks s (us @ a # vs) ys" and x: "nodes s a = Some x" and "outermost s"
    and "\<not> alloc_is_static p s" and "alloc_mem x = p" and "p \<notin> fst ` set (entries (nodes s) us)"
  shows "alloc_free p s = Some (released us a x (s\<lparr>allocs_lock := True\<rparr>))"
proof -
  define s1 where "s1 = s\<lparr>allocs_lock := True\<rparr>"
  define v where "v = unlinked us a x s1"
  have s1: "sll next_alloc (nodes s1) (allocs s1) (us @ a # vs) None" "nodes s1 a = Some x"
    using t x by (simp_all add: s1_def tracks_def)
  then have d: "distinct (us @ a # vs)" by (blast dest: sll_distinct)
  note v = unlinked_ok [OF s1, folded v_def]
  have "find_alloc p (allocs s1) None s1 = Some (Some (a, last_ptr None us))"
    using find_alloc_Some [OF s1(1), of p None] assms(5,6) x by (simp add: s1_def entry_def)
  moreover have "(case last_ptr None us of None \<Rightarrow> Some (s1\<lparr>allocs := next_alloc x\<rparr>)
      | Some b \<Rightarrow> upd_node b (\<lambda>y. y\<lparr>next_alloc := next_alloc x\<rparr>) s1) = Some v"
  proof (cases us rule: rev_cases)
    case (snoc ws b)
    with s1(1) obtain m where "nodes s1 b = Some m" by (auto dest: sll_live [where a = b])
    with snoc show ?thesis by (simp add: v_def unlinked_def)
  qed (simp add: v_def unlinked_def)
  moreover have "alloc_count v - 1 \<ge> 0" "allocs_lock v" using v t by (simp_all add: tracks_def s1_def)
  moreover have "nodes v a = Some x" using v s1(2) d by simp
  ultimately show ?thesis
    using assms(3,4) s1(2) by (simp add: alloc_free_def outermost_def released_def flip: s1_def v_def)
qed

lemma released_frame:
  assumes t: "tracks s (us @ a # vs) ys" and x: "nodes s a = Some x"
  shows "limit (released us a x s) = limit s \<and>
    (\<forall>b. b \<notin> set (us @ a # vs) \<longrightarrow> nodes (released us a x s) b = nodes s b)"
proof -
  from t have "sll next_alloc (nodes s) (allocs s) (us @ a # vs) None" by (simp add: tracks_def)
  from unlinked_ok [OF this x] show ?thesis by (simp add: released_def Let_def)
qed

lemma alloc_free_tracks:
  assumes t: "tracks s xs ys" and r: "remove_entry p (entries (nodes s) xs) = Some L"
    and o: "outermost s" and n: "\<not> alloc_is_static p s"
  obtains u zs a where "alloc_free p s = Some u" "tracks u zs (a # ys)" "entries (nodes u) zs = L"
    "set xs = insert a (set zs)" "flags u = flags s" "\<not> allocs_lock u"
    "alloc_count_total u = alloc_count_total s" "limit u = limit s"
    "\<forall>b. b \<notin> set xs \<longrightarrow> nodes u b = nodes s b"
proof -
  from r obtain L1 en L2 where L: "entries (nodes s) xs = L1 @ en # L2" "L = L1 @ L2" "fst en = p"
      "p \<notin> fst ` set L1"
    by (rule remove_entry_SomeE)
  from L(1) obtain us a vs where us: "xs = us @ a # vs" "entries (nodes s) us = L1"
      "entry (the (nodes s a)) = en" "entries (nodes s) vs = L2"
    by (auto simp: entries_def map_eq_append_conv map_eq_Cons_conv)
  from t us(1) obtain x where x: "nodes s a = Some x"
    by (auto simp: tracks_def dest: sll_live [where a = a])
  let ?s = "s\<lparr>allocs_lock := True\<rparr>" let ?u = "released us a x ?s"
  have "alloc_free p s = Some ?u"
    using t us L x o n by (intro alloc_free_released) (auto simp: entry_def)
  moreover have s: "tracks ?s (us @ a # vs) ys" using t us(1) by (simp add: tracks_def)
  ultimately show thesis
    using that [of ?u "us @ vs" a] released_ok [OF s, of x] released_frame [OF s, of x] us L x
    by (simp add: flags_def)
qed

lemma alloc_free_ok:
  assumes t: "tracked s L" and r: "remove_entry p L = Some L'" and o: "outermost s"
    and n: "\<not> alloc_is_static p s"
  shows "\<exists>u. alloc_free p s = Some u \<and> tracked u L' \<and> flags u = flags s \<and>
    \<not> allocs_lock u \<and> alloc_count_total u = alloc_count_total s"
proof -
  from t obtain xs ys where xs: "tracks s xs ys" "L = entries (nodes s) xs"
    by (auto simp: tracked_def)
  with alloc_free_tracks [OF xs(1), of p L'] r o n show ?thesis unfolding tracked_def by metis
qed

lemma alloc_free_unknown:
  assumes "tracked s L" and "remove_entry p L = None" and "outermost s" and "\<not> alloc_is_static p s"
  shows "alloc_free p s = None"
proof -
  from assms(1) obtain xs ys where "tracks s xs ys" "L = entries (nodes s) xs"
    by (auto simp: tracked_def)
  then have "find_alloc p (allocs s) None (s\<lparr>allocs_lock := True\<rparr>) = Some None"
    using assms(2) by (intro find_alloc_None [of _ _ xs]) (simp_all add: tracks_def remove_entry_None)
  with assms(3,4) show ?thesis by (simp add: alloc_free_def outermost_def)
qed

end
