(* ===== verification/HeapCalls.thy ===== *)
theory HeapCalls
  imports HeapInvariant
begin

section \<open>Every replaced function on the list of tracked allocations\<close>

text \<open>
  The replaced functions as calls of a program, and what each of them does to the list of
  what is tracked (\<open>spec_call\<close>): it records the block that the original function returned,
  drops the entry of the block that is freed, or aborts. The lemmas take one call apart:
  the initialisation, the calls that come back from the original functions, and the two
  changes of the list.
\<close>

subsection \<open>Calls\<close>

datatype call =
    Malloc nat mem
  | Calloc nat nat mem
  | Realloc mem nat mem
  | Free mem
  | Strdup mem nat mem
  | Getline mem mem nat
  | Getaddrinfo int mem
  | Freeaddrinfo mem

definition exec :: "env \<Rightarrow> call \<Rightarrow> tracker \<Rightarrow> tracker option" where
  "exec e c s = (case c of
       Malloc n res \<Rightarrow> map_option snd (hh_malloc e n res s)
     | Calloc num n res \<Rightarrow> map_option snd (hh_calloc e num n res s)
     | Realloc p n res \<Rightarrow> map_option snd (hh_realloc e p n res s)
     | Free p \<Rightarrow> hh_free e p s
     | Strdup p len res \<Rightarrow> map_option snd (hh_strdup e p len res s)
     | Getline old line len \<Rightarrow> hh_getline e old line len s
     | Getaddrinfo rc res \<Rightarrow> map_option snd (hh_getaddrinfo e rc res s)
     | Freeaddrinfo p \<Rightarrow> hh_freeaddrinfo e p s)"

fun call_ptrs :: "call \<Rightarrow> mem list" where
  "call_ptrs (Malloc n res) = [res]"
| "call_ptrs (Calloc num n res) = [res]"
| "call_ptrs (Realloc p n res) = [p, res]"
| "call_ptrs (Free p) = [p]"
| "call_ptrs (Strdup p len res) = [p, res]"
| "call_ptrs (Getline old line len) = [old, line]"
| "call_ptrs (Getaddrinfo rc res) = [res]"
| "call_ptrs (Freeaddrinfo p) = [p]"

subsection \<open>What a call does to the list\<close>

text \<open>\<open>ex\<close>: the report at exit has begun, and nothing is tracked any more.\<close>

definition added :: "env \<Rightarrow> bool \<Rightarrow> mem \<Rightarrow> nat \<Rightarrow> entry list \<Rightarrow> entry list" where
  "added e ex p n L =
     (if p = 0 \<or> ex then L else (p, n, take MAX_BACKTRACE_LEN (backtrace e)) # L)"

definition removed :: "bool \<Rightarrow> mem \<Rightarrow> entry list \<Rightarrow> entry list option" where
  "removed ex p L = (if ex then Some L else remove_entry p L)"

fun spec_call :: "env \<Rightarrow> bool \<Rightarrow> call \<Rightarrow> entry list \<Rightarrow> entry list option" where
  "spec_call e ex (Malloc n res) L = Some (added e ex res n L)"
| "spec_call e ex (Calloc num n res) L = Some (added e ex res (num * n mod 2 ^ 64) L)"
| "spec_call e ex (Realloc p n res) L =
     (if p = 0 then Some (added e ex res n L)
      else if res = p then Some L
      else map_option (added e ex res n) (removed ex p L))"
| "spec_call e ex (Free p) L = (if p = 0 then Some L else removed ex p L)"
| "spec_call e ex (Strdup p len res) L = (if ex then None else Some (added e ex res (len + 1) L))"
| "spec_call e ex (Getline old line len) L =
     (if line = old then Some L
      else if line = 0 then None
      else if old = 0 then Some (added e ex line (len + 1) L)
      else map_option (added e ex line (len + 1)) (removed ex old L))"
| "spec_call e ex (Getaddrinfo rc res) L =
     Some (if rc = 0 then added e ex res SIZEOF_ADDRINFO L else L)"
| "spec_call e ex (Freeaddrinfo p) L = (if p = 0 then Some L else removed ex p L)"

subsection \<open>Between two calls and inside one\<close>

definition static_ok :: "tracker \<Rightarrow> bool" where
  "static_ok s \<longleftrightarrow> static_size s = (if static_buf s = 0 then 0 else 16 * 1024)"

definition idle :: "tracker \<Rightarrow> bool" where
  "idle s \<longleftrightarrow> \<not> allocs_lock s \<and> \<not> init_lock s \<and> init_lock_count s = 0 \<and> depth s = 0 \<and>
     is_init_done s = libc s \<and> handler_registered s = is_init_done s \<and>
     (\<not> is_init_done s \<longrightarrow> \<not> is_exit_done s \<and> static_buf s = 0 \<and> static_used s = 0) \<and> static_ok s"

definition inside :: "tracker \<Rightarrow> bool" where
  "inside s \<longleftrightarrow> \<not> allocs_lock s \<and> \<not> init_lock s \<and> init_lock_count s = 0 \<and> depth s = 1 \<and>
     is_init_done s \<and> libc s \<and> handler_registered s \<and> static_ok s"

text \<open>Nothing but the tracked list and the total count has changed.\<close>

definition stays :: "tracker \<Rightarrow> tracker \<Rightarrow> bool" where
  "stays s u \<longleftrightarrow> flags u = flags s \<and> \<not> allocs_lock u"

lemma idle_start: "idle tracker_start"
  by (simp add: idle_def tracker_start_def static_ok_def)

lemma inside_enter: "idle s \<Longrightarrow> is_init_done s \<Longrightarrow> inside (enter s)"
  by (simp add: idle_def inside_def enter_def static_ok_def)

lemma idle_leave: "inside s \<Longrightarrow> idle (leave s)"
  by (simp add: idle_def inside_def leave_def static_ok_def)

lemma inside_stays: "inside s \<Longrightarrow> stays s u \<Longrightarrow> inside u"
  by (auto simp: stays_def inside_def flags_def static_ok_def)

lemma stays_refl: "inside s \<Longrightarrow> stays s s"
  by (simp add: stays_def inside_def)

lemma stays_trans: "stays s u \<Longrightarrow> stays u v \<Longrightarrow> stays s v"
  by (simp add: stays_def)

lemma stays_static: "stays s u \<Longrightarrow> alloc_is_static p u = alloc_is_static p s"
  by (simp add: stays_def flags_def alloc_is_static_def)

lemma stays_exit: "stays s u \<Longrightarrow> is_exit_done u = is_exit_done s"
  by (simp add: stays_def flags_def)

lemma tracked_enter [simp]: "tracked (enter s) L = tracked s L"
  by (rule tracked_cong) (simp_all add: enter_def)

lemma enter_simps [simp]:
  "alloc_is_static p (enter s) = alloc_is_static p s"
  "is_exit_done (enter s) = is_exit_done s" "libc (enter s) = libc s"
  "is_init_done (enter s) = is_init_done s" "static_buf (enter s) = static_buf s"
  "static_size (enter s) = static_size s" "static_used (enter s) = static_used s"
  "init_lock (enter s) = init_lock s"
  by (simp_all add: enter_def alloc_is_static_def)

lemma tracked_leave [simp]: "tracked (leave s) L = tracked s L"
  by (rule tracked_cong) (simp_all add: leave_def)

lemma leave_simps [simp]:
  "alloc_is_static p (leave s) = alloc_is_static p s"
  "is_exit_done (leave s) = is_exit_done s" "libc (leave s) = libc s"
  "is_init_done (leave s) = is_init_done s" "static_buf (leave s) = static_buf s"
  "static_size (leave s) = static_size s" "static_used (leave s) = static_used s"
  "init_lock (leave s) = init_lock s"
  by (simp_all add: leave_def alloc_is_static_def)

lemma leave_enter [simp]: "leave (enter s) = s"
  by (simp add: leave_def enter_def)

lemma depth_enter [simp]: "depth (enter s) = depth s + 1"
  by (simp add: enter_def)

subsection \<open>Calls that come back\<close>

text \<open>Inside another call nothing is tracked: this is what \<open>depth\<close> is for.\<close>

lemma inner_nested:
  assumes "libc s" and "depth s > 0"
  shows "inner e c s = Some s"
proof -
  have new: "alloc_trace_new e p n (enter s) = Some (enter s)" for p n
    using assms by (simp add: alloc_trace_new_def)
  have free: "alloc_free p (enter s) = Some (enter s)" for p
    using assms by (simp add: alloc_free_def)
  show ?thesis
    using assms by (cases c) (simp_all add: inner_def malloc_body_def calloc_body_def free_body_def new free Let_def)
qed

lemma original_nested: "inside s \<Longrightarrow> original e s = Some s"
proof -
  assume "inside s"
  then have "inner e c s = Some s" for c by (simp add: inner_nested inside_def)
  then have "for_each cs (inner e) s = Some s" for cs by (induction cs) simp_all
  with \<open>inside s\<close> show ?thesis by (simp add: original_def inside_def)
qed

subsection \<open>The initialisation\<close>

text \<open>
  While the original functions are looked up, memory comes from the static buffer: the calls
  that \<open>dlsym\<close> makes back must fit there, and free only what they got.
\<close>

fun call_size :: "inner_call \<Rightarrow> nat" where
  "call_size (InnerMalloc n res) = n"
| "call_size (InnerCalloc num n res) = n * num mod 2 ^ 64"
| "call_size (InnerFree p) = 0"

fun is_alloc :: "inner_call \<Rightarrow> bool" where
  "is_alloc (InnerFree p) = False"
| "is_alloc _ = True"

definition call_ok :: "env \<Rightarrow> bool \<Rightarrow> inner_call \<Rightarrow> bool" where
  "call_ok e got c = (case c of
       InnerFree p \<Rightarrow> p = 0 \<or> got \<and> mmap_static e \<le> p \<and> p \<le> mmap_static e + 16 * 1024
     | _ \<Rightarrow> True)"

fun calls_fit :: "env \<Rightarrow> bool \<Rightarrow> nat \<Rightarrow> inner_call list \<Rightarrow> bool" where
  "calls_fit e got k [] = True"
| "calls_fit e got k (c # cs) \<longleftrightarrow> call_ok e got c \<and> k + call_size c < 16 * 1024 \<and>
     calls_fit e (got \<or> is_alloc c) (k + call_size c) cs"

definition dlsym_fits :: "env \<Rightarrow> bool" where
  "dlsym_fits e \<longleftrightarrow> mmap_ok e \<and> 0 < mmap_static e \<and> calls_fit e False 0 (dlsym_calls e)"

text \<open>The state after some of these calls, \<open>k\<close> bytes being used.\<close>

definition looking :: "env \<Rightarrow> tracker \<Rightarrow> bool \<Rightarrow> nat \<Rightarrow> tracker" where
  "looking e w got k = (if got then w\<lparr>static_size := 16 * 1024, static_buf := mmap_static e,
     static_used := k\<rparr> else w)"

text \<open>When it starts.\<close>

definition probing :: "tracker \<Rightarrow> bool" where
  "probing w \<longleftrightarrow> init_lock w \<and> \<not> is_init_done w \<and> \<not> libc w \<and> static_buf w = 0 \<and> static_used w = 0"

lemma static_malloc_looking:
  assumes "probing w" and "mmap_ok e" and "0 < mmap_static e" and "k + n < 16 * 1024"
    and "\<not> got \<longrightarrow> k = 0"
  shows "static_malloc e n (enter (looking e w got k)) =
    Some (mmap_static e + k, enter (looking e w True (k + n)))"
proof -
  let ?s = "enter (looking e w got k)"
  let ?u = "?s\<lparr>static_size := 16 * 1024, static_buf := mmap_static e\<rparr>"
  have "static_allocator_touch e ?s = Some ?u"
    using assms(1-3) by (cases got) (simp_all add: static_allocator_touch_def looking_def probing_def enter_def)
  moreover have "n < static_size ?u - static_used ?u" "static_used ?u \<le> static_size ?u"
      "static_used ?u = k"
    using assms(1,4,5) by (auto simp: looking_def probing_def)
  moreover have "?u\<lparr>static_used := k + n\<rparr> = enter (looking e w True (k + n))"
    by (rule tracker.equality) (simp_all add: looking_def enter_def)
  ultimately show ?thesis
    using assms(1) by (simp add: static_malloc_def) (simp add: looking_def probing_def)
qed

lemma trace_new_looking:
  "0 < mmap_static e \<Longrightarrow> k \<le> 16 * 1024 \<Longrightarrow>
   alloc_trace_new e (mmap_static e + k) n (enter (looking e w True m)) =
     Some (enter (looking e w True m))"
  by (simp add: alloc_trace_new_def alloc_is_static_def looking_def)

lemma inner_looking:
  assumes "probing w" and "mmap_ok e" and "0 < mmap_static e" and "k + call_size c < 16 * 1024"
    and "\<not> got \<longrightarrow> k = 0" and "call_ok e got c"
  shows "inner e c (looking e w got k) =
    Some (looking e w (got \<or> is_alloc c) (k + call_size c))"
proof -
  have l: "\<not> libc (enter (looking e w got k))" using assms(1) by (simp add: looking_def probing_def)
  show ?thesis
  proof (cases c)
    case (InnerMalloc n res)
    with assms l show ?thesis
      by (simp add: inner_def malloc_body_def static_malloc_looking trace_new_looking)
  next
    case (InnerCalloc num n res)
    with assms l show ?thesis
      by (simp add: inner_def calloc_body_def static_calloc_def static_malloc_looking trace_new_looking)
  next
    case (InnerFree p)
    with assms(6) have "p = 0 \<or> alloc_is_static p (looking e w got k)"
      by (auto simp: call_ok_def alloc_is_static_def looking_def)
    with InnerFree show ?thesis by (auto simp: inner_def)
  qed
qed

lemma calls_looking:
  assumes "probing w" and "mmap_ok e" and "0 < mmap_static e"
    and "calls_fit e got k cs" and "\<not> got \<longrightarrow> k = 0"
  shows "\<exists>got' k'. for_each cs (inner e) (looking e w got k) = Some (looking e w got' k') \<and>
    (got' \<longrightarrow> got \<or> cs \<noteq> [])"
  using assms(4,5)
proof (induction cs arbitrary: got k)
  case (Cons c cs)
  moreover have "\<not> (got \<or> is_alloc c) \<longrightarrow> k + call_size c = 0" using Cons.prems by (cases c) auto
  ultimately show ?case using inner_looking [OF assms(1-3), of k c got] by fastforce
qed auto

text \<open>Addresses the static buffer does not have, or will not have.\<close>

definition away :: "env \<Rightarrow> tracker \<Rightarrow> mem \<Rightarrow> bool" where
  "away e s p \<longleftrightarrow> \<not> alloc_is_static p s \<and>
     (is_init_done s \<or> p = 0 \<or> p < mmap_static e \<or> mmap_static e + 16 * 1024 < p)"

lemma heaph_touch_ok:
  assumes i: "idle s" and t: "tracked s L" and f: "is_init_done s \<or> dlsym_fits e"
  shows "\<exists>u. heaph_touch e s = Some u \<and> idle u \<and> is_init_done u \<and> tracked u L \<and>
    is_exit_done u = is_exit_done s \<and>
    (static_buf u = static_buf s \<or> \<not> is_init_done s \<and> static_buf u = mmap_static e) \<and>
    (\<forall>p. away e s p \<longrightarrow> \<not> alloc_is_static p u)"
proof (cases "is_init_done s")
  case True
  with i t show ?thesis by (simp add: heaph_touch_def away_def)
next
  case False
  define w where "w = s\<lparr>init_lock := True, init_lock_count := 1, libc := False\<rparr>"
  have w: "probing w" using False i by (simp add: w_def probing_def idle_def)
  from calls_looking [OF w, of e False 0 "dlsym_calls e"] f False
  obtain got k where k: "for_each (dlsym_calls e) (inner e) w = Some (looking e w got k)"
    by (auto simp: dlsym_fits_def looking_def)
  let ?v = "looking e w got k"
  define u where "u = (case hhreport e of None \<Rightarrow> ?v\<lparr>libc := True\<rparr>
      | Some x \<Rightarrow> ?v\<lparr>libc := True, mode := report_mode_of x (mode s)\<rparr>)
    \<lparr>handler_registered := True, is_init_done := True, init_lock_count := 0, init_lock := False\<rparr>"
  have v: "init_lock_count ?v = 1" "init_lock ?v" "\<not> is_init_done ?v" "mode ?v = mode s"
    using False by (simp_all add: looking_def w_def)
  have "heaph_touch e s = Some u"
    using False i k v
    by (cases "hhreport e")
      (simp_all add: heaph_touch_def heaph_lock_def heaph_init_def heaph_unlock_def idle_def
        u_def Let_def flip: w_def)
  moreover have "tracked u L"
    using t by (subst tracked_cong [of u s]) (simp_all add: u_def looking_def w_def split: option.split)
  moreover have "idle u"
    using i f False by (simp add: idle_def u_def looking_def w_def static_ok_def dlsym_fits_def split: option.split)
  moreover have "\<not> alloc_is_static p u" if "away e s p" for p
    using that False
    by (auto simp: away_def alloc_is_static_def u_def looking_def w_def split: option.splits if_splits)
  ultimately show ?thesis using False by (simp add: u_def looking_def w_def split: option.split)
qed

subsection \<open>The two changes of the list\<close>

text \<open>\<open>gives s M r\<close>: from \<open>s\<close>, the code yields \<open>r\<close>, which is as the list \<open>M\<close> says.\<close>

definition gives :: "tracker \<Rightarrow> entry list option \<Rightarrow> tracker option \<Rightarrow> bool" where
  "gives s M r \<longleftrightarrow>
     (case M of None \<Rightarrow> r = None | Some L \<Rightarrow> \<exists>u. r = Some u \<and> tracked u L \<and> stays s u)"

lemma gives_same: "inside s \<Longrightarrow> tracked s L \<Longrightarrow> gives s (Some L) (Some s)"
  by (simp add: gives_def stays_refl)

lemma inside_outermost: "inside s \<Longrightarrow> \<not> is_exit_done s \<Longrightarrow> outermost s"
  by (simp add: inside_def outermost_def)

lemma gives_new:
  assumes "inside s" and "tracked s L" and "mmap_ok e" and "\<not> alloc_is_static p s"
  shows "gives s (Some (added e (is_exit_done s) p n L))
    (if p \<noteq> 0 then alloc_trace_new e p n s else Some s)"
proof (cases "p = 0 \<or> is_exit_done s")
  case True
  with assms show ?thesis
    by (auto simp: gives_def added_def stays_refl alloc_trace_new_def inside_def)
next
  case False
  with alloc_trace_new_ok [OF assms(2,3) inside_outermost assms(4)] assms(1) show ?thesis
    by (simp add: gives_def added_def stays_def) blast
qed

lemma gives_free:
  assumes "inside s" and "tracked s L" and "\<not> alloc_is_static p s"
  shows "gives s (removed (is_exit_done s) p L) (alloc_free p s)"
proof (cases "is_exit_done s")
  case True
  with assms show ?thesis
    by (simp add: gives_def removed_def stays_refl alloc_free_def inside_def)
next
  case False
  with assms(1) have o: "outermost s" by (simp add: inside_outermost)
  show ?thesis
  proof (cases "remove_entry p L")
    case None
    with alloc_free_unknown [OF assms(2) _ o assms(3)] False show ?thesis
      by (simp add: gives_def removed_def)
  next
    case (Some M)
    with alloc_free_ok [OF assms(2) _ o assms(3), of M] False show ?thesis
      by (simp add: gives_def removed_def stays_def) blast
  qed
qed

text \<open>A block is freed and another one recorded.\<close>

lemma gives_move:
  assumes "inside s" and "tracked s L" and "mmap_ok e"
    and "\<not> alloc_is_static p s" and "\<not> alloc_is_static q s"
  shows "gives s (map_option (added e (is_exit_done s) q n) (removed (is_exit_done s) p L))
    (alloc_free p s \<bind> (\<lambda>u. if q \<noteq> 0 then alloc_trace_new e q n u else Some u))"
proof (cases "removed (is_exit_done s) p L")
  case None
  with gives_free [OF assms(1,2,4)] show ?thesis by (simp add: gives_def)
next
  case (Some M)
  with gives_free [OF assms(1,2,4)] obtain u where u: "alloc_free p s = Some u" "tracked u M" "stays s u"
    by (auto simp: gives_def)
  with assms have "gives u (Some (added e (is_exit_done u) q n M))
      (if q \<noteq> 0 then alloc_trace_new e q n u else Some u)"
    by (intro gives_new) (simp_all add: inside_stays stays_static)
  with u Some show ?thesis by (auto simp: gives_def stays_exit intro: stays_trans)
qed

subsection \<open>Calls refine their specification\<close>

text \<open>How a whole call ends: aborted, or idle again with the list as specified.\<close>

definition outcome :: "env \<Rightarrow> tracker \<Rightarrow> entry list option \<Rightarrow> tracker option \<Rightarrow> bool" where
  "outcome e s M r \<longleftrightarrow> (case M of None \<Rightarrow> r = None
     | Some L \<Rightarrow> \<exists>u. r = Some u \<and> idle u \<and> tracked u L \<and> is_exit_done u = is_exit_done s \<and>
         (is_init_done s \<longrightarrow> is_init_done u) \<and>
         (static_buf u = static_buf s \<or> \<not> is_init_done s \<and> static_buf u = mmap_static e))"

lemma outcome_call:
  assumes "gives (enter v) M r" and "idle v" and "is_init_done v" and "is_exit_done v = is_exit_done s"
    and "static_buf v = static_buf s \<or> \<not> is_init_done s \<and> static_buf v = mmap_static e"
  shows "outcome e s M (r \<bind> (\<lambda>u. Some (leave u)))"
proof (cases M)
  case None
  with assms(1) show ?thesis by (simp add: gives_def outcome_def)
next
  case (Some L)
  with assms(1) obtain u where u: "r = Some u" "tracked u L" "stays (enter v) u"
    by (auto simp: gives_def)
  with assms(2,3) have "inside u" by (blast intro: inside_stays inside_enter)
  moreover from u(3) have "static_buf u = static_buf v" "is_init_done u" "is_exit_done u = is_exit_done v"
    using assms(3) by (simp_all add: stays_def flags_def)
  ultimately show ?thesis using u Some assms(4,5) by (simp add: outcome_def idle_leave)
qed

text \<open>A call that does nothing to the tracker.\<close>

lemma outcome_skip: "idle s \<Longrightarrow> tracked s L \<Longrightarrow> outcome e s (Some L) (Some s)"
  by (simp add: outcome_def)

text \<open>What is left of each function after \<open>heaph_touch\<close>.\<close>

definition call_body :: "env \<Rightarrow> call \<Rightarrow> tracker \<Rightarrow> tracker option" where
  "call_body e c v = (case c of
       Malloc n res \<Rightarrow> (if res \<noteq> 0 then alloc_trace_new e res n v else Some v)
     | Calloc num n res \<Rightarrow> (if res \<noteq> 0 then alloc_trace_new e res (num * n mod 2 ^ 64) v else Some v)
     | Realloc p n res \<Rightarrow>
         if p = 0 then (if res \<noteq> 0 then alloc_trace_new e res n v else Some v)
         else if res = p then Some v
         else alloc_free p v \<bind> (\<lambda>u. if res \<noteq> 0 then alloc_trace_new e res n u else Some u)
     | Free p \<Rightarrow> alloc_free p v
     | Strdup p len res \<Rightarrow>
         if is_exit_done v then None
         else if res \<noteq> 0 then alloc_trace_new e res (len + 1) v else Some v
     | Getline old line len \<Rightarrow>
         if line = old then Some v
         else if line = 0 then None
         else if old = 0 then (if line \<noteq> 0 then alloc_trace_new e line (len + 1) v else Some v)
         else alloc_free old v \<bind> (\<lambda>u. if line \<noteq> 0 then alloc_trace_new e line (len + 1) u else Some u)
     | Getaddrinfo rc res \<Rightarrow>
         if rc = 0 then (if res \<noteq> 0 then alloc_trace_new e res SIZEOF_ADDRINFO v else Some v) else Some v
     | Freeaddrinfo p \<Rightarrow> alloc_free p v)"

definition skips :: "call \<Rightarrow> bool" where
  "skips c \<longleftrightarrow> c = Free 0 \<or> c = Freeaddrinfo 0"

lemma body_gives:
  assumes i: "inside v" and t: "tracked v L" and m: "mmap_ok e"
    and p: "\<forall>p \<in> set (call_ptrs c). \<not> alloc_is_static p v" and s: "\<not> skips c"
  shows "gives v (spec_call e (is_exit_done v) c L) (call_body e c v)"
proof -
  note same = gives_same [OF i t] and new = gives_new [OF i t m]
    and free = gives_free [OF i t] and move = gives_move [OF i t m]
  show ?thesis
  proof (cases c)
    case (Malloc n res)
    with p new [of res n] show ?thesis by (simp add: call_body_def)
  next
    case (Calloc num n res)
    with p new [of res "num * n mod 2 ^ 64"] show ?thesis by (simp add: call_body_def)
  next
    case (Realloc q n res)
    with p same new [of res n] move [of q res n] show ?thesis by (simp add: call_body_def)
  next
    case (Free q)
    with p s show ?thesis by (simp add: call_body_def skips_def free)
  next
    case (Strdup q len res)
    with p new [of res "len + 1"] show ?thesis
      by (cases "is_exit_done v") (simp_all add: call_body_def gives_def)
  next
    case (Getline old line len)
    show ?thesis
    proof (cases "line = old \<or> line = 0")
      case True
      with Getline same show ?thesis by (auto simp: call_body_def gives_def)
    next
      case False
      with p Getline new [of line "len + 1"] move [of old line "len + 1"] show ?thesis
        by (simp add: call_body_def)
    qed
  next
    case (Getaddrinfo rc res)
    with p same new [of res SIZEOF_ADDRINFO] show ?thesis by (simp add: call_body_def)
  next
    case (Freeaddrinfo q)
    with p s show ?thesis by (simp add: call_body_def skips_def free)
  qed
qed

text \<open>After an entry is removed, the original function finds the state as before.\<close>

lemma free_then:
  assumes "inside v" and "tracked v L" and "\<not> alloc_is_static p v"
    and "\<And>u. inside u \<Longrightarrow> f u = Some u"
  shows "alloc_free p v \<bind> (\<lambda>u. f u \<bind> g) = alloc_free p v \<bind> g"
proof (cases "alloc_free p v")
  case (Some u)
  with gives_free [OF assms(1-3)] have "stays v u"
    by (cases "removed (is_exit_done v) p L") (auto simp: gives_def)
  with assms(1) have "inside u" by (rule inside_stays)
  with Some assms(4) show ?thesis by simp
qed simp

lemma exec_body:
  assumes touch: "heaph_touch e s = Some v" and i: "idle v" "is_init_done v" and t: "tracked v L"
    and p: "\<forall>p \<in> set (call_ptrs c). \<not> alloc_is_static p v \<and> \<not> alloc_is_static p s"
    and s: "\<not> skips c"
  shows "exec e c s = call_body e c (enter v) \<bind> (\<lambda>u. Some (leave u))"
proof -
  from i have ins: "inside (enter v)" by (rule inside_enter)
  then have lib: "libc v" by (simp add: inside_def)
  note orig = original_nested [OF ins]
  from t have tr: "tracked (enter v) L" by simp
  show ?thesis
  proof (cases c)
    case (Malloc n res)
    with touch lib show ?thesis
      by (simp add: exec_def hh_malloc_def malloc_body_def call_body_def map_conv_bind_option)
  next
    case (Calloc num n res)
    with touch lib show ?thesis
      by (simp add: exec_def hh_calloc_def calloc_body_def call_body_def map_conv_bind_option)
  next
    case (Realloc q n res)
    with touch p orig show ?thesis
      by (auto simp: exec_def hh_realloc_def call_body_def map_conv_bind_option)
  next
    case (Free q)
    have "(if libc u then Some u else static_free e q u) = Some u" if "inside u" for u
      using that by (simp add: inside_def)
    then have "alloc_free q (enter v) \<bind> (\<lambda>u. (if libc u then Some u else static_free e q u) \<bind> g) =
        alloc_free q (enter v) \<bind> g" for g
      using Free p by (intro free_then [OF ins tr]) simp_all
    with Free touch p s show ?thesis
      by (simp add: exec_def hh_free_def free_body_def call_body_def skips_def)
  next
    case (Strdup q len res)
    with touch p orig show ?thesis
      by (simp add: exec_def hh_strdup_def call_body_def map_conv_bind_option)
  next
    case (Getline old line len)
    with touch p orig show ?thesis
      by (auto simp: exec_def hh_getline_def call_body_def)
  next
    case (Getaddrinfo rc res)
    with touch p orig show ?thesis
      by (simp add: exec_def hh_getaddrinfo_def call_body_def map_conv_bind_option)
  next
    case (Freeaddrinfo q)
    have "alloc_free q (enter v) \<bind> (\<lambda>u. original e u \<bind> g) = alloc_free q (enter v) \<bind> g" for g
      using Freeaddrinfo p original_nested by (intro free_then [OF ins tr]) simp_all
    with Freeaddrinfo touch p s show ?thesis
      by (simp add: exec_def hh_freeaddrinfo_def call_body_def skips_def)
  qed
qed

theorem exec_outcome:
  assumes i: "idle s" and t: "tracked s L" and m: "mmap_ok e"
    and f: "is_init_done s \<or> dlsym_fits e" and p: "list_all (away e s) (call_ptrs c)"
  shows "outcome e s (spec_call e (is_exit_done s) c L) (exec e c s)"
proof (cases "skips c")
  case True
  with i t show ?thesis
    by (auto simp: skips_def exec_def hh_free_def hh_freeaddrinfo_def outcome_skip)
next
  case False
  from heaph_touch_ok [OF i t f] obtain v where v: "heaph_touch e s = Some v" "idle v"
      "is_init_done v" "tracked v L" "is_exit_done v = is_exit_done s"
      "static_buf v = static_buf s \<or> \<not> is_init_done s \<and> static_buf v = mmap_static e"
      "\<forall>p. away e s p \<longrightarrow> \<not> alloc_is_static p v"
    by blast
  with p have pv: "\<forall>p \<in> set (call_ptrs c). \<not> alloc_is_static p v \<and> \<not> alloc_is_static p s"
    by (auto simp: list_all_iff away_def)
  then have "gives (enter v) (spec_call e (is_exit_done (enter v)) c L) (call_body e c (enter v))"
    using v(2-4) m False by (intro body_gives inside_enter) simp_all
  then have "outcome e s (spec_call e (is_exit_done s) c L)
      (call_body e c (enter v) \<bind> (\<lambda>u. Some (leave u)))"
    using v(5) by (intro outcome_call [OF _ v(2,3,5,6)]) simp
  with exec_body [OF v(1-4) pv False] show ?thesis by simp
qed

end
