(* ===== verification/HeapExit.thy ===== *)
theory HeapExit
  imports HeapReport HeapCalls
begin

section \<open>What is reported at exit\<close>

text \<open>
  \<open>report_spec\<close> says what the report is for a list of tracked allocations: an allocation is
  suppressed when its trace is empty or has an internal function in it; the others are leaks,
  of which the first ten are shown with their traces. The loop of \<open>heaph_atexit\<close> prints it,
  apart from the complaints about addresses that \<open>dladdr\<close> does not know, when all addresses in
  the leaks that are shown have names; otherwise it is undefined.
\<close>

definition suppressed :: "env \<Rightarrow> entry \<Rightarrow> bool" where
  "suppressed e en \<longleftrightarrow>
     snd (snd en) = [] \<or> trace_is_internal (fst (trace_resolve e (snd (snd en))))"

definition leaks :: "env \<Rightarrow> entry list \<Rightarrow> entry list" where
  "leaks e L = filter (\<lambda>en. \<not> suppressed e en) L"

definition leak_bytes :: "entry list \<Rightarrow> nat" where
  "leak_bytes L = sum_list (map (\<lambda>en. fst (snd en)) L)"

text \<open>All addresses of a trace have names.\<close>

definition has_names :: "env \<Rightarrow> entry \<Rightarrow> bool" where
  "has_names e en = list_all (\<lambda>sy. sym_name sy \<noteq> None) (fst (trace_resolve e (snd (snd en))))"

definition leak_block :: "env \<Rightarrow> nat \<Rightarrow> entry \<Rightarrow> message list" where
  "leak_block e k en = (let syms = fst (trace_resolve e (snd (snd en))) in
     MsgLeak (int k) (fst (snd en)) # map (\<lambda>i. MsgFrame i (the (sym_name (syms ! i)))) [0..<length syms])"

definition report_spec :: "env \<Rightarrow> report_mode \<Rightarrow> entry list \<Rightarrow> 64 word \<Rightarrow> message list" where
  "report_spec e m L tot = (let lk = leaks e L in
     if m = MODE_QUIET then []
     else if L = [] then (if m = MODE_VERBOSE then [MsgNewline, MsgNoLeaks, MsgTotal tot] else [])
     else if lk = [] \<and> m \<noteq> MODE_VERBOSE then []
     else [MsgNewline] @
       concat (map (\<lambda>i. leak_block e (Suc i) (lk ! i)) [0..<min 10 (length lk)]) @
       [MsgFound (int (length lk)) (of_nat (leak_bytes lk))] @
       (if length lk < length L then [MsgSuppressed (int (length L) - int (length lk))] else []) @
       (if 10 < length lk then [MsgOnlyFirst 10] else []) @
       [MsgTotal tot])"

text \<open>The complaints about unknown addresses are left aside.\<close>

definition visible :: "message list \<Rightarrow> message list" where
  "visible = filter (\<lambda>m. m \<noteq> MsgDladdrFailure)"

lemma visible_simps [simp]:
  "visible [] = []" "visible (xs @ ys) = visible xs @ visible ys"
  "visible (m # xs) = (if m = MsgDladdrFailure then visible xs else m # visible xs)"
  by (simp_all add: visible_def)

lemma visible_resolve [simp]: "visible (snd (trace_resolve e addrs)) = []"
  by (induction addrs) (auto simp: split_beta split: option.split)

lemma visible_frames [simp]: "visible (map (\<lambda>i. MsgFrame i (f i)) is) = map (\<lambda>i. MsgFrame i (f i)) is"
  by (induction "is") simp_all

lemma visible_block [simp]: "visible (leak_block e k en) = leak_block e k en"
  by (simp add: leak_block_def Let_def)

lemma upt_shift: "[0..<Suc m] = 0 # map Suc [0..<m]"
  by (simp add: map_Suc_upt upt_conv_Cons del: upt_Suc)

lemma report_frames_names:
  "report_frames j syms = (if list_all (\<lambda>sy. sym_name sy \<noteq> None) syms
     then Some (map (\<lambda>i. MsgFrame (j + i) (the (sym_name (syms ! i)))) [0..<length syms]) else None)"
proof (induction syms arbitrary: j)
  case (Cons sy syms)
  then show ?case by (cases "sym_name sy") (simp_all add: upt_shift comp_def del: upt_Suc)
qed simp

subsection \<open>The loop\<close>

text \<open>What the loop shows of the leaks \<open>L\<close> when it has shown \<open>k\<close> already.\<close>

fun shown :: "env \<Rightarrow> nat \<Rightarrow> entry list \<Rightarrow> message list" where
  "shown e k [] = []"
| "shown e k (en # L) =
     (if k < 10 then (if k = 0 then [MsgNewline] else []) @ leak_block e (Suc k) en @ shown e (Suc k) L
      else [])"

lemma shown_blocks:
  "0 < k \<Longrightarrow> shown e k L =
     concat (map (\<lambda>i. leak_block e (Suc (k + i)) (L ! i)) [0..<min (10 - k) (length L)])"
proof (induction L arbitrary: k)
  case (Cons en L)
  show ?case
  proof (cases "k < 10")
    case True
    then have "min (10 - k) (Suc n) = Suc (min (10 - Suc k) n)" for n by arith
    then have "min (10 - k) (length (en # L)) = Suc (min (10 - Suc k) (length L))" by simp
    then have "[0..<min (10 - k) (length (en # L))] = 0 # map Suc [0..<min (10 - Suc k) (length L)]"
      by (simp only: upt_shift)
    with True Cons.prems Cons.IH [of "Suc k"] show ?thesis by (simp add: comp_def del: upt_Suc)
  qed simp
qed simp

lemma shown_all:
  assumes "L \<noteq> []"
  shows "shown e 0 L =
    MsgNewline # concat (map (\<lambda>i. leak_block e (Suc i) (L ! i)) [0..<min 10 (length L)])"
proof -
  from assms obtain en M where L: "L = en # M" by (cases L) auto
  have "min 10 (length L) = Suc (min 9 (length M))" by (simp add: L min_def)
  then have "[0..<min 10 (length L)] = 0 # map Suc [0..<min 9 (length M)]"
    by (simp only: upt_shift)
  with L show ?thesis by (simp add: shown_blocks comp_def del: upt_Suc)
qed

lemma shown_none: "10 \<le> k \<Longrightarrow> shown e k L = []"
  by (cases L) simp_all

lemma shown_step: "k \<le> 10 \<Longrightarrow> shown e k [en] @ shown e (min 10 (Suc k)) L = shown e k (en # L)"
  by (cases "k < 10") (simp_all add: shown_none min_def)

text \<open>How a report \<open>r\<close> grows by the entries \<open>L\<close>.\<close>

definition grows :: "env \<Rightarrow> nat \<Rightarrow> entry list \<Rightarrow> report \<Rightarrow> report \<Rightarrow> bool" where
  "grows e k L r u \<longleftrightarrow>
     rep_count u = rep_count r - (int (length L) - int (length (leaks e L))) \<and>
     report_count u = int (min 10 (k + length (leaks e L))) \<and>
     leak_size u = leak_size r + of_nat (leak_bytes (leaks e L)) \<and>
     rep_prefix u = (report_count u = 0) \<and>
     visible (printed u) = visible (printed r) @ shown e k (leaks e L)"

lemma report_one_suppressed:
  assumes "suppressed e (entry x)" and "rep_count r > 0"
  shows "\<exists>ms. report_one e x r = Some (r\<lparr>rep_count := rep_count r - 1, printed := printed r @ ms\<rparr>) \<and>
    visible ms = []"
proof (cases "trace x = []")
  case True
  with assms show ?thesis by (intro exI [of _ "[]"]) (simp add: report_one_def)
next
  case False
  with assms have "trace_is_internal (fst (trace_resolve e (trace x)))"
    by (simp add: suppressed_def entry_def)
  with assms False show ?thesis
    by (intro exI [of _ "snd (trace_resolve e (trace x))"])
      (simp add: report_one_def split_beta Let_def emit_def)
qed

text \<open>A leak that is shown without a name for an address is undefined behaviour.\<close>

lemma report_one_leak:
  assumes "\<not> suppressed e (entry x)" and "rep_count r > 0" and "report_count r = int k"
    and "rep_prefix r = (k = 0)" and "k \<le> 10"
  shows "if k < 10 \<and> \<not> has_names e (entry x) then report_one e x r = None
    else \<exists>ms. report_one e x r = Some (r\<lparr>report_count := int (min 10 (Suc k)),
      leak_size := leak_size r + of_nat (alloc_size x), rep_prefix := False,
      printed := printed r @ ms\<rparr>) \<and> visible ms = shown e k [entry x]"
proof -
  let ?sy = "fst (trace_resolve e (trace x))" and ?ms = "snd (trace_resolve e (trace x))"
  have s: "trace x \<noteq> []" "\<not> trace_is_internal ?sy" using assms(1) by (simp_all add: suppressed_def entry_def)
  consider "10 \<le> k" | "k < 10" "\<not> has_names e (entry x)" | "k < 10" "has_names e (entry x)" by linarith
  then show ?thesis
  proof cases
    case 1
    with assms s have "report_one e x r = Some (r\<lparr>report_count := int (min 10 (Suc k)),
        leak_size := leak_size r + of_nat (alloc_size x), rep_prefix := False, printed := printed r @ ?ms\<rparr>)"
      by (simp add: report_one_def split_beta Let_def emit_def report_limit_def)
    with 1 show ?thesis by auto
  next
    case 2
    with assms s show ?thesis
      by (simp add: report_one_def split_beta Let_def report_limit_def emit_def emit_prefix_def
          has_names_def entry_def report_frames_names)
  next
    case 3
    with assms s have "report_one e x r = Some (r\<lparr>report_count := int (min 10 (Suc k)),
        leak_size := leak_size r + of_nat (alloc_size x), rep_prefix := False,
        printed := printed r @ ?ms @ (if k = 0 then [MsgNewline] else []) @ leak_block e (Suc k) (entry x)\<rparr>)"
      by (simp add: report_one_def split_beta Let_def emit_def emit_prefix_def report_limit_def
          leak_block_def entry_def min_def has_names_def report_frames_names)
    with 3 show ?thesis
      by (intro if_not_P [THEN iffD2] exI [of _ "?ms @ (if k = 0 then [MsgNewline] else []) @ leak_block e (Suc k) (entry x)"]) simp_all
  qed
qed

text \<open>The leaks that are shown after \<open>k\<close> others.\<close>

definition all_named :: "env \<Rightarrow> nat \<Rightarrow> entry list \<Rightarrow> bool" where
  "all_named e k L = list_all (has_names e) (take (10 - k) L)"

lemma all_named_simps:
  "all_named e k []"
  "k \<le> 10 \<Longrightarrow> all_named e k (en # L) \<longleftrightarrow> (k < 10 \<longrightarrow> has_names e en) \<and> all_named e (min 10 (Suc k)) L"
  by (auto simp: all_named_def take_Cons' min_def)

lemma report_loop_grows:
  assumes "sll next_alloc h p xs None" and "int (length xs) \<le> rep_count r"
    and "report_count r = int k" and "rep_prefix r = (k = 0)" and "k \<le> 10"
  shows "if all_named e k (leaks e (entries h xs))
    then \<exists>u. report_loop e h p r = Some u \<and> grows e k (entries h xs) r u
    else report_loop e h p r = None"
  using assms
proof (induction xs arbitrary: p r k)
  case Nil
  then show ?case by (simp add: report_loop.simps grows_def leaks_def leak_bytes_def all_named_simps)
next
  case (Cons a xs)
  then obtain x where x: "p = Some a" "h a = Some x" "sll next_alloc h (next_alloc x) xs None"
    by (auto split: option.splits)
  have pos: "rep_count r > 0" using Cons.prems(2) by simp
  have loop: "report_loop e h p r = report_one e x r \<bind> report_loop e h (next_alloc x)"
    using x by (simp add: report_loop.simps [of e h "Some a"])
  show ?case
  proof (cases "suppressed e (entry x)")
    case True
    from report_one_suppressed [OF True pos] obtain ms where
      ms: "report_one e x r = Some (r\<lparr>rep_count := rep_count r - 1, printed := printed r @ ms\<rparr>)" "visible ms = []"
      by blast
    let ?r = "r\<lparr>rep_count := rep_count r - 1, printed := printed r @ ms\<rparr>"
    have "grows e k (entries h (a # xs)) r u" if "grows e k (entries h xs) ?r u" for u
      using that ms(2) True x(2) by (simp add: grows_def leaks_def)
    moreover have "leaks e (entries h (a # xs)) = leaks e (entries h xs)"
      using True x(2) by (simp add: leaks_def)
    ultimately show ?thesis using Cons.IH [OF x(3), of ?r k] Cons.prems loop ms(1) by (auto split: if_splits)
  next
    case False
    note one = report_one_leak [OF False pos Cons.prems(3-5)]
    have lk: "leaks e (entries h (a # xs)) = entry x # leaks e (entries h xs)"
      using False x(2) by (simp add: leaks_def)
    show ?thesis
    proof (cases "k < 10 \<and> \<not> has_names e (entry x)")
      case True
      with one loop Cons.prems(5) show ?thesis unfolding lk by (simp add: all_named_simps)
    next
      case named: False
      with one obtain ms where
        ms: "report_one e x r = Some (r\<lparr>report_count := int (min 10 (Suc k)),
            leak_size := leak_size r + of_nat (alloc_size x), rep_prefix := False,
            printed := printed r @ ms\<rparr>)" "visible ms = shown e k [entry x]"
        unfolding if_not_P [OF named] by blast
      let ?r = "r\<lparr>report_count := int (min 10 (Suc k)), leak_size := leak_size r + of_nat (alloc_size x),
        rep_prefix := False, printed := printed r @ ms\<rparr>"
      have "grows e k (entries h (a # xs)) r u" if "grows e (min 10 (Suc k)) (entries h xs) ?r u" for u
        using that ms(2) False x(2) shown_step [OF Cons.prems(5), of e "entry x" "leaks e (entries h xs)"]
        by (simp add: grows_def leaks_def leak_bytes_def entry_def)
      moreover have "all_named e k (leaks e (entries h (a # xs))) = all_named e (min 10 (Suc k)) (leaks e (entries h xs))"
        unfolding lk using named Cons.prems(5) by (auto simp: all_named_simps)
      ultimately show ?thesis
        using Cons.IH [OF x(3), of ?r "min 10 (Suc k)"] Cons.prems loop ms(1) by (auto split: if_splits)
    qed
  qed
qed

subsection \<open>The report\<close>

lemma report_summary_spec:
  assumes "grows e 0 L \<lparr>rep_count = int (length L), report_count = 0, leak_size = 0,
      rep_prefix = True, printed = []\<rparr> u" and "m \<noteq> MODE_QUIET" and "L \<noteq> []"
  shows "visible (report_summary m (int (length L)) tot u) = report_spec e m L tot"
proof -
  let ?lk = "leaks e L"
  from assms(1) have g: "rep_count u = int (length ?lk)" "report_count u = int (min 10 (length ?lk))"
      "leak_size u = of_nat (leak_bytes ?lk)" "rep_prefix u = (?lk = [])"
      "visible (printed u) = shown e 0 ?lk"
    by (auto simp: grows_def min_def split: if_splits)
  show ?thesis
  proof (cases "?lk = [] \<and> m \<noteq> MODE_VERBOSE")
    case True
    with assms(2,3) g show ?thesis by (simp add: report_summary_def report_spec_def)
  next
    case False
    have le: "length ?lk \<le> length L" by (simp add: leaks_def)
    show ?thesis
    proof (cases "?lk = []")
      case True
      with False assms(2,3) g le show ?thesis
        by (simp add: report_summary_def report_spec_def emit_def emit_prefix_def)
    next
      case ne: False
      with assms(2,3) g le show ?thesis
        by (simp add: report_summary_def report_spec_def emit_def emit_prefix_def shown_all Let_def)
    qed
  qed
qed

text \<open>Nothing is undefined in the quiet mode, and when all addresses of the first ten leaks have names.\<close>

definition printable :: "env \<Rightarrow> report_mode \<Rightarrow> entry list \<Rightarrow> bool" where
  "printable e m L \<longleftrightarrow> m = MODE_QUIET \<or> list_all (has_names e) (take 10 (leaks e L))"

lemma heaph_atexit_report:
  assumes i: "idle s" and t: "tracked s L" and x: "\<not> is_exit_done s"
  shows "if printable e (mode s) L
    then \<exists>out. heaph_atexit e s = Some (out, s\<lparr>is_exit_done := True\<rparr>) \<and>
      visible out = report_spec e (mode s) L (alloc_count_total s)
    else heaph_atexit e s = None"
proof -
  from t obtain xs ys where xs: "tracks s xs ys" "L = entries (nodes s) xs"
    by (auto simp: tracked_def)
  let ?r = "\<lparr>rep_count = int (length L), report_count = 0, leak_size = 0, rep_prefix = True, printed = []\<rparr>"
  have "sll next_alloc (nodes s) (allocs s) xs None" "int (length xs) \<le> rep_count ?r"
    using xs by (simp_all add: tracks_def)
  from report_loop_grows [OF this, of 0 e]
  have loop: "if all_named e 0 (leaks e L) then \<exists>u. report_loop e (nodes s) (allocs s) ?r = Some u \<and> grows e 0 L ?r u
      else report_loop e (nodes s) (allocs s) ?r = None"
    unfolding xs(2) [symmetric] by simp
  have c: "alloc_count s = int (length L)" by (rule tracked_count [OF t])
  let ?s = "s\<lparr>is_exit_done := True, allocs_lock := True\<rparr>"
  have lock: "acq_allocs (s\<lparr>is_exit_done := True\<rparr>) = Some ?s"
      "rel_allocs ?s = Some (s\<lparr>is_exit_done := True\<rparr>)"
    using i by (simp_all add: idle_def)
  consider "mode s = MODE_QUIET" | "mode s \<noteq> MODE_QUIET" "L = []" | "mode s \<noteq> MODE_QUIET" "L \<noteq> []"
    by blast
  then show ?thesis
  proof cases
    case 1
    with x show ?thesis by (simp add: heaph_atexit_def report_spec_def printable_def)
  next
    case 2
    with x c lock show ?thesis by (simp add: heaph_atexit_def report_spec_def printable_def leaks_def)
  next
    case 3
    have p: "printable e (mode s) L = all_named e 0 (leaks e L)" using 3(1) by (simp add: printable_def all_named_def)
    show ?thesis
    proof (cases "printable e (mode s) L")
      case True
      with p loop obtain u where "report_loop e (nodes s) (allocs s) ?r = Some u" "grows e 0 L ?r u" by auto
      with 3 x c lock True report_summary_spec [OF this(2) 3] show ?thesis by (simp add: heaph_atexit_def)
    next
      case False
      with p loop 3 x c lock show ?thesis by (simp add: heaph_atexit_def)
    qed
  qed
qed

end
