(* ===== verification/HeapThreads.thy ===== *)
theory HeapThreads
  imports HeapInvariant "HOL-Library.Multiset"
begin

section \<open>Several threads in the tracker\<close>

text \<open>
  The tracker is shared by all threads; \<open>allocs_lock\<close> protects its lists. Here each call is cut
  into the sections between two points where other threads can come in: the original
  function, the section of \<open>alloc_trace_new\<close> that takes an object, the assignments to it, the
  section that links it, and \<open>alloc_free\<close>. \<open>depth\<close> belongs to a thread and is 1 in all of them:
  nested calls change nothing. The initialisation is over, and the program does not exit yet.

  Besides the tracker, the state has what the original functions have given out (\<open>given\<close>, with
  the sizes) and which blocks the program holds (\<open>held\<close>): those whose allocation has returned
  and that are not being freed or moved. The program frees and moves blocks it holds; the
  original functions give out addresses that are not in use.
\<close>

subsection \<open>Steps\<close>

text \<open>
  Where a thread is: the original function has returned a block; the object is taken; it is
  filled; \<open>free\<close> has dropped the entry but not yet called the original function; \<open>realloc\<close> has
  called the original function, which moved the block \<open>p\<close> to \<open>q\<close>.
\<close>

datatype heap_pc =
    HReady
  | HGot mem nat
  | HTook addr mem nat
  | HFilled addr mem nat
  | HUntracked mem
  | HMoved mem mem nat

record heap_state =
  shared :: tracker
  pcs :: "nat \<Rightarrow> heap_pc"
  given :: "mem \<rightharpoonup> nat"
  held :: "mem set"

definition set_pc :: "nat \<Rightarrow> heap_pc \<Rightarrow> heap_state \<Rightarrow> heap_state" where
  "set_pc t pc s = s\<lparr>pcs := (pcs s)(t := pc)\<rparr>"

definition fresh_block :: "mem \<Rightarrow> heap_state \<Rightarrow> bool" where
  "fresh_block p s \<longleftrightarrow> p \<noteq> 0 \<and> given s p = None \<and> \<not> alloc_is_static p (shared s)"

inductive heap_step :: "nat \<Rightarrow> heap_state \<Rightarrow> heap_state \<Rightarrow> bool" for N where
  malloc_call: "t < N \<Longrightarrow> pcs s t = HReady \<Longrightarrow> fresh_block p s \<Longrightarrow>
    heap_step N s (set_pc t (HGot p n) (s\<lparr>given := (given s)(p \<mapsto> n)\<rparr>))"
| section_take: "t < N \<Longrightarrow> pcs s t = HGot p n \<Longrightarrow> mmap_ok e \<Longrightarrow>
    trace_take e (shared s) = Some (a, u) \<Longrightarrow>
    heap_step N s (set_pc t (HTook a p n) (s\<lparr>shared := u\<rparr>))"
| section_fill: "t < N \<Longrightarrow> pcs s t = HTook a p n \<Longrightarrow> trace_fill e a p n (shared s) = Some u \<Longrightarrow>
    heap_step N s (set_pc t (HFilled a p n) (s\<lparr>shared := u\<rparr>))"
| section_link: "t < N \<Longrightarrow> pcs s t = HFilled a p n \<Longrightarrow> trace_link a (shared s) = Some u \<Longrightarrow>
    heap_step N s (set_pc t HReady (s\<lparr>shared := u, held := insert p (held s)\<rparr>))"
| free_untrack: "t < N \<Longrightarrow> pcs s t = HReady \<Longrightarrow> p \<in> held s \<Longrightarrow> alloc_free p (shared s) = Some u \<Longrightarrow>
    heap_step N s (set_pc t (HUntracked p) (s\<lparr>shared := u, held := held s - {p}\<rparr>))"
| free_original: "t < N \<Longrightarrow> pcs s t = HUntracked p \<Longrightarrow>
    heap_step N s (set_pc t HReady (s\<lparr>given := (given s)(p := None)\<rparr>))"
| realloc_original: "t < N \<Longrightarrow> pcs s t = HReady \<Longrightarrow> p \<in> held s \<Longrightarrow> fresh_block q s \<Longrightarrow>
    heap_step N s (set_pc t (HMoved p q n)
      (s\<lparr>given := (given s)(p := None, q \<mapsto> n), held := held s - {p}\<rparr>))"
| realloc_in_place: "t < N \<Longrightarrow> pcs s t = HReady \<Longrightarrow> p \<in> held s \<Longrightarrow>
    heap_step N s (s\<lparr>given := (given s)(p \<mapsto> n)\<rparr>)"
| realloc_untrack: "t < N \<Longrightarrow> pcs s t = HMoved p q n \<Longrightarrow> alloc_free p (shared s) = Some u \<Longrightarrow>
    heap_step N s (set_pc t (HGot q n) (s\<lparr>shared := u\<rparr>))"

inductive_cases heap_stepE: "heap_step N s s'"

definition heap_threads_start :: "heap_state \<Rightarrow> bool" where
  "heap_threads_start s \<longleftrightarrow> outermost (shared s) \<and> tracked (shared s) [] \<and> pcs s = (\<lambda>t. HReady) \<and>
     given s = Map.empty \<and> held s = {}"

subsection \<open>Invariant\<close>

text \<open>
  The object a thread has to itself; the block it has from the original functions that the
  program does not hold; and the block that \<open>realloc\<close> has moved but not yet untracked.
\<close>

primrec obj_of :: "heap_pc \<Rightarrow> addr option" where
  "obj_of HReady = None"
| "obj_of (HGot p n) = None"
| "obj_of (HTook a p n) = Some a"
| "obj_of (HFilled a p n) = Some a"
| "obj_of (HUntracked p) = None"
| "obj_of (HMoved p q n) = None"

primrec own_of :: "heap_pc \<Rightarrow> mem multiset" where
  "own_of HReady = {#}"
| "own_of (HGot p n) = {#p#}"
| "own_of (HTook a p n) = {#p#}"
| "own_of (HFilled a p n) = {#p#}"
| "own_of (HUntracked p) = {#p#}"
| "own_of (HMoved p q n) = {#q#}"

primrec moved_of :: "heap_pc \<Rightarrow> mem multiset" where
  "moved_of HReady = {#}"
| "moved_of (HGot p n) = {#}"
| "moved_of (HTook a p n) = {#}"
| "moved_of (HFilled a p n) = {#}"
| "moved_of (HUntracked p) = {#}"
| "moved_of (HMoved p q n) = {#p#}"

definition all_of :: "(heap_pc \<Rightarrow> mem multiset) \<Rightarrow> nat \<Rightarrow> heap_state \<Rightarrow> mem multiset" where
  "all_of f N s = (\<Sum>t<N. f (pcs s t))"

definition objs_ok :: "heap_state \<Rightarrow> addr list \<Rightarrow> addr list \<Rightarrow> bool" where
  "objs_ok s xs ys \<longleftrightarrow>
     (\<forall>t a. obj_of (pcs s t) = Some a \<longrightarrow>
        a \<notin> set xs \<union> set ys \<and> a < limit (shared s) \<and> nodes (shared s) a \<noteq> None) \<and>
     (\<forall>t v a. obj_of (pcs s t) = Some a \<and> obj_of (pcs s v) = Some a \<longrightarrow> t = v) \<and>
     (\<forall>t a p n. pcs s t = HFilled a p n \<longrightarrow>
        (\<exists>x. nodes (shared s) a = Some x \<and> alloc_mem x = p \<and> alloc_size x = n))"

text \<open>
  Every address that was given out is held by the program or on its way; every tracked address
  is held, or was moved by a \<open>realloc\<close> that has not come to untrack it.
\<close>

definition accounts_ok :: "nat \<Rightarrow> heap_state \<Rightarrow> bool" where
  "accounts_ok N s \<longleftrightarrow> finite (held s) \<and> finite (dom (given s)) \<and>
     mset_set (dom (given s)) = mset_set (held s) + all_of own_of N s \<and>
     (\<forall>p \<in> dom (given s). p \<noteq> 0 \<and> \<not> alloc_is_static p (shared s)) \<and>
     (\<forall>t p q n. pcs s t = HMoved p q n \<longrightarrow> \<not> alloc_is_static p (shared s))"

definition lists_ok :: "nat \<Rightarrow> heap_state \<Rightarrow> addr list \<Rightarrow> addr list \<Rightarrow> bool" where
  "lists_ok N s xs ys \<longleftrightarrow> tracks (shared s) xs ys \<and> objs_ok s xs ys \<and>
     mset (map fst (entries (nodes (shared s)) xs)) = mset_set (held s) + all_of moved_of N s"

definition heap_inv :: "nat \<Rightarrow> heap_state \<Rightarrow> bool" where
  "heap_inv N s \<longleftrightarrow> outermost (shared s) \<and> accounts_ok N s \<and> (\<exists>xs ys. lists_ok N s xs ys)"

lemma set_pc_simps [simp]:
  "shared (set_pc t pc s) = shared s" "pcs (set_pc t pc s) = (pcs s)(t := pc)"
  "given (set_pc t pc s) = given s" "held (set_pc t pc s) = held s"
  by (simp_all add: set_pc_def)

text \<open>One thread's share changes.\<close>

lemma all_of_split: "t < N \<Longrightarrow> all_of f N s = f (pcs s t) + (\<Sum>i \<in> {..<N} - {t}. f (pcs s i))"
  by (simp add: all_of_def sum.remove)

lemma all_of_upd:
  assumes "t < N" and "pcs s' = (pcs s)(t := pc)"
  shows "all_of f N s' + f (pcs s t) = all_of f N s + f pc"
proof -
  have "(\<Sum>i \<in> {..<N} - {t}. f (pcs s' i)) = (\<Sum>i \<in> {..<N} - {t}. f (pcs s i))"
    using assms(2) by (intro sum.cong) auto
  with assms show ?thesis by (simp add: all_of_split)
qed

lemma all_of_same: "t < N \<Longrightarrow> pcs s' = (pcs s)(t := pc) \<Longrightarrow> f pc = f (pcs s t) \<Longrightarrow> all_of f N s' = all_of f N s"
  using all_of_upd [of t N s' s pc f] by simp

lemma all_of_mem: "t < N \<Longrightarrow> f (pcs s t) \<subseteq># all_of f N s"
  by (simp add: all_of_split)

lemma same_flags:
  "flags u = flags s \<Longrightarrow> \<not> allocs_lock u \<Longrightarrow> outermost s \<Longrightarrow> outermost u"
  "flags u = flags s \<Longrightarrow> alloc_is_static p u = alloc_is_static p s"
  by (auto simp: flags_def outermost_def alloc_is_static_def)

subsection \<open>The accounts\<close>

lemma mset_set_take_out: "finite A \<Longrightarrow> p \<in> A \<Longrightarrow> mset_set A = add_mset p (mset_set (A - {p}))"
  by (simp add: mset_set.remove)

lemma held_given: "accounts_ok N s \<Longrightarrow> p \<in> held s \<Longrightarrow> p \<in> dom (given s)"
  by (metis accounts_ok_def elem_mset_set mset_subset_eq_add_left mset_subset_eqD)

lemma own_given:
  assumes "accounts_ok N s" and "t < N" and "own_of (pcs s t) = {#p#}"
  shows "p \<in> dom (given s)" and "p \<notin> held s"
proof -
  have "p \<in># all_of own_of N s" using all_of_mem [OF assms(2), of own_of s] assms(3) by simp
  then have c: "count (all_of own_of N s) p > 0" by simp
  from assms(1) have e: "mset_set (dom (given s)) = mset_set (held s) + all_of own_of N s"
      "finite (held s)" "finite (dom (given s))"
    by (simp_all add: accounts_ok_def)
  then have "count (mset_set (dom (given s))) p = count (mset_set (held s)) p + count (all_of own_of N s) p"
    by simp
  with c have "count (mset_set (held s)) p < count (mset_set (dom (given s))) p"
    by (simp del: count_greater_zero_iff)
  with e(2,3) show "p \<in> dom (given s)" "p \<notin> held s"
    by (auto simp: count_mset_set' split: if_splits)
qed

lemma fresh_given: "fresh_block p s \<Longrightarrow> p \<notin> dom (given s)"
  by (simp add: fresh_block_def domIff)

text \<open>
  How the accounts go on, step by step: \<open>D\<close> is what is given out afterwards, \<open>H\<close> what is held.
\<close>

lemma accounts_step:
  assumes a: "accounts_ok N s" and t: "t < N" and pcs: "pcs s' = (pcs s)(t := pc)"
    and st: "\<And>p. alloc_is_static p (shared s') = alloc_is_static p (shared s)"
    and fin: "finite (held s')" "finite (dom (given s'))"
    and sum: "mset_set (dom (given s')) + mset_set (held s) + own_of (pcs s t) =
      mset_set (held s') + mset_set (dom (given s)) + own_of pc"
    and new: "\<forall>p \<in> dom (given s') - dom (given s). p \<noteq> 0 \<and> \<not> alloc_is_static p (shared s)"
    and moved: "\<forall>p q n. pc = HMoved p q n \<longrightarrow> p \<in> dom (given s)"
  shows "accounts_ok N s'"
proof -
  have "all_of own_of N s' + own_of (pcs s t) = all_of own_of N s + own_of pc"
    by (rule all_of_upd [OF t pcs])
  moreover have "mset_set (dom (given s)) = mset_set (held s) + all_of own_of N s"
    using a by (simp add: accounts_ok_def)
  ultimately have "mset_set (dom (given s')) + (mset_set (held s) + own_of (pcs s t)) =
      (mset_set (held s') + all_of own_of N s') + (mset_set (held s) + own_of (pcs s t))"
    using sum by (simp add: ac_simps)
  then have "mset_set (dom (given s')) = mset_set (held s') + all_of own_of N s'" by simp
  moreover have "\<not> alloc_is_static p (shared s)" if "pcs s' v = HMoved p q n" for v p q n
  proof (cases "v = t")
    case True
    with that pcs moved a show ?thesis by (auto simp: accounts_ok_def)
  next
    case False
    with that pcs a show ?thesis unfolding accounts_ok_def by (metis fun_upd_apply)
  qed
  moreover have "\<forall>p \<in> dom (given s'). p \<noteq> 0 \<and> \<not> alloc_is_static p (shared s)"
    using new a unfolding accounts_ok_def by (metis DiffI)
  ultimately show ?thesis using fin st unfolding accounts_ok_def by metis
qed

lemma accounts_inv:
  assumes "heap_step N s s'" and a: "accounts_ok N s"
    and st: "\<And>p. alloc_is_static p (shared s') = alloc_is_static p (shared s)"
  shows "accounts_ok N s'"
proof -
  have fin: "finite (held s)" "finite (dom (given s))" using a by (simp_all add: accounts_ok_def)
  note step = accounts_step [OF a _ _ st]
  from assms(1) show ?thesis
  proof cases
    case (malloc_call t p n)
    then show ?thesis using fin fresh_given [OF malloc_call(4)]
      by (intro step [of t "HGot p n"]) (auto simp: fresh_block_def)
  next
    case (section_take t p n e b u)
    then show ?thesis using fin by (intro step [of t "HTook b p n"]) simp_all
  next
    case (section_fill t b p n e u)
    then show ?thesis using fin by (intro step [of t "HFilled b p n"]) simp_all
  next
    case (section_link t b p n u)
    then show ?thesis using fin own_given(2) [OF a section_link(2), of p]
      by (intro step [of t HReady]) simp_all
  next
    case (free_untrack t p u)
    then show ?thesis using fin mset_set_take_out [OF fin(1) free_untrack(4)]
      by (intro step [of t "HUntracked p"]) simp_all
  next
    case (free_original t p)
    have "p \<in> dom (given s)" using own_given(1) [OF a free_original(2), of p] free_original by simp
    then show ?thesis using free_original fin mset_set_take_out [OF fin(2), of p]
      by (intro step [of t HReady]) auto
  next
    case (realloc_original t p q n)
    have p: "p \<in> dom (given s)" by (rule held_given [OF a realloc_original(4)])
    have q: "q \<notin> dom (given s)" by (rule fresh_given [OF realloc_original(5)])
    have d: "dom (given s') = insert q (dom (given s) - {p})" using realloc_original(1) p q by auto
    then show ?thesis
      using realloc_original p q fin mset_set_take_out [OF fin(2) p] mset_set_take_out [OF fin(1) realloc_original(4)]
      by (intro step [of t "HMoved p q n"]) (auto simp: fresh_block_def)
  next
    case (realloc_in_place t p n)
    have "dom (given s') = dom (given s)"
      using realloc_in_place(1) held_given [OF a realloc_in_place(4)] by auto
    then show ?thesis using realloc_in_place fin by (intro step [of t HReady]) auto
  next
    case (realloc_untrack t p q n u)
    then show ?thesis using fin by (intro step [of t "HGot q n"]) simp_all
  qed
qed

subsection \<open>The lists\<close>

lemma objs_step:
  assumes "objs_ok s xs ys" and pcs: "pcs s' = (pcs s)(t := pc)"
    and other: "\<And>v a. v \<noteq> t \<Longrightarrow> obj_of (pcs s v) = Some a \<Longrightarrow> a \<notin> set zs \<union> set ws \<and>
      a < limit (shared s') \<and> nodes (shared s') a = nodes (shared s) a \<and> obj_of pc \<noteq> Some a"
    and own: "\<And>a. obj_of pc = Some a \<Longrightarrow> a \<notin> set zs \<union> set ws \<and> a < limit (shared s') \<and>
      nodes (shared s') a \<noteq> None"
    and fill: "\<And>a p n. pc = HFilled a p n \<Longrightarrow>
      \<exists>x. nodes (shared s') a = Some x \<and> alloc_mem x = p \<and> alloc_size x = n"
  shows "objs_ok s' zs ws"
  unfolding objs_ok_def
proof (intro conjI allI impI)
  fix v a
  assume o: "obj_of (pcs s' v) = Some a"
  show "a \<notin> set zs \<union> set ws" "a < limit (shared s')" "nodes (shared s') a \<noteq> None"
    using o assms(1) pcs own [of a] other [of v a] by (cases "v = t"; auto simp: objs_ok_def)+
next
  fix v w a
  assume "obj_of (pcs s' v) = Some a \<and> obj_of (pcs s' w) = Some a"
  then show "v = w"
    using assms(1) pcs other [of v a] other [of w a]
    by (cases "v = t"; cases "w = t") (auto simp: objs_ok_def)
next
  fix v a p n
  assume f: "pcs s' v = HFilled a p n"
  show "\<exists>x. nodes (shared s') a = Some x \<and> alloc_mem x = p \<and> alloc_size x = n"
  proof (cases "v = t")
    case True
    with f pcs fill show ?thesis by simp
  next
    case False
    with f pcs have v: "pcs s v = HFilled a p n" by simp
    with other [OF False, of a] assms(1) show ?thesis by (auto simp: objs_ok_def)
  qed
qed

lemma objs_otherD:
  assumes "objs_ok s xs ys" and "obj_of (pcs s v) = Some a"
  shows "a \<notin> set xs" "a \<notin> set ys" "a < limit (shared s)" "\<exists>x. nodes (shared s) a = Some x"
  using assms unfolding objs_ok_def by auto

text \<open>A step that leaves the tracker alone.\<close>

lemma objs_pc:
  assumes "objs_ok s xs ys" and "pcs s' = (pcs s)(t := pc)" and "shared s' = shared s" and "obj_of pc = None"
  shows "objs_ok s' xs ys"
proof (rule objs_step [OF assms(1,2)])
  fix v a
  assume "v \<noteq> t" "obj_of (pcs s v) = Some a"
  with objs_otherD [OF assms(1), of v a] assms(3,4)
  show "a \<notin> set xs \<union> set ys \<and> a < limit (shared s') \<and> nodes (shared s') a = nodes (shared s) a \<and> obj_of pc \<noteq> Some a"
    by simp
qed (use assms(4) in auto)

lemma mset_step:
  assumes l: "lists_ok N s xs ys" and t: "t < N" and pcs: "pcs s' = (pcs s)(t := pc)"
    and sum: "mset (map fst L) + mset_set (held s) + moved_of (pcs s t) =
      mset_set (held s') + mset (map fst (entries (nodes (shared s)) xs)) + moved_of pc"
  shows "mset (map fst L) = mset_set (held s') + all_of moved_of N s'"
proof -
  have "all_of moved_of N s' + moved_of (pcs s t) = all_of moved_of N s + moved_of pc"
    by (rule all_of_upd [OF t pcs])
  moreover have "mset (map fst (entries (nodes (shared s)) xs)) = mset_set (held s) + all_of moved_of N s"
    using l by (simp add: lists_ok_def)
  ultimately have "mset (map fst L) + (mset_set (held s) + moved_of (pcs s t)) =
      (mset_set (held s') + all_of moved_of N s') + (mset_set (held s) + moved_of (pcs s t))"
    using sum by (simp add: ac_simps)
  then show ?thesis by simp
qed

lemma remove_entry_mset:
  "remove_entry p L = Some M \<Longrightarrow> mset (map fst L) = add_mset p (mset (map fst M))"
  by (erule remove_entry_SomeE) simp

text \<open>The section that takes an object.\<close>

lemma lists_take:
  assumes l: "lists_ok N s xs ys" and t: "t < N" "pcs s t = HGot p n" and m: "mmap_ok e"
    and o: "outermost (shared s)" and take: "trace_take e (shared s) = Some (a, u)"
  shows "\<exists>zs. lists_ok N (set_pc t (HTook a p n) (s\<lparr>shared := u\<rparr>)) xs zs \<and> flags u = flags (shared s) \<and>
    \<not> allocs_lock u"
proof -
  have tr: "tracks (shared s) xs ys" and ob: "objs_ok s xs ys" using l by (simp_all add: lists_ok_def)
  have lock: "\<not> allocs_lock (shared s)" using o by (simp add: outermost_def)
  obtain zs where u: "tracks u xs zs" "took (shared s) ys zs a u"
    using trace_take_ok [OF tr m lock] take by (metis Pair_inject option.inject)
  let ?s = "set_pc t (HTook a p n) (s\<lparr>shared := u\<rparr>)"
  have "objs_ok ?s xs zs"
  proof (rule objs_step [OF ob, of _ t "HTook a p n"])
    fix v b
    assume "v \<noteq> t" "obj_of (pcs s v) = Some b"
    from objs_otherD [OF ob this(2)] u(2)
    show "b \<notin> set xs \<union> set zs \<and> b < limit (shared ?s) \<and> nodes (shared ?s) b = nodes (shared s) b \<and>
        obj_of (HTook a p n) \<noteq> Some b"
      by (auto simp: took_def)
  next
    fix b
    assume "obj_of (HTook a p n) = Some b"
    with took_fresh [OF tr u(2)] u(2)
    show "b \<notin> set xs \<union> set zs \<and> b < limit (shared ?s) \<and> nodes (shared ?s) b \<noteq> None"
      by (auto simp: took_def)
  qed simp_all
  moreover have "mset (map fst (entries (nodes u) xs)) = mset_set (held ?s) + all_of moved_of N ?s"
    by (rule mset_step [OF l t(1), of _ "HTook a p n"]) (use t took_entries [OF tr u(2)] in simp_all)
  ultimately have "lists_ok N ?s xs zs" using u(1) by (simp add: lists_ok_def)
  with u(2) lock show ?thesis by (auto simp: took_def)
qed

text \<open>The assignments.\<close>

lemma lists_fill:
  assumes l: "lists_ok N s xs ys" and t: "t < N" "pcs s t = HTook a p n"
    and o: "outermost (shared s)" and fill: "trace_fill e a p n (shared s) = Some u"
  shows "lists_ok N (set_pc t (HFilled a p n) (s\<lparr>shared := u\<rparr>)) xs ys \<and> flags u = flags (shared s) \<and>
    \<not> allocs_lock u"
proof -
  have tr: "tracks (shared s) xs ys" and ob: "objs_ok s xs ys" using l by (simp_all add: lists_ok_def)
  have "obj_of (pcs s t) = Some a" using t by simp
  from objs_otherD [OF ob this] obtain x where a: "a \<notin> set xs \<union> set ys" "a < limit (shared s)"
      "nodes (shared s) a = Some x" by auto
  from trace_fill_ok [OF a(3), of e p n] o fill obtain y where
    u: "u = (shared s)\<lparr>nodes := (nodes (shared s))(a \<mapsto> y)\<rparr>" "alloc_mem y = p" "alloc_size y = n"
    by (auto simp: outermost_def entry_def)
  let ?s = "set_pc t (HFilled a p n) (s\<lparr>shared := u\<rparr>)"
  have "objs_ok ?s xs ys"
  proof (rule objs_step [OF ob, of _ t "HFilled a p n"])
    fix v b
    assume v: "v \<noteq> t" "obj_of (pcs s v) = Some b"
    have "b \<noteq> a" using ob v t unfolding objs_ok_def by (metis obj_of.simps(3))
    with objs_otherD [OF ob v(2)] u(1)
    show "b \<notin> set xs \<union> set ys \<and> b < limit (shared ?s) \<and> nodes (shared ?s) b = nodes (shared s) b \<and>
        obj_of (HFilled a p n) \<noteq> Some b"
      by simp
  qed (use u a in auto)
  moreover have "mset (map fst (entries (nodes u) xs)) = mset_set (held ?s) + all_of moved_of N ?s"
    by (rule mset_step [OF l t(1), of _ "HFilled a p n"]) (use t a u(1) in simp_all)
  moreover have "tracks u xs ys" using tracks_fill [OF tr a(1)] u(1) by simp
  ultimately show ?thesis using u(1) o by (simp add: lists_ok_def flags_def outermost_def)
qed

text \<open>The section that links it.\<close>

lemma lists_link:
  assumes l: "lists_ok N s xs ys" and t: "t < N" "pcs s t = HFilled a p n"
    and o: "outermost (shared s)" and link: "trace_link a (shared s) = Some u"
    and h: "p \<notin> held s" "finite (held s)"
  shows "lists_ok N (set_pc t HReady (s\<lparr>shared := u, held := insert p (held s)\<rparr>)) (a # xs) ys \<and>
    flags u = flags (shared s) \<and> \<not> allocs_lock u"
proof -
  have tr: "tracks (shared s) xs ys" and ob: "objs_ok s xs ys" using l by (simp_all add: lists_ok_def)
  have lock: "\<not> allocs_lock (shared s)" using o by (simp add: outermost_def)
  have oa: "obj_of (pcs s t) = Some a" using t by simp
  from ob t obtain x where x: "nodes (shared s) a = Some x" "alloc_mem x = p"
    unfolding objs_ok_def by blast
  from objs_otherD [OF ob oa] have a: "a \<notin> set xs \<union> set ys" "a < limit (shared s)" by auto
  from trace_link_ok [OF tr a x(1) lock] link have
    u: "tracks u (a # xs) ys" "entries (nodes u) (a # xs) = entry x # entries (nodes (shared s)) xs"
      "flags u = flags (shared s)" "\<not> allocs_lock u" "limit u = limit (shared s)"
      "nodes u = (nodes (shared s))(a \<mapsto> set_next_alloc (allocs (shared s)) x)"
    by auto
  let ?s = "set_pc t HReady (s\<lparr>shared := u, held := insert p (held s)\<rparr>)"
  have "objs_ok ?s (a # xs) ys"
  proof (rule objs_step [OF ob, of _ t HReady])
    fix v b
    assume v: "v \<noteq> t" "obj_of (pcs s v) = Some b"
    have "b \<noteq> a" using ob v t unfolding objs_ok_def by (metis obj_of.simps(4))
    with objs_otherD [OF ob v(2)] u(5,6)
    show "b \<notin> set (a # xs) \<union> set ys \<and> b < limit (shared ?s) \<and> nodes (shared ?s) b = nodes (shared s) b \<and>
        obj_of HReady \<noteq> Some b"
      by simp
  qed simp_all
  moreover have "mset (map fst (entries (nodes u) (a # xs))) = mset_set (held ?s) + all_of moved_of N ?s"
    by (rule mset_step [OF l t(1), of _ HReady]) (use t u(2) x h in \<open>simp_all add: entry_def\<close>)
  ultimately show ?thesis using u by (simp add: lists_ok_def)
qed

text \<open>\<open>alloc_free\<close>, in \<open>free\<close> and in \<open>realloc\<close>.\<close>

lemma lists_free:
  assumes l: "lists_ok N s xs ys" and t: "t < N" "obj_of pc = None"
    and o: "outermost (shared s)" and free: "alloc_free p (shared s) = Some u"
    and st: "\<not> alloc_is_static p (shared s)"
    and sum: "add_mset p (mset_set H + moved_of pc) = mset_set (held s) + moved_of (pcs s t)"
  shows "\<exists>zs ws. lists_ok N (set_pc t pc (s\<lparr>shared := u, held := H\<rparr>)) zs ws \<and>
    flags u = flags (shared s) \<and> \<not> allocs_lock u"
proof -
  have tr: "tracks (shared s) xs ys" and ob: "objs_ok s xs ys" using l by (simp_all add: lists_ok_def)
  obtain L where L: "remove_entry p (entries (nodes (shared s)) xs) = Some L"
    using alloc_free_unknown [OF _ _ o st, of "entries (nodes (shared s)) xs"] tr free
    by (cases "remove_entry p (entries (nodes (shared s)) xs)") (auto simp: tracked_def)
  obtain zs a where u: "tracks u zs (a # ys)" "entries (nodes u) zs = L"
    "set xs = insert a (set zs)" "flags u = flags (shared s)" "\<not> allocs_lock u"
    "limit u = limit (shared s)" "\<forall>b. b \<notin> set xs \<longrightarrow> nodes u b = nodes (shared s) b"
    using alloc_free_tracks [OF tr L o st] free by (metis option.inject)
  let ?s = "set_pc t pc (s\<lparr>shared := u, held := H\<rparr>)"
  have "objs_ok ?s zs (a # ys)"
  proof (rule objs_step [OF ob, of _ t pc])
    fix v b
    assume v: "v \<noteq> t" "obj_of (pcs s v) = Some b"
    from objs_otherD [OF ob v(2)] u(3,6,7) t(2)
    show "b \<notin> set zs \<union> set (a # ys) \<and> b < limit (shared ?s) \<and> nodes (shared ?s) b = nodes (shared s) b \<and>
        obj_of pc \<noteq> Some b"
      by auto
  qed (use t(2) in auto)
  moreover have "mset (map fst (entries (nodes u) zs)) = mset_set (held ?s) + all_of moved_of N ?s"
    by (rule mset_step [OF l t(1), of _ pc])
      (use u(2) remove_entry_mset [OF L] sum in \<open>simp_all add: ac_simps\<close>)
  ultimately show ?thesis using u by (auto simp: lists_ok_def)
qed

subsection \<open>Every step keeps the invariant\<close>

text \<open>What has to be shown of a step, the tracker having gone from \<open>v\<close> to \<open>u\<close>.\<close>

lemma heap_invI:
  assumes "heap_step N s s'" and "heap_inv N s" and "\<exists>zs ws. lists_ok N s' zs ws \<and>
    flags (shared s') = flags (shared s) \<and> \<not> allocs_lock (shared s')"
  shows "heap_inv N s'"
proof -
  from assms(3) obtain zs ws where l: "lists_ok N s' zs ws" "flags (shared s') = flags (shared s)"
      "\<not> allocs_lock (shared s')" by blast
  have "outermost (shared s')"
    using assms(2) same_flags(1) [OF l(2,3)] by (simp add: heap_inv_def)
  moreover have "accounts_ok N s'"
    using accounts_inv [OF assms(1)] assms(2) same_flags(2) [OF l(2)] by (simp add: heap_inv_def)
  ultimately show ?thesis using l(1) by (auto simp: heap_inv_def)
qed

text \<open>Steps that leave the tracker alone.\<close>

lemma lists_pc:
  assumes l: "lists_ok N s xs ys" and t: "t < N" "obj_of pc = None" "pcs s' = (pcs s)(t := pc)"
    and "shared s' = shared s" and "mset_set (held s) + moved_of (pcs s t) = mset_set (held s') + moved_of pc"
  shows "lists_ok N s' xs ys"
proof -
  have "mset (map fst (entries (nodes (shared s)) xs)) = mset_set (held s') + all_of moved_of N s'"
    by (rule mset_step [OF l t(1,3)]) (use assms(6) in \<open>simp add: ac_simps\<close>)
  with l objs_pc [of s xs ys s' t pc] t assms(5) show ?thesis by (simp add: lists_ok_def)
qed

lemma heap_step_inv:
  assumes st: "heap_step N s s'" and i: "heap_inv N s"
  shows "heap_inv N s'"
proof -
  from i obtain xs ys where o: "outermost (shared s)" and a: "accounts_ok N s" and l: "lists_ok N s xs ys"
    by (auto simp: heap_inv_def)
  have fin: "finite (held s)" using a by (simp add: accounts_ok_def)
  have lock: "\<not> allocs_lock (shared s)" using o by (simp add: outermost_def)
  have static: "\<not> alloc_is_static p (shared s)" if "p \<in> dom (given s)" for p
    using a that by (simp add: accounts_ok_def)
  note inv = heap_invI [OF st i]
  from st show ?thesis
  proof cases
    case (malloc_call t p n)
    with lists_pc [OF l, of t "HGot p n" s'] lock show ?thesis by (intro inv) auto
  next
    case (section_take t p n e b u)
    with lists_take [OF l section_take(2,3,4) o section_take(5)] show ?thesis by (intro inv) auto
  next
    case (section_fill t b p n e u)
    with lists_fill [OF l section_fill(2,3) o section_fill(4)] show ?thesis by (intro inv) auto
  next
    case (section_link t b p n u)
    have "p \<notin> held s" using own_given(2) [OF a section_link(2), of p] section_link(3) by simp
    with lists_link [OF l section_link(2,3) o section_link(4) _ fin] section_link show ?thesis
      by (intro inv) auto
  next
    case (free_untrack t p u)
    then have "add_mset p (mset_set (held s - {p}) + moved_of (HUntracked p)) = mset_set (held s) + moved_of (pcs s t)"
      using mset_set_take_out [OF fin] by simp
    from lists_free [OF l free_untrack(2) _ o free_untrack(5) static [OF held_given [OF a free_untrack(4)]] this]
    show ?thesis using free_untrack(1) by (intro inv) auto
  next
    case (free_original t p)
    with lists_pc [OF l, of t HReady s'] lock show ?thesis by (intro inv) auto
  next
    case (realloc_original t p q n)
    with lists_pc [OF l, of t "HMoved p q n" s'] lock mset_set_take_out [OF fin realloc_original(4)]
    show ?thesis by (intro inv) auto
  next
    case (realloc_in_place t p n)
    with lists_pc [OF l, of t HReady s'] lock show ?thesis by (intro inv) (auto simp: fun_upd_idem)
  next
    case (realloc_untrack t p q n u)
    have "\<not> alloc_is_static p (shared s)" using a realloc_untrack(3) unfolding accounts_ok_def by blast
    from lists_free [OF l realloc_untrack(2) _ o realloc_untrack(4) this, of "HGot q n" "held s"]
    show ?thesis using realloc_untrack by (intro inv) auto
  qed
qed

lemma heap_start_inv:
  assumes "heap_threads_start s"
  shows "heap_inv N s"
proof -
  from assms obtain xs ys where t: "tracks (shared s) xs ys" "entries (nodes (shared s)) xs = []"
    by (auto simp: heap_threads_start_def tracked_def)
  have "all_of own_of N s = {#}" "all_of moved_of N s = {#}"
    using assms by (simp_all add: all_of_def heap_threads_start_def)
  moreover have "objs_ok s xs ys" using assms by (simp add: objs_ok_def heap_threads_start_def)
  ultimately show ?thesis
    using t assms unfolding heap_inv_def accounts_ok_def lists_ok_def heap_threads_start_def by auto
qed

interpretation ht: invariant_system heap_threads_start "heap_step N" "heap_inv N" for N
  by unfold_locales (auto intro: heap_start_inv heap_step_inv)

subsection \<open>No thread is stopped\<close>

lemma tracked_alloc_free:
  assumes "lists_ok N s xs ys" and "outermost (shared s)" and "\<not> alloc_is_static p (shared s)"
    and "p \<in># mset_set (held s) + all_of moved_of N s"
  shows "alloc_free p (shared s) \<noteq> None"
proof -
  let ?L = "entries (nodes (shared s)) xs"
  have "p \<in># mset (map fst ?L)" using assms(1,4) by (simp add: lists_ok_def)
  then have "remove_entry p ?L \<noteq> None" by (auto simp: remove_entry_None)
  then obtain M where "remove_entry p ?L = Some M" by blast
  moreover have "tracked (shared s) ?L" using assms(1) by (auto simp: lists_ok_def tracked_def)
  ultimately show ?thesis using alloc_free_ok [OF _ _ assms(2,3)] by (metis option.distinct(1))
qed

definition can_go_on :: "heap_state \<Rightarrow> nat \<Rightarrow> bool" where
  "can_go_on s t \<longleftrightarrow> (case pcs s t of
       HReady \<Rightarrow> \<forall>p \<in> held s. alloc_free p (shared s) \<noteq> None
     | HGot p n \<Rightarrow> \<forall>e. mmap_ok e \<longrightarrow> trace_take e (shared s) \<noteq> None
     | HTook a p n \<Rightarrow> \<forall>e. trace_fill e a p n (shared s) \<noteq> None
     | HFilled a p n \<Rightarrow> trace_link a (shared s) \<noteq> None
     | HUntracked p \<Rightarrow> True
     | HMoved p q n \<Rightarrow> alloc_free p (shared s) \<noteq> None)"

lemma heap_inv_goes_on:
  assumes i: "heap_inv N s" and t: "t < N"
  shows "can_go_on s t"
proof -
  from i obtain xs ys where o: "outermost (shared s)" and a: "accounts_ok N s" and l: "lists_ok N s xs ys"
    by (auto simp: heap_inv_def)
  have tr: "tracks (shared s) xs ys" and ob: "objs_ok s xs ys" using l by (simp_all add: lists_ok_def)
  have lock: "\<not> allocs_lock (shared s)" and d: "depth (shared s) = 1" using o by (simp_all add: outermost_def)
  show ?thesis
  proof (cases "pcs s t")
    case HReady
    have "alloc_free p (shared s) \<noteq> None" if "p \<in> held s" for p
    proof (rule tracked_alloc_free [OF l o])
      show "\<not> alloc_is_static p (shared s)"
        using a held_given [OF a that] by (simp add: accounts_ok_def)
      show "p \<in># mset_set (held s) + all_of moved_of N s" using that a by (simp add: accounts_ok_def)
    qed
    with HReady show ?thesis by (simp add: can_go_on_def)
  next
    case (HGot p n)
    with trace_take_ok [OF tr _ lock] show ?thesis by (simp add: can_go_on_def) (metis option.distinct(1))
  next
    case (HTook b p n)
    then have "obj_of (pcs s t) = Some b" by simp
    from objs_otherD(4) [OF ob this] obtain x where "nodes (shared s) b = Some x" by blast
    from trace_fill_ok [OF this d] HTook show ?thesis
      by (simp add: can_go_on_def) (metis not_None_eq)
  next
    case (HFilled b p n)
    then have "obj_of (pcs s t) = Some b" by simp
    from objs_otherD [OF ob this] obtain x where
      x: "b \<notin> set xs \<union> set ys" "b < limit (shared s)" "nodes (shared s) b = Some x" by auto
    from trace_link_ok [OF tr x lock] HFilled show ?thesis by (auto simp: can_go_on_def)
  next
    case (HUntracked p)
    then show ?thesis by (simp add: can_go_on_def)
  next
    case (HMoved p q n)
    have "\<not> alloc_is_static p (shared s)" using a HMoved unfolding accounts_ok_def by blast
    moreover have "p \<in># all_of moved_of N s"
      using all_of_mem [OF t, of moved_of s] HMoved by (auto dest: mset_subset_eqD)
    ultimately show ?thesis using tracked_alloc_free [OF l o, of p] HMoved by (simp add: can_go_on_def)
  qed
qed

subsection \<open>Runs of one thread\<close>

lemma heap_inv_outermost: "heap_inv N s \<Longrightarrow> outermost (shared s)"
  by (simp add: heap_inv_def)

lemma run_tracks:
  fixes e :: env
  assumes i: "heap_inv N s" and t: "t < N" "pcs s t = HGot p n" and m: "mmap_ok e"
    and tr: "tracked (shared s) L"
  shows "\<exists>u. (heap_step N)\<^sup>*\<^sup>* s (set_pc t HReady (s\<lparr>shared := u, held := insert p (held s)\<rparr>)) \<and>
    tracked u ((p, n, take MAX_BACKTRACE_LEN (backtrace e)) # L) \<and> flags u = flags (shared s)"
proof -
  have a: "accounts_ok N s" using i by (simp add: heap_inv_def)
  have st: "\<not> alloc_is_static p (shared s)"
    using a own_given(1) [OF a t(1), of p] t(2) by (simp add: accounts_ok_def)
  note o = heap_inv_outermost [OF i]
  from alloc_trace_new_ok [OF tr m o st, of n] obtain u where
    u: "alloc_trace_new e p n (shared s) = Some u"
      "tracked u ((p, n, take MAX_BACKTRACE_LEN (backtrace e)) # L)" "flags u = flags (shared s)"
    by blast
  from u(1) o st obtain b v w where
    steps: "trace_take e (shared s) = Some (b, v)" "trace_fill e b p n v = Some w" "trace_link b w = Some u"
    by (auto simp: alloc_trace_new_def outermost_def elim!: bind_eq_SomeE)
  define s1 where "s1 = set_pc t (HTook b p n) (s\<lparr>shared := v\<rparr>)"
  define s2 where "s2 = set_pc t (HFilled b p n) (s1\<lparr>shared := w\<rparr>)"
  define s3 where "s3 = set_pc t HReady (s2\<lparr>shared := u, held := insert p (held s2)\<rparr>)"
  have "heap_step N s s1" unfolding s1_def by (rule section_take [OF t m steps(1)])
  moreover have "heap_step N s1 s2" unfolding s2_def
    by (rule section_fill [OF t(1)]) (use steps(2) in \<open>simp_all add: s1_def\<close>)
  moreover have "heap_step N s2 s3" unfolding s3_def
    by (rule section_link [OF t(1)]) (use steps(3) in \<open>simp_all add: s2_def\<close>)
  ultimately have "(heap_step N)\<^sup>*\<^sup>* s s3" by simp
  moreover have "s3 = set_pc t HReady (s\<lparr>shared := u, held := insert p (held s)\<rparr>)"
    by (rule heap_state.equality) (simp_all add: s1_def s2_def s3_def set_pc_def)
  ultimately show ?thesis using u by auto
qed

lemma run_untracks:
  assumes i: "heap_inv N s" and t: "t < N" "pcs s t = HMoved p q n"
    and tr: "tracked (shared s) L" "remove_entry p L = Some M"
  shows "\<exists>u. heap_step N s (set_pc t (HGot q n) (s\<lparr>shared := u\<rparr>)) \<and> tracked u M \<and>
    flags u = flags (shared s)"
proof -
  have "\<not> alloc_is_static p (shared s)" using i t(2) unfolding heap_inv_def accounts_ok_def by blast
  from alloc_free_ok [OF tr heap_inv_outermost [OF i] this] obtain u where
    "alloc_free p (shared s) = Some u" "tracked u M" "flags u = flags (shared s)" by blast
  with realloc_untrack [OF t] show ?thesis by blast
qed

text \<open>A tracker after its initialisation, without a static buffer.\<close>

definition demo_threads :: heap_state where
  "demo_threads = \<lparr>shared = tracker_start\<lparr>is_init_done := True, libc := True, handler_registered := True, depth := 1\<rparr>,
     pcs = (\<lambda>t. HReady), given = Map.empty, held = {}\<rparr>"

lemma demo_threads_start: "heap_threads_start demo_threads"
proof -
  let ?s = "tracker_start\<lparr>is_init_done := True, libc := True, handler_registered := True, depth := 1\<rparr>"
  have "tracked ?s []" using tracked_start by (subst tracked_cong [of ?s tracker_start]) simp_all
  moreover have "outermost ?s" by (simp add: outermost_def tracker_start_def)
  ultimately show ?thesis by (simp add: heap_threads_start_def demo_threads_def)
qed

lemma reach_threads: "reach heap_threads_start (heap_step N) s \<Longrightarrow> (heap_step N)\<^sup>*\<^sup>* s u \<Longrightarrow>
    reach heap_threads_start (heap_step N) u"
  by (rotate_tac, induction rule: rtranclp_induct) (auto intro: reach_step)

text \<open>A whole \<open>malloc\<close>.\<close>

lemma run_malloc:
  fixes e :: env
  assumes r: "reach heap_threads_start (heap_step N) s" and t: "t < N" "pcs s t = HReady"
    and f: "fresh_block p s" and m: "mmap_ok e" and tr: "tracked (shared s) L"
  obtains u where
    "reach heap_threads_start (heap_step N) (s\<lparr>shared := u, given := (given s)(p \<mapsto> n), held := insert p (held s)\<rparr>)"
    "tracked u ((p, n, take MAX_BACKTRACE_LEN (backtrace e)) # L)" "flags u = flags (shared s)"
proof -
  let ?s1 = "set_pc t (HGot p n) (s\<lparr>given := (given s)(p \<mapsto> n)\<rparr>)"
  have r1: "reach heap_threads_start (heap_step N) ?s1"
    by (rule reach_step [OF r malloc_call [OF t f]])
  from run_tracks [OF ht.reach_inv [OF r1] t(1) _ m, of p n L] tr obtain u where
    u: "(heap_step N)\<^sup>*\<^sup>* ?s1 (set_pc t HReady (?s1\<lparr>shared := u, held := insert p (held s)\<rparr>))"
      "tracked u ((p, n, take MAX_BACKTRACE_LEN (backtrace e)) # L)" "flags u = flags (shared s)"
    by auto
  have "set_pc t HReady (?s1\<lparr>shared := u, held := insert p (held s)\<rparr>) =
      s\<lparr>shared := u, given := (given s)(p \<mapsto> n), held := insert p (held s)\<rparr>"
    by (rule heap_state.equality) (use t(2) in \<open>auto simp: set_pc_def\<close>)
  with reach_threads [OF r1 u(1)] u(2,3) show thesis using that by simp
qed

text \<open>
  Two threads: the first one's \<open>realloc\<close> moves the block \<open>p\<close> to \<open>q\<close>; before it has dropped the
  entry of \<open>p\<close>, the other's \<open>malloc\<close> gets the address \<open>p\<close> and records it.
\<close>

lemma run_race:
  fixes e :: env
  assumes r: "reach heap_threads_start (heap_step 2) s" and pcs: "pcs s = (\<lambda>t. HReady)"
    and p: "p \<in> held s" "p \<noteq> q" and q: "fresh_block q s" and m: "mmap_ok e"
    and tr: "tracked (shared s) ((p, k, bt) # L)" and st: "\<not> alloc_is_static p (shared s)" "p \<noteq> 0"
  obtains u where "reach heap_threads_start (heap_step 2)
      (s\<lparr>shared := u, given := (given s)(p \<mapsto> m', q \<mapsto> n), held := insert q (held s)\<rparr>)"
    "tracked u ((q, n, take MAX_BACKTRACE_LEN (backtrace e)) # (p, k, bt) # L)"
proof -
  define s1 where "s1 = set_pc 0 (HMoved p q n) (s\<lparr>given := (given s)(p := None, q \<mapsto> n), held := held s - {p}\<rparr>)"
  have r1: "reach heap_threads_start (heap_step 2) s1"
    unfolding s1_def by (rule reach_step [OF r realloc_original]) (use pcs p q in simp_all)
  have "fresh_block p s1" "pcs s1 1 = HReady" using p(2) st pcs by (simp_all add: fresh_block_def s1_def)
  then obtain v where v: "reach heap_threads_start (heap_step 2)
      (s1\<lparr>shared := v, given := (given s1)(p \<mapsto> m'), held := insert p (held s1)\<rparr>)"
    "tracked v ((p, m', take MAX_BACKTRACE_LEN (backtrace e)) # (p, k, bt) # L)" "flags v = flags (shared s1)"
    using run_malloc [OF r1, of 1 p e "(p, k, bt) # L" m'] m tr by (auto simp: s1_def)
  let ?s2 = "s1\<lparr>shared := v, given := (given s1)(p \<mapsto> m'), held := insert p (held s1)\<rparr>"
  have pc2: "pcs ?s2 0 = HMoved p q n" by (simp add: s1_def)
  from run_untracks [OF ht.reach_inv [OF v(1)] _ pc2,
      of "(p, m', take MAX_BACKTRACE_LEN (backtrace e)) # (p, k, bt) # L" "(p, k, bt) # L"] v(2)
  obtain w where
    w: "heap_step 2 ?s2 (set_pc 0 (HGot q n) (?s2\<lparr>shared := w\<rparr>))" "tracked w ((p, k, bt) # L)"
    by auto
  let ?s3 = "set_pc 0 (HGot q n) (?s2\<lparr>shared := w\<rparr>)"
  have r3: "reach heap_threads_start (heap_step 2) ?s3" by (rule reach_step [OF v(1) w(1)])
  from run_tracks [OF ht.reach_inv [OF r3] _ _ m, of 0 q n "(p, k, bt) # L"] w(2) obtain u where
    u: "(heap_step 2)\<^sup>*\<^sup>* ?s3 (set_pc 0 HReady (?s3\<lparr>shared := u, held := insert q (held ?s3)\<rparr>))"
      "tracked u ((q, n, take MAX_BACKTRACE_LEN (backtrace e)) # (p, k, bt) # L)"
    by auto
  have "set_pc 0 HReady (?s3\<lparr>shared := u, held := insert q (held ?s3)\<rparr>) =
      s\<lparr>shared := u, given := (given s)(p \<mapsto> m', q \<mapsto> n), held := insert q (held s)\<rparr>"
    by (rule heap_state.equality) (use pcs p in \<open>auto simp: set_pc_def s1_def fun_upd_twist\<close>)
  with reach_threads [OF r3 u(1)] u(2) show thesis using that by simp
qed

end
