(* ===== verification/HeapCorrect.thy ===== *)
theory HeapCorrect
  imports HeapExit HeapThreads
begin

section \<open>Properties of the allocation tracker\<close>

text \<open>
  The reachable states of the tracker satisfy its invariant (an instance of
  \<open>invariant_system\<close>); a program that uses the heap correctly is never stopped, and the count
  it can ask for is the number of its live blocks; and the report at exit.
\<close>

subsection \<open>Sequences of calls\<close>

text \<open>The surroundings of a whole run: the static buffer, if needed, is always put at \<open>lo\<close>.\<close>

definition env_ok :: "mem \<Rightarrow> env \<Rightarrow> bool" where
  "env_ok lo e \<longleftrightarrow> mmap_ok e \<and> mmap_static e = lo \<and> dlsym_fits e"

definition outside :: "mem \<Rightarrow> mem \<Rightarrow> bool" where
  "outside lo p \<longleftrightarrow> p = 0 \<or> p < lo \<or> lo + 16 * 1024 < p"

definition tracker_step :: "mem \<Rightarrow> tracker \<Rightarrow> tracker \<Rightarrow> bool" where
  "tracker_step lo s t \<longleftrightarrow>
     (\<exists>e c. env_ok lo e \<and> list_all (outside lo) (call_ptrs c) \<and> exec e c s = Some t) \<or>
     (\<exists>e out. handler_registered s \<and> heaph_atexit e s = Some (out, t))"

definition tracker_inv :: "mem \<Rightarrow> tracker \<Rightarrow> bool" where
  "tracker_inv lo s \<longleftrightarrow> idle s \<and> (\<exists>L. tracked s L) \<and> (static_buf s = 0 \<or> static_buf s = lo)"

lemma outside_away:
  assumes "idle s" and "static_buf s = 0 \<or> static_buf s = lo" and "env_ok lo e" and "outside lo p"
  shows "away e s p"
  using assms
  by (auto simp: away_def outside_def env_ok_def idle_def static_ok_def alloc_is_static_def dlsym_fits_def)

text \<open>A call from a state of the invariant.\<close>

lemma exec_inv:
  assumes "idle s" and "tracked s L" and "static_buf s = 0 \<or> static_buf s = lo" and "env_ok lo e"
    and "list_all (outside lo) (call_ptrs c)"
  shows "case spec_call e (is_exit_done s) c L of None \<Rightarrow> exec e c s = None
    | Some M \<Rightarrow> \<exists>u. exec e c s = Some u \<and> idle u \<and> tracked u M \<and>
        is_exit_done u = is_exit_done s \<and> (static_buf u = 0 \<or> static_buf u = lo)"
proof -
  have "list_all (away e s) (call_ptrs c)"
    using assms(5) outside_away [OF assms(1,3,4)] by (simp add: list_all_iff)
  with assms have "outcome e s (spec_call e (is_exit_done s) c L) (exec e c s)"
    by (intro exec_outcome) (simp_all add: env_ok_def)
  with assms(3,4) show ?thesis
    by (auto simp: outcome_def env_ok_def split: option.splits)
qed

lemma exit_inv:
  assumes "idle s" and "handler_registered s"
  shows "idle (s\<lparr>is_exit_done := True\<rparr>)" and "tracked (s\<lparr>is_exit_done := True\<rparr>) L = tracked s L"
proof -
  show "idle (s\<lparr>is_exit_done := True\<rparr>)" using assms by (auto simp: idle_def static_ok_def)
  show "tracked (s\<lparr>is_exit_done := True\<rparr>) L = tracked s L" by (rule tracked_cong) simp_all
qed

interpretation hh: invariant_system "\<lambda>s. s = tracker_start" "tracker_step lo" "tracker_inv lo" for lo
proof unfold_locales
  fix s :: tracker
  assume "s = tracker_start"
  then show "tracker_inv lo s"
    using idle_start tracked_start by (auto simp: tracker_inv_def) (simp add: tracker_start_def)
next
  fix s t
  assume i: "tracker_inv lo s" and st: "tracker_step lo s t"
  then obtain L where L: "idle s" "tracked s L" "static_buf s = 0 \<or> static_buf s = lo"
    by (auto simp: tracker_inv_def)
  from st show "tracker_inv lo t" unfolding tracker_step_def
  proof (elim disjE exE conjE)
    fix e c
    assume c: "env_ok lo e" "list_all (outside lo) (call_ptrs c)" "exec e c s = Some t"
    with exec_inv [OF L c(1,2)] show ?thesis
      by (auto simp: tracker_inv_def split: option.splits)
  next
    fix e out
    assume x: "handler_registered s" "heaph_atexit e s = Some (out, t)"
    show ?thesis
    proof (cases "is_exit_done s")
      case True
      with x i show ?thesis by (simp add: heaph_atexit_def)
    next
      case False
      from heaph_atexit_report [OF L(1,2) False, of e] x have "t = s\<lparr>is_exit_done := True\<rparr>" by (auto split: if_splits)
      with exit_inv [OF L(1) x(1)] L show ?thesis by (auto simp: tracker_inv_def)
    qed
  qed
qed

lemma reach_tracker: "reach (\<lambda>s. s = tracker_start) (tracker_step lo) s \<Longrightarrow> tracker_inv lo s"
  by (rule hh.reach_inv)

subsection \<open>A program that uses the heap correctly\<close>

text \<open>
  \<open>V\<close> is the set of the blocks the program holds. The original functions return blocks it
  does not hold, and the program frees and reallocates blocks it holds; \<open>None\<close> otherwise. A
  \<open>realloc\<close> that fails leaves the block alone.
\<close>

definition gained :: "mem \<Rightarrow> mem set \<Rightarrow> mem set option" where
  "gained res V = (if res = 0 then Some V else if res \<in> V then None else Some (insert res V))"

definition lost :: "mem \<Rightarrow> mem set \<Rightarrow> mem set option" where
  "lost p V = (if p = 0 then Some V else if p \<in> V then Some (V - {p}) else None)"

fun client_call :: "call \<Rightarrow> mem set \<Rightarrow> mem set option" where
  "client_call (Malloc n res) V = gained res V"
| "client_call (Calloc num n res) V = gained res V"
| "client_call (Realloc p n res) V =
     (if p \<noteq> 0 \<and> p \<notin> V then None
      else if res = p then Some V
      else if res = 0 \<and> n \<noteq> 0 then Some V
      else lost p V \<bind> gained res)"
| "client_call (Free p) V = lost p V"
| "client_call (Strdup p len res) V = gained res V"
| "client_call (Getline old line len) V =
     (if old \<noteq> 0 \<and> old \<notin> V then None
      else if line = old then Some V
      else if line = 0 then None
      else lost old V \<bind> gained line)"
| "client_call (Getaddrinfo rc res) V = (if rc = 0 then gained res V else Some V)"
| "client_call (Freeaddrinfo p) V = lost p V"

definition realloc_fails :: "call \<Rightarrow> bool" where
  "realloc_fails c = (case c of Realloc p n res \<Rightarrow> p \<noteq> 0 \<and> n \<noteq> 0 \<and> res = 0 | _ \<Rightarrow> False)"

text \<open>The tracked addresses are the blocks held, each once.\<close>

definition holds :: "entry list \<Rightarrow> mem set \<Rightarrow> bool" where
  "holds L V \<longleftrightarrow> distinct (map fst L) \<and> set (map fst L) = V \<and> 0 \<notin> V"

lemma holds_added: "holds L V \<Longrightarrow> gained p V = Some W \<Longrightarrow> holds (added e False p n L) W"
  by (auto simp: holds_def gained_def added_def split: if_splits)

lemma holds_removed:
  assumes "holds L V" and "p \<in> V"
  shows "\<exists>M. remove_entry p L = Some M \<and> holds M (V - {p})"
proof -
  from assms have "remove_entry p L \<noteq> None" by (simp add: remove_entry_None holds_def)
  then obtain M where M: "remove_entry p L = Some M" by blast
  then obtain us en vs where L: "L = us @ en # vs" "M = us @ vs" "fst en = p" "p \<notin> fst ` set us"
    by (rule remove_entry_SomeE)
  let ?U = "set (map fst (us @ vs))"
  from assms(1) L have "V = insert p ?U" "p \<notin> ?U" "distinct (map fst M)" "0 \<notin> V"
    by (auto simp: holds_def simp del: set_map)
  then have "set (map fst M) = V - {p}" using L(2) by (simp del: set_map)
  with M \<open>distinct (map fst M)\<close> \<open>0 \<notin> V\<close> show ?thesis by (simp add: holds_def del: set_map)
qed

lemma holds_lost:
  assumes "holds L V" and "lost p V = Some W" and "p \<noteq> 0"
  shows "\<exists>M. removed False p L = Some M \<and> holds M W"
  using assms holds_removed [of L V p] by (auto simp: lost_def removed_def split: if_splits)

lemma holds_call:
  assumes h: "holds L V" and c: "client_call c V = Some W" and f: "\<not> realloc_fails c"
  shows "\<exists>M. spec_call e False c L = Some M \<and> holds M W"
proof -
  have move: "\<exists>M. map_option (added e False q n) (removed False p L) = Some M \<and> holds M W"
    if "p \<noteq> 0" "lost p V \<bind> gained q = Some W" for p q n
  proof -
    from that(2) obtain U where "lost p V = Some U" "gained q U = Some W"
      by (rule bind_eq_SomeE)
    with holds_lost [OF h _ that(1)] show ?thesis by (fastforce intro: holds_added)
  qed
  have zero: "lost 0 V = Some V" "gained 0 V = Some V" by (simp_all add: lost_def gained_def)
  show ?thesis
  proof (cases c)
    case (Realloc p n res)
    with c f h zero move [of p res n] show ?thesis
      by (cases "p = 0") (auto simp: realloc_fails_def intro: holds_added split: if_splits)
  next
    case (Getline old line len)
    with c h zero move [of old line "len + 1"] show ?thesis
      by (cases "old = 0") (auto intro: holds_added split: if_splits)
  qed (use c h holds_lost [OF h] zero in \<open>auto intro: holds_added split: if_splits\<close>)
qed

text \<open>A run: the calls with their surroundings.\<close>

definition run_calls :: "(env \<times> call) list \<Rightarrow> tracker \<Rightarrow> tracker option" where
  "run_calls cs s = for_each cs (\<lambda>(e, c). exec e c) s"

fun client_run :: "(env \<times> call) list \<Rightarrow> mem set \<Rightarrow> mem set option" where
  "client_run [] V = Some V"
| "client_run ((e, c) # cs) V = client_call c V \<bind> client_run cs"

definition fair :: "mem \<Rightarrow> (env \<times> call) list \<Rightarrow> bool" where
  "fair lo cs \<longleftrightarrow> list_all (\<lambda>(e, c). env_ok lo e \<and> list_all (outside lo) (call_ptrs c)) cs"

lemma run_holds:
  assumes "idle s" and "tracked s L" and "static_buf s = 0 \<or> static_buf s = lo" and "holds L V"
    and "\<not> is_exit_done s" and "fair lo cs" and "\<forall>(e, c) \<in> set cs. \<not> realloc_fails c"
    and "client_run cs V = Some W"
  shows "\<exists>u M. run_calls cs s = Some u \<and> idle u \<and> tracked u M \<and> holds M W \<and>
    \<not> is_exit_done u \<and> (static_buf u = 0 \<or> static_buf u = lo)"
  using assms
proof (induction cs arbitrary: s L V)
  case Nil
  then show ?case by (auto simp: run_calls_def)
next
  case (Cons ec cs)
  obtain e c where ec: "ec = (e, c)" by (cases ec)
  from Cons.prems(8) ec obtain U where U: "client_call c V = Some U" "client_run cs U = Some W"
    by (auto elim: bind_eq_SomeE)
  from Cons.prems(6,7) ec have c: "env_ok lo e" "list_all (outside lo) (call_ptrs c)"
      "\<not> realloc_fails c" "fair lo cs" "\<forall>(e, c) \<in> set cs. \<not> realloc_fails c"
    by (auto simp: fair_def)
  from holds_call [OF Cons.prems(4) U(1) c(3), of e] obtain M where
    M: "spec_call e False c L = Some M" "holds M U" by blast
  from exec_inv [OF Cons.prems(1-3) c(1,2)] M(1) Cons.prems(5) obtain u where
    u: "exec e c s = Some u" "idle u" "tracked u M" "\<not> is_exit_done u"
      "static_buf u = 0 \<or> static_buf u = lo"
    by auto
  from Cons.IH [OF u(2,3,5) M(2) u(4) c(4,5) U(2)] u(1) ec show ?case
    by (simp add: run_calls_def)
qed

lemma run_from_start:
  assumes "fair lo cs" and "\<forall>(e, c) \<in> set cs. \<not> realloc_fails c" and "client_run cs {} = Some V"
  obtains u M where "run_calls cs tracker_start = Some u" "idle u" "tracked u M" "holds M V"
    "\<not> is_exit_done u" "static_buf u = 0 \<or> static_buf u = lo"
proof -
  have "static_buf tracker_start = 0 \<or> static_buf tracker_start = lo" "\<not> is_exit_done tracker_start"
      "holds [] {}"
    by (simp_all add: tracker_start_def holds_def)
  with that show thesis using run_holds [OF idle_start tracked_start _ _ _ assms] by blast
qed

text \<open>Freeing a block that is not tracked, and a \<open>realloc\<close> that fails.\<close>

lemma free_unknown:
  assumes "idle u" and "tracked u M" and "\<not> is_exit_done u" and "static_buf u = 0 \<or> static_buf u = lo"
    and "env_ok lo e" and "outside lo p" and "p \<noteq> 0" and "p \<notin> set (map fst M)"
  shows "exec e (Free p) u = None"
proof -
  have "remove_entry p M = None" using assms(8) by (simp add: remove_entry_None)
  with exec_inv [OF assms(1,2,4,5), of "Free p"] assms(3,6,7) show ?thesis by (simp add: removed_def)
qed

lemma realloc_failing:
  assumes "idle s" and "tracked s M" and "\<not> is_exit_done s" and "static_buf s = 0 \<or> static_buf s = lo"
    and "holds M V" and "p \<in> V" and "env_ok lo e" and "outside lo p"
  obtains u N where "exec e (Realloc p n 0) s = Some u" "idle u" "tracked u N" "holds N (V - {p})"
    "\<not> is_exit_done u" "static_buf u = 0 \<or> static_buf u = lo"
proof -
  from holds_removed [OF assms(5,6)] obtain N where
    N: "remove_entry p M = Some N" "holds N (V - {p})" by blast
  from assms(5,6) have "p \<noteq> 0" by (metis holds_def)
  with exec_inv [OF assms(1,2,4,7), of "Realloc p n 0"] assms(3,8) N that show thesis
    by (auto simp: removed_def added_def outside_def)
qed

lemma client_run_append: "client_run (xs @ ys) U = client_run xs U \<bind> client_run ys"
  by (induction xs U rule: client_run.induct) (auto simp: Option.bind_assoc cong: Option.bind_cong)

lemma holds_card: "holds L V \<Longrightarrow> card V = length L"
  by (metis distinct_card holds_def length_map)

lemma get_count: "idle s \<Longrightarrow> tracked s L \<Longrightarrow> heaph_get_alloc_count s = Some (of_nat (length L), s)"
  by (simp add: heaph_get_alloc_count_def idle_def tracked_count)

text \<open>Surroundings in which \<open>dlsym\<close> allocates and frees, for the examples.\<close>

definition demo_env :: env where
  "demo_env = \<lparr>backtrace = [1, 2], mmap_ok = True, mmap_static = 1000000,
     dlsym_calls = [InnerMalloc 32 0, InnerCalloc 2 50 0, InnerFree 1000000],
     inner_calls = [InnerMalloc 8 700, InnerFree 700], hhreport = None,
     dladdr = (\<lambda>a. Some \<lparr>sym_file = Some ''app'', sym_name = Some ''main''\<rparr>)\<rparr>"

lemma demo_env_ok: "env_ok 1000000 demo_env"
  by (simp add: env_ok_def demo_env_def dlsym_fits_def call_ok_def)

lemma demo_exec:
  assumes "list_all (outside 1000000) (call_ptrs c)"
  shows "list_all (away demo_env tracker_start) (call_ptrs c)"
  using assms outside_away [OF idle_start _ demo_env_ok]
  by (simp add: list_all_iff tracker_start_def)

lemma demo_malloc:
  "map_option (\<lambda>s. (mode s, alloc_count_total s, is_exit_done s)) (exec demo_env (Malloc 10 500) tracker_start) =
     Some (MODE_LEAKS, 1, False)"
  by (simp add: exec_def hh_malloc_def heaph_touch_def heaph_lock_def heaph_init_def heaph_unlock_def
      tracker_start_def demo_env_def inner_def malloc_body_def calloc_body_def static_calloc_def
      static_malloc_def static_allocator_touch_def alloc_is_static_def alloc_trace_new_def
      trace_take_def trace_fill_def trace_link_def enter_def leave_def take_node_def new_batch_def ALLOCATION_BATCH_SIZE_def Let_def)

subsection \<open>Properties\<close>

text \<open>
  C35: Every replaced function implements its specification on the list of what is tracked. Between
  calls, and with addresses outside the static buffer, a call of \<open>malloc\<close>, \<open>calloc\<close>,
  \<open>realloc\<close>, \<open>free\<close>, \<open>strdup\<close>, \<open>getline\<close>, \<open>getaddrinfo\<close> or \<open>freeaddrinfo\<close> returns with the
  list changed as \<open>spec_call\<close> says (the new block with its size and backtrace in front, the
  entry of the freed block gone), or aborts where that says so; the linked lists and the pool
  stay well formed, the locks are free, and the first call of all does the initialisation.
\<close>
theorem tracker_refines:
  assumes "idle s" and "tracked s L" and "mmap_ok e" and "is_init_done s \<or> dlsym_fits e"
    and "list_all (away e s) (call_ptrs c)"
  shows "case spec_call e (is_exit_done s) c L of
      None \<Rightarrow> exec e c s = None
    | Some M \<Rightarrow> \<exists>u. exec e c s = Some u \<and> idle u \<and> tracked u M \<and>
        is_exit_done u = is_exit_done s \<and> alloc_count u = int (length M)"
  using exec_outcome [OF assms] by (auto simp: outcome_def tracked_count split: option.split)

theorem tracker_refines_witness:
  "(\<exists>u. exec demo_env (Strdup 400 9 500) tracker_start = Some u \<and> tracked u [(500, 10, [1, 2])]) \<and>
   exec demo_env (Free 600) tracker_start = None"
proof -
  have "mmap_ok demo_env" "dlsym_fits demo_env" using demo_env_ok by (simp_all add: env_ok_def)
  note ref = tracker_refines [OF idle_start tracked_start this(1) disjI2 [OF this(2)] demo_exec]
  show ?thesis
    using ref [of "Strdup 400 9 500"] ref [of "Free 600"]
    by (auto simp: outside_def tracker_start_def added_def removed_def demo_env_def MAX_BACKTRACE_LEN_def)
qed

text \<open>
  C36: A program that uses the heap correctly is never stopped by the tracker. After any
  sequence of calls from the start in which the original functions return blocks that are not
  in use, the program frees and reallocates blocks it holds, and no \<open>realloc\<close> fails,
  \<open>heaph_get_alloc_count\<close> returns the number of the blocks it holds, and freeing anything
  else aborts.
\<close>
theorem tracker_no_false_alarm:
  assumes "fair lo cs" and "\<forall>(e, c) \<in> set cs. \<not> realloc_fails c" and "client_run cs {} = Some V"
  shows "\<exists>u. run_calls cs tracker_start = Some u \<and>
    heaph_get_alloc_count u = Some (of_nat (card V), u) \<and>
    (\<forall>e p. env_ok lo e \<and> outside lo p \<and> p \<noteq> 0 \<and> p \<notin> V \<longrightarrow> exec e (Free p) u = None)"
proof -
  from run_from_start [OF assms] obtain u M where u: "run_calls cs tracker_start = Some u" "idle u"
      "tracked u M" "holds M V" "\<not> is_exit_done u" "static_buf u = 0 \<or> static_buf u = lo"
    by blast
  have "exec e (Free p) u = None" if "env_ok lo e" "outside lo p" "p \<noteq> 0" "p \<notin> V" for e p
    using that u(4) by (intro free_unknown [OF u(2,3,5,6)]) (simp_all add: holds_def)
  with u get_count [OF u(2,3)] holds_card [OF u(4)] show ?thesis by auto
qed

theorem tracker_no_false_alarm_witness:
  "\<exists>u. run_calls (map (Pair demo_env)
      [Malloc 10 500, Strdup 500 9 600, Realloc 500 99 800, Getline 0 500 20, Free 600]) tracker_start = Some u \<and>
    heaph_get_alloc_count u = Some (2, u) \<and> exec demo_env (Free 600) u = None"
proof -
  let ?cs = "map (Pair demo_env)
    [Malloc 10 500, Strdup 500 9 600, Realloc 500 99 800, Getline 0 500 20, Free 600]"
  have "fair 1000000 ?cs" using demo_env_ok by (simp add: fair_def outside_def)
  moreover have "\<forall>(e, c) \<in> set ?cs. \<not> realloc_fails c" by (simp add: realloc_fails_def)
  moreover have "client_run ?cs {} = Some {500, 800}"
    by (simp add: gained_def lost_def insert_Diff_if insert_commute)
  ultimately obtain u where u: "run_calls ?cs tracker_start = Some u"
      "heaph_get_alloc_count u = Some (of_nat (card {500::mem, 800}), u)"
      "\<forall>e p. env_ok 1000000 e \<and> outside 1000000 p \<and> p \<noteq> 0 \<and> p \<notin> {500, 800} \<longrightarrow> exec e (Free p) u = None"
    using tracker_no_false_alarm by blast
  then have "exec demo_env (Free 600) u = None" using demo_env_ok by (simp add: outside_def)
  with u show ?thesis by auto
qed

text \<open>
  C37: A failed \<open>realloc\<close> leads to a false alarm. It leaves the block with the program, but the
  tracker drops its entry: when the program frees the block, as it must, the tracker aborts it
  for "freeing bad memory".
\<close>
theorem tracker_realloc_failure:
  assumes "fair lo cs" and "\<forall>(e, c) \<in> set cs. \<not> realloc_fails c" and "client_run cs {} = Some V"
    and "p \<in> V" and "0 < n" and "env_ok lo e" and "env_ok lo e'" and "outside lo p"
  shows "client_run (cs @ [(e, Realloc p n 0), (e', Free p)]) {} = Some (V - {p}) \<and>
    (\<exists>u. run_calls (cs @ [(e, Realloc p n 0)]) tracker_start = Some u \<and> exec e' (Free p) u = None)"
proof -
  from run_from_start [OF assms(1-3)] obtain s M where s: "run_calls cs tracker_start = Some s"
      "idle s" "tracked s M" "holds M V" "\<not> is_exit_done s" "static_buf s = 0 \<or> static_buf s = lo"
    by blast
  from s(4) assms(4) have p: "p \<noteq> 0" by (metis holds_def)
  from realloc_failing [OF s(2,3,5,6,4) assms(4,6,8)] obtain u N where
    u: "exec e (Realloc p n 0) s = Some u" "idle u" "tracked u N" "holds N (V - {p})"
      "\<not> is_exit_done u" "static_buf u = 0 \<or> static_buf u = lo" by blast
  have "exec e' (Free p) u = None"
    using u(4) assms(8) p by (intro free_unknown [OF u(2,3,5,6) assms(7)]) (simp_all add: holds_def)
  with s(1) u(1) assms(3-5) p show ?thesis
    by (simp add: run_calls_def for_each_append client_run_append lost_def)
qed

theorem tracker_realloc_failure_witness:
  "\<exists>u. run_calls [(demo_env, Malloc 10 500), (demo_env, Realloc 500 99 0)] tracker_start = Some u \<and>
    exec demo_env (Free 500) u = None"
proof -
  let ?cs = "[(demo_env, Malloc 10 500)]"
  have "fair 1000000 ?cs" "client_run ?cs {} = Some {500}" "\<forall>(e, c) \<in> set ?cs. \<not> realloc_fails c"
    using demo_env_ok by (simp_all add: fair_def outside_def gained_def realloc_fails_def)
  from tracker_realloc_failure [OF this(1,3,2), of 500 99 demo_env demo_env] demo_env_ok
  show ?thesis by (simp add: outside_def)
qed

text \<open>
  C38: The report at exit. In every reachable state of the tracker, the exit handler prints what
  \<open>report_spec\<close> says of the tracked blocks, with complaints about unknown addresses possibly in
  between: nothing in the quiet mode or when there is no leak to report; otherwise the first
  ten leaks with their traces, the number of leaks and their bytes, and how many blocks were
  suppressed. A second run of the handler prints nothing. But when one of the leaks to be shown has
  an address without a symbol name in its trace, the handler passes NULL to \<open>%s\<close>: undefined.
\<close>
theorem tracker_report:
  assumes "reach (\<lambda>s. s = tracker_start) (tracker_step lo) s" and "\<not> is_exit_done s"
  shows "\<exists>L. tracked s L \<and> alloc_count s = int (length L) \<and>
    (if mode s = MODE_QUIET \<or> list_all (has_names e) (take 10 (leaks e L))
     then \<exists>out t. heaph_atexit e s = Some (out, t) \<and>
       visible out = report_spec e (mode s) L (alloc_count_total s) \<and>
       is_exit_done t \<and> heaph_atexit e' t = Some ([], t)
     else heaph_atexit e s = None)"
proof -
  from reach_tracker [OF assms(1)] obtain L where L: "idle s" "tracked s L"
    by (auto simp: tracker_inv_def)
  have "heaph_atexit e' t = Some ([], t)" if "is_exit_done t" for t
    using that by (simp add: heaph_atexit_def)
  with heaph_atexit_report [OF L assms(2), of e] have
    "if printable e (mode s) L
     then \<exists>out t. heaph_atexit e s = Some (out, t) \<and>
       visible out = report_spec e (mode s) L (alloc_count_total s) \<and>
       is_exit_done t \<and> heaph_atexit e' t = Some ([], t)
     else heaph_atexit e s = None"
    by (cases "printable e (mode s) L") fastforce+
  with L tracked_count [OF L(2)] show ?thesis unfolding printable_def by blast
qed

lemma demo_block:
  assumes "env_ok 1000000 e" and "backtrace e = [1, 2]"
  obtains s where "exec e (Malloc 10 500) tracker_start = Some s" "tracked s [(500, 10, [1, 2])]"
    "reach (\<lambda>s. s = tracker_start) (tracker_step 1000000) s" "\<not> is_exit_done s"
proof -
  have o: "list_all (outside 1000000) (call_ptrs (Malloc 10 500))" by (simp add: outside_def)
  from exec_inv [OF idle_start tracked_start _ assms(1) o] assms(2) obtain s where
    s: "exec e (Malloc 10 500) tracker_start = Some s" "tracked s [(500, 10, [1, 2])]" "\<not> is_exit_done s"
    by (auto simp: tracker_start_def added_def MAX_BACKTRACE_LEN_def)
  have "tracker_step 1000000 tracker_start s"
    unfolding tracker_step_def using s(1) o assms(1) by blast
  then have "reach (\<lambda>s. s = tracker_start) (tracker_step 1000000) s"
    by (rule reach_step [rotated]) (simp add: reach_init)
  with s that show thesis by blast
qed

text \<open>The same surroundings, where no symbol has a name.\<close>

definition nameless_env :: env where
  "nameless_env = demo_env\<lparr>dladdr := (\<lambda>a. Some \<lparr>sym_file = Some ''app'', sym_name = None\<rparr>)\<rparr>"

theorem tracker_report_witness:
  "\<exists>s out t. exec demo_env (Malloc 10 500) tracker_start = Some s \<and>
    heaph_atexit demo_env s = Some (out, t) \<and>
    visible out = [MsgNewline, MsgLeak 1 10, MsgFrame 0 ''main'', MsgFrame 1 ''main'',
      MsgFound 1 10, MsgTotal 1] \<and>
    heaph_atexit nameless_env s = None"
proof -
  obtain s where s: "exec demo_env (Malloc 10 500) tracker_start = Some s" "tracked s [(500, 10, [1, 2])]"
    "reach (\<lambda>s. s = tracker_start) (tracker_step 1000000) s" "\<not> is_exit_done s"
    by (rule demo_block [OF demo_env_ok]) (simp add: demo_env_def)
  let ?L = "[(500, 10, [1, 2])] :: entry list"
  from s(1) demo_malloc have m: "mode s = MODE_LEAKS" "alloc_count_total s = 1" by simp_all
  have L: "L = ?L" if "tracked s L" for L using that s(2) by (rule tracked_unique)
  note report_simps = report_spec_def leaks_def suppressed_def leak_bytes_def leak_block_def has_names_def
    demo_env_def nameless_env_def trace_is_internal_def trace_sym_is_internal_def trace_sym_is_func_def
    trace_sym_file_starts_with_def
  have demo: "leaks demo_env ?L = ?L" "list_all (has_names demo_env) ?L"
    by (simp_all add: report_simps)
  have nameless: "leaks nameless_env ?L = ?L" "\<not> list_all (has_names nameless_env) ?L"
    by (simp_all add: report_simps)
  have spec: "report_spec demo_env MODE_LEAKS ?L 1 = [MsgNewline, MsgLeak 1 10, MsgFrame 0 ''main'',
      MsgFrame 1 ''main'', MsgFound 1 10, MsgTotal 1]"
    unfolding report_spec_def demo by (simp add: report_simps)
  obtain L1 where "tracked s L1" "if mode s = MODE_QUIET \<or> list_all (has_names demo_env) (take 10 (leaks demo_env L1))
     then \<exists>out t. heaph_atexit demo_env s = Some (out, t) \<and>
       visible out = report_spec demo_env (mode s) L1 (alloc_count_total s) \<and>
       is_exit_done t \<and> heaph_atexit demo_env t = Some ([], t)
     else heaph_atexit demo_env s = None"
    using tracker_report [OF s(3,4), of demo_env demo_env] by blast
  with L [OF this(1)] demo m have "\<exists>out t. heaph_atexit demo_env s = Some (out, t) \<and>
      visible out = report_spec demo_env MODE_LEAKS ?L 1" by (simp split: if_splits) blast
  moreover obtain L2 where "tracked s L2"
    "if mode s = MODE_QUIET \<or> list_all (has_names nameless_env) (take 10 (leaks nameless_env L2))
     then \<exists>out t. heaph_atexit nameless_env s = Some (out, t) \<and>
       visible out = report_spec nameless_env (mode s) L2 (alloc_count_total s) \<and>
       is_exit_done t \<and> heaph_atexit demo_env t = Some ([], t)
     else heaph_atexit nameless_env s = None"
    using tracker_report [OF s(3,4), of nameless_env demo_env] by blast
  with L [OF this(1)] nameless m have "heaph_atexit nameless_env s = None" by simp
  ultimately show ?thesis using s(1) unfolding spec by blast
qed

text \<open>
  C39: Several threads at once, in any order of their sections. In every reachable state the
  lists are well formed, no two threads work on the same object, the tracked addresses are
  those of the blocks the program holds and of the blocks a \<open>realloc\<close> has moved but not yet
  untracked, the count is their number, and no thread is stopped: whichever section comes
  next, it does its work without an abort.
\<close>
theorem tracker_threads:
  assumes "reach heap_threads_start (heap_step N) s"
  shows "\<exists>L. tracked (shared s) L \<and>
    mset (map fst L) = mset_set (held s) + (\<Sum>t<N. moved_of (pcs s t)) \<and>
    alloc_count (shared s) = int (card (held s) + size (\<Sum>t<N. moved_of (pcs s t))) \<and>
    (\<forall>t v a. obj_of (pcs s t) = Some a \<and> obj_of (pcs s v) = Some a \<longrightarrow> t = v) \<and>
    (\<forall>t<N. can_go_on s t)"
proof -
  have i: "heap_inv N s" by (rule ht.reach_inv [OF assms])
  then obtain xs ys where l: "lists_ok N s xs ys" and fin: "finite (held s)"
    by (auto simp: heap_inv_def accounts_ok_def)
  let ?L = "entries (nodes (shared s)) xs" and ?M = "\<Sum>t<N. moved_of (pcs s t)"
  have L: "tracked (shared s) ?L" "mset (map fst ?L) = mset_set (held s) + ?M"
    using l by (auto simp: lists_ok_def tracked_def all_of_def)
  have "length ?L = size (mset (map fst ?L))" by simp
  then have "length ?L = card (held s) + size ?M" unfolding L(2) by simp
  with tracked_count [OF L(1)] have "alloc_count (shared s) = int (card (held s) + size ?M)" by simp
  moreover have "\<forall>t v a. obj_of (pcs s t) = Some a \<and> obj_of (pcs s v) = Some a \<longrightarrow> t = v"
    using l by (simp add: lists_ok_def objs_ok_def)
  moreover have "\<forall>t<N. can_go_on s t" using heap_inv_goes_on [OF i] by blast
  ultimately show ?thesis using L by blast
qed

text \<open>The state behind one \<open>malloc\<close> of the first of two threads.\<close>

lemma demo_one_block:
  obtains u where "reach heap_threads_start (heap_step 2)
      (demo_threads\<lparr>shared := u, given := [500 \<mapsto> 10], held := {500}\<rparr>)"
    "tracked u [(500, 10, [1, 2])]" "static_buf u = 0" "static_size u = 0"
proof -
  have r: "reach heap_threads_start (heap_step 2) demo_threads"
    by (rule reach_init) (rule demo_threads_start)
  have "fresh_block 500 demo_threads" "pcs demo_threads 0 = HReady" "mmap_ok demo_env"
      "tracked (shared demo_threads) []"
    using demo_threads_start
    by (simp_all add: fresh_block_def demo_threads_def alloc_is_static_def tracker_start_def demo_env_def
        heap_threads_start_def)
  from run_malloc [OF r _ this(2,1,3,4), of 10] that show thesis
    by (auto simp: demo_threads_def demo_env_def MAX_BACKTRACE_LEN_def flags_def tracker_start_def)
qed

theorem tracker_threads_witness:
  "\<exists>s. held s = {500} \<and> alloc_count (shared s) = 1 \<and> can_go_on s 0 \<and> can_go_on s 1"
proof -
  obtain u where u: "reach heap_threads_start (heap_step 2)
      (demo_threads\<lparr>shared := u, given := [500 \<mapsto> 10], held := {500}\<rparr>)"
    by (rule demo_one_block)
  from tracker_threads [OF this] show ?thesis
    by (intro exI [of _ "demo_threads\<lparr>shared := u, given := [500 \<mapsto> 10], held := {500}\<rparr>"])
      (auto simp: demo_threads_def numeral_2_eq_2)
qed

text \<open>
  C40: A \<open>realloc\<close> of one thread can spoil the entry of another. It calls the original function
  first and untracks the old block afterwards; when another thread gets the old address in
  between, its new entry is dropped and the old one stays. With all calls finished, the block
  at 500, which has 7 bytes, is on record with the 10 bytes of a block that is gone.
\<close>
theorem tracker_realloc_race:
  "\<exists>s. reach heap_threads_start (heap_step 2) s \<and> (\<forall>t. pcs s t = HReady) \<and>
    given s = [500 \<mapsto> 7, 600 \<mapsto> 99] \<and> held s = {500, 600} \<and> 
    tracked (shared s) [(600, 99, [1, 2]), (500, 10, [1, 2])]"
proof -
  obtain u where u: "reach heap_threads_start (heap_step 2)
      (demo_threads\<lparr>shared := u, given := [500 \<mapsto> 10], held := {500}\<rparr>)"
    "tracked u [(500, 10, [1, 2])]" "static_buf u = 0" "static_size u = 0"
    by (rule demo_one_block)
  let ?s = "demo_threads\<lparr>shared := u, given := [500 \<mapsto> 10], held := {500}\<rparr>"
  have "pcs ?s = (\<lambda>t. HReady)" "fresh_block 600 ?s" "mmap_ok demo_env" "\<not> alloc_is_static 500 (shared ?s)"
    using u(3,4) by (simp_all add: demo_threads_def fresh_block_def alloc_is_static_def demo_env_def)
  then obtain v where v: "reach heap_threads_start (heap_step 2)
      (?s\<lparr>shared := v, given := (given ?s)(500 \<mapsto> 7, 600 \<mapsto> 99), held := insert 600 (held ?s)\<rparr>)"
    "tracked v ((600, 99, take MAX_BACKTRACE_LEN (backtrace demo_env)) # (500, 10, [1, 2]) # [])"
    using run_race [OF u(1), of 500 600 demo_env 10 "[1, 2]" "[]" 7 99] u(2) by auto
  then show ?thesis
    by (intro exI [of _ "?s\<lparr>shared := v, given := (given ?s)(500 \<mapsto> 7, 600 \<mapsto> 99), held := insert 600 (held ?s)\<rparr>"])
      (auto simp: demo_threads_def demo_env_def MAX_BACKTRACE_LEN_def)
qed

end
