(* ===== verification/Spec2Isabelle.thy ===== *)
theory Spec2Isabelle
  imports UserfsCorrect SortCorrect PoolCorrect HeapCorrect
begin

text \<open>
  A verification library for the homework programs of this repository.

  The repository holds independent C programs. Each is modelled as the code has it (structs
  as records, pointers as addresses into a store, undefined behaviour, failed assertions and
  calls that do not return as \<open>None\<close>, error codes as values), and the properties are
  proved of these definitions.

  \<^bold>\<open>Shared theories.\<close> \<open>Prelude\<close>: C integers, buffers, \<open>for\<close> loops, reachable states and the
  interface \<open>invariant_system\<close>. \<open>Links\<close>: singly and doubly linked lists in a store, with the
  interfaces \<open>slinks\<close> and \<open>dlinks\<close> that every list of the programs interprets. \<open>Doubles\<close>: IEEE
  doubles with their rounding, infinities and NaN, and the casts from and to \<open>long\<close>.

  \<^bold>\<open>homework-03, \<open>userfs.c\<close>: a file system in memory.\<close> A file is a doubly linked list of
  blocks of 512 bytes, descriptors are an array of pointers, and a deleted file lives on
  until its last descriptor is closed.

    \<^item> \<open>UserfsState\<close>, \<open>UserfsOps\<close>: the structs and globals, and every function from
      \<open>ufs_open\<close> to \<open>ufs_destroy\<close>, loop by loop.
    \<^item> \<open>UserfsInvariant\<close>: \<open>ufs_inv\<close>, what holds between two calls.
    \<^item> \<open>UserfsSpec\<close>: the abstract specifications; \<open>UserfsNames\<close>, \<open>UserfsClose\<close>,
      \<open>UserfsDestroy\<close>, \<open>UserfsBlocks\<close>, \<open>UserfsData\<close>, \<open>UserfsWrite\<close>, \<open>UserfsRead\<close>,
      \<open>UserfsResize\<close>: each function keeps the invariant and implements its specification.
    \<^item> \<open>UserfsSystem\<close>, \<open>UserfsCorrect\<close>: sequences of calls, and the properties.

  \<^bold>\<open>homework-01, \<open>libcoro.c\<close>: coroutines.\<close> A saved context is what a coroutine still has to
  do: a possibly infinite tree of actions on the shared state, cut where it yields.

    \<^item> \<open>Coro\<close>: struct coro, the list, \<open>coro_new\<close>, \<open>coro_yield\<close>, \<open>coro_body\<close>,
      \<open>coro_sched_wait\<close>. The functions that may not return are \<open>partial_function\<close>s, and \<open>None\<close> is
      also a call that never returns. For code that ends (\<open>ends\<close>, inductively) that they return
      is proved by well-founded induction on the code left to run; for code that yields for
      ever, that they do not.
    \<^item> \<open>CoroSignal\<close>: how \<open>coro_new\<close> gets a first context, with a signal handler that runs on an
      alternate stack, the system calls for that and their failures; it refines \<open>coro_new\<close>.
    \<^item> \<open>CoroSched\<close>: the list between two calls, and the interfaces by which a program on the
      scheduler is verified: with \<open>cooperative\<close>, what each coroutine knows, and what all know
      together, is kept by every slice; with \<open>finishing\<close>, also the code ends. \<open>CoroCorrect\<close>
      interprets them for any code without undefined behaviour and holds the properties of the
      library. The state between two calls includes that \<open>coro_sched_init\<close> has been called.

  \<^bold>\<open>homework-01, \<open>solution.c\<close>: an external sort on the coroutines.\<close>

    \<^item> \<open>SortText\<close>: \<open>fscanf\<close>, \<open>fprintf\<close> and \<open>strtol\<close> of numbers, and the loops that count
      and read the numbers of a file. \<open>SortHeap\<close>: heap sort as a function on lists, the
      specification that the code in \<open>SortProgram\<close> is proved to compute, and that it sorts. \<open>SortMerge\<close>: the final merge.
    \<^item> \<open>SortProgram\<close>: the code of a coroutine with all its yields, the command line and
      \<open>main\<close> up to freeing the arrays. The clock, the contents of the files and whether the output opens are given
      by a \<open>world\<close>. Loops of coroutine code carry fuel: the inner loop of heap sort the bound
      of the heap plus one (its index grows), the loop over the files their number plus one
      (each round takes a file); \<open>SortSafe\<close> and \<open>SortSched\<close> show that the fuel is never
      used up, as running out of it is a failure.
    \<^item> \<open>SortSafe\<close>, \<open>SortSched\<close>: rely and guarantee of a coroutine, and that the interface
      \<open>finishing\<close> holds for the program. \<open>SortMain\<close>, \<open>SortCorrect\<close>: the result of \<open>main\<close> for
      every clock and any number of coroutines, and the inputs on which the program fails.

  \<^bold>\<open>homework-04, \<open>thread_pool.c\<close>: a thread pool.\<close>

    \<^item> \<open>PoolModel\<close>: the structs, the functions cut into the sections between taking and
      releasing a mutex, and condition variables with sleeping and woken threads.
    \<^item> \<open>PoolSteps\<close>: the step relation over all workers and clients, and the invariant;
      \<open>PoolInvariant\<close>, \<open>PoolCalls\<close>: every section keeps it. \<open>PoolCorrect\<close>: the properties for
      one client and any scheduling of the workers, and two situations in which the pool
      fails. The client keeps to the contract of the header: it may detach a task at any time
      and does not touch it afterwards. The one section this leaves undefined is the end of a
      task that was detached before it had finished. With two clients that push at once, both
      can block. The deadline of a timed join is computed in \<open>Doubles\<close>.

  \<^bold>\<open>utils/heap_help, \<open>heap_help.c\<close>: a tracker of allocations.\<close> It replaces \<open>malloc\<close>, \<open>free\<close>
  and their relatives by functions that keep a list of what is allocated, in objects that it
  takes from a pool or from batches of 1024, and reports what is left at exit.

    \<^item> \<open>HeapModel\<close>: the structs and globals, the static allocator that serves while the
      original functions are looked up, the initialisation, and the replaced functions. What
      the original functions and the system answer comes in as arguments.
    \<^item> \<open>HeapReport\<close>: \<open>heaph_atexit\<close>, printing a list of messages. A NULL name given to \<open>%s\<close> is
      undefined. The handler runs only after the initialisation has registered it.
    \<^item> \<open>HeapInvariant\<close>: the tracked list, the pool and the batch, and the abstract list of
      what is recorded. \<open>HeapCalls\<close>: \<open>spec_call\<close>, and every replaced function implements it.
      \<open>HeapExit\<close>: the loop of the report prints \<open>report_spec\<close>, or is undefined when a leak that
      is shown has an address without a name.
    \<^item> \<open>HeapThreads\<close>: \<open>malloc\<close>, \<open>free\<close> and \<open>realloc\<close> of several threads, cut into the sections
      under the lock and the calls of the original functions, as a step relation with its
      invariant. \<open>HeapCorrect\<close>: programs that use the heap correctly, and the properties.

  \<^bold>\<open>Bounds.\<close> \<open>int\<close> has 32 bits, \<open>long\<close> and \<open>size_t\<close> 64. In the sort, a file holds at most
  half as many numbers as \<open>INT_MAX\<close>, since the children of a slot must have an index. The
  time counters of the sort are unbounded integers. In the pool the counters are integers;
  their bounds are part of the invariant, and the deadline of a timed join fits \<open>long\<close> by
  the contract of the calls (the header has no such restriction; the cast is undefined without it). In the tracker, addresses and sizes are numbers
  (products of sizes wrap at 64 bits), the total count and the bytes of the report are 64-bit
  words, and \<open>alloc_count\<close> is an integer that the invariant ties to the length of the list.

  \<^bold>\<open>Not modelled.\<close> Signals other than \<open>SIGUSR2\<close> in \<open>coro_new\<close>; failures of \<open>malloc\<close>, which the
  programs do not check; messages on standard output, other than the report of the tracker;
  a coroutine that calls \<open>coro_sched_wait\<close>; a failure of \<open>atexit\<close>; reads of \<open>is_finished\<close> and \<open>is_running\<close> without the mutex as
  data races; in the tracker, several threads during the initialisation and at exit, and the
  spinning of its locks; the tests and the scripts.
\<close>

end
